(* ===== verification/Polar_Prelude.thy ===== *)
theory Polar_Prelude
  imports Main "HOL-Library.Word"
begin

text \<open>
  Shared vocabulary of the development: machine integer types, the error values of
  \<open>ereport\<close>/\<open>elog\<close>, the result type and its sequencing operator, the page identity
  \<open>BufferTag\<close>, the circular index macros of \<open>polar_logindex.h\<close>, the bytes of integers in memory,
  and the generic lemmas on lists, words and circular indices that the components share.
\<close>

unbundle bit_operations_syntax

section \<open>Collections of facts\<close>

named_theorems result_simps \<open>rules that take apart a successful or failed result\<close>
named_theorems ring_simps \<open>rules about circular indices\<close>

section \<open>Machine integers\<close>

type_synonym uint8 = "8 word"
type_synonym uint16 = "16 word"
type_synonym uint32 = "32 word"
type_synonym uint64 = "64 word"

text \<open>A WAL position is an unsigned 64 bit integer and 0 is the invalid position.\<close>

type_synonym XLogRecPtr = "64 word"

abbreviation (input) InvalidXLogRecPtr :: XLogRecPtr where
  "InvalidXLogRecPtr \<equiv> 0"

abbreviation (input) XLogRecPtrIsInvalid :: "XLogRecPtr \<Rightarrow> bool" where
  "XLogRecPtrIsInvalid lsn \<equiv> lsn = InvalidXLogRecPtr"

abbreviation (input) UINT64_MAX :: uint64 where
  "UINT64_MAX \<equiv> - 1"

section \<open>Errors\<close>

text \<open>
  An error report of level ERROR or above does not return to its caller. It is a value of the
  left summand; the level says what it aborts (the statement, the session, the server).
\<close>

datatype elevel = ERROR | FATAL | PANIC

type_synonym 'a result = "elevel + 'a"

definition rbind :: "'a result \<Rightarrow> ('a \<Rightarrow> 'b result) \<Rightarrow> 'b result" where
  "rbind m f = (case m of Inl e \<Rightarrow> Inl e | Inr x \<Rightarrow> f x)"

lemma rbind_Inr [simp]: "rbind (Inr x) f = f x"
  and rbind_Inl [simp]: "rbind (Inl e) f = Inl e"
  by (simp_all add: rbind_def)

lemma rbind_eq_Inr_iff [result_simps]:
  "rbind m f = Inr y \<longleftrightarrow> (\<exists>x. m = Inr x \<and> f x = Inr y)"
  by (cases m) auto

lemma rbind_eq_Inl_iff [result_simps]:
  "rbind m f = Inl e \<longleftrightarrow> m = Inl e \<or> (\<exists>x. m = Inr x \<and> f x = Inl e)"
  by (cases m) auto

lemma rbind_cong [fundef_cong]:
  "m = m' \<Longrightarrow> (\<And>x. m' = Inr x \<Longrightarrow> f x = g x) \<Longrightarrow> rbind m f = rbind m' g"
  by (cases m') auto

text \<open>\<open>POLAR_ASSERT_PANIC\<close> is checked in every build and reports PANIC when it fails.\<close>

definition POLAR_ASSERT_PANIC :: "bool \<Rightarrow> unit result" where
  "POLAR_ASSERT_PANIC c = (if c then Inr () else Inl PANIC)"

lemma POLAR_ASSERT_PANIC_simps [simp]:
  "POLAR_ASSERT_PANIC True = Inr ()"
  "POLAR_ASSERT_PANIC False = Inl PANIC"
  by (simp_all add: POLAR_ASSERT_PANIC_def)

lemma POLAR_ASSERT_PANIC_eq [result_simps]:
  "POLAR_ASSERT_PANIC c = Inr u \<longleftrightarrow> c"
  "POLAR_ASSERT_PANIC c = Inl e \<longleftrightarrow> \<not> c \<and> e = PANIC"
  by (auto simp: POLAR_ASSERT_PANIC_def)

section \<open>Page identity\<close>

record RelFileNode =
  spcNode :: uint32
  dbNode :: uint32
  relNode :: uint32

record BufferTag =
  rnode :: RelFileNode
  forkNum :: int
  blockNum :: uint32

definition RelFileNodeEquals :: "RelFileNode \<Rightarrow> RelFileNode \<Rightarrow> bool" where
  "RelFileNodeEquals node1 node2 \<longleftrightarrow>
     relNode node1 = relNode node2 \<and> dbNode node1 = dbNode node2 \<and> spcNode node1 = spcNode node2"

definition BUFFERTAGS_EQUAL :: "BufferTag \<Rightarrow> BufferTag \<Rightarrow> bool" where
  "BUFFERTAGS_EQUAL a b \<longleftrightarrow>
     RelFileNodeEquals (rnode a) (rnode b) \<and> blockNum a = blockNum b \<and> forkNum a = forkNum b"

lemma RelFileNodeEquals_iff [simp]: "RelFileNodeEquals a b \<longleftrightarrow> a = b"
  by (auto simp: RelFileNodeEquals_def)

lemma BUFFERTAGS_EQUAL_iff [simp]: "BUFFERTAGS_EQUAL a b \<longleftrightarrow> a = b"
  by (auto simp: BUFFERTAGS_EQUAL_def)

section \<open>Circular indices\<close>

definition LOOP_NEXT_VALUE :: "nat \<Rightarrow> nat \<Rightarrow> nat" where
  "LOOP_NEXT_VALUE i n = (if i = n - 1 then 0 else i + 1)"

definition LOOP_PREV_VALUE :: "nat \<Rightarrow> nat \<Rightarrow> nat" where
  "LOOP_PREV_VALUE i n = (if i = 0 then n - 1 else i - 1)"

lemma LOOP_NEXT_VALUE_mod [ring_simps]:
  "i < n \<Longrightarrow> LOOP_NEXT_VALUE i n = (i + 1) mod n"
  by (cases "i = n - 1") (auto simp: LOOP_NEXT_VALUE_def)

lemma LOOP_PREV_VALUE_mod [ring_simps]:
  "i < n \<Longrightarrow> LOOP_PREV_VALUE i n = (i + (n - 1)) mod n"
proof (cases i)
  case (Suc j)
  assume "i < n"
  then have "(i + (n - 1)) mod n = (j + n) mod n"
    using Suc by simp
  then show ?thesis
    using \<open>i < n\<close> Suc by (simp add: LOOP_PREV_VALUE_def)
qed (simp add: LOOP_PREV_VALUE_def)

lemma LOOP_VALUE_less [simp]:
  "i < n \<Longrightarrow> LOOP_NEXT_VALUE i n < n"
  "i < n \<Longrightarrow> LOOP_PREV_VALUE i n < n"
  by (auto simp: LOOP_NEXT_VALUE_def LOOP_PREV_VALUE_def)

lemma LOOP_PREV_NEXT [simp]:
  "i < n \<Longrightarrow> LOOP_PREV_VALUE (LOOP_NEXT_VALUE i n) n = i"
  "i < n \<Longrightarrow> LOOP_NEXT_VALUE (LOOP_PREV_VALUE i n) n = i"
  by (auto simp: LOOP_NEXT_VALUE_def LOOP_PREV_VALUE_def)

text \<open>Distinct offsets below the size stay distinct after rotation.\<close>

lemma mod_offset_inj:
  assumes "x < (n::nat)" "y < n" "(b + x) mod n = (b + y) mod n"
  shows "x = y"
proof -
  have "int x mod int n = int y mod int n"
  proof -
    have "(int b + int x) mod int n = (int b + int y) mod int n"
      using assms(3) by (metis of_nat_add of_nat_mod)
    then show ?thesis
      by (metis add_diff_cancel_left' mod_diff_cong)
  qed
  then show ?thesis using assms(1,2) by simp
qed

lemma mod_offset_surj:
  assumes "k < (n::nat)"
  obtains x where "x < n" "(b + x) mod n = k"
proof -
  let ?x = "(k + (n - b mod n)) mod n"
  have "(b + ?x) mod n = (b mod n + (k + (n - b mod n))) mod n"
    by (simp add: mod_simps)
  also have "\<dots> = (k + n) mod n"
  proof -
    have "b mod n \<le> n" using assms by (simp add: less_imp_le)
    then have "b mod n + (k + (n - b mod n)) = k + n" by arith
    then show ?thesis by simp
  qed
  finally show ?thesis
    using assms that[of ?x] by simp
qed

section \<open>Words\<close>

lemma bit_uint64_less: "bit (x :: uint64) n \<Longrightarrow> n < 64"
  using bit_imp_le_length[of x n] by simp

lemma word_eq_0_bits: "x = 0 \<longleftrightarrow> (\<forall>n. \<not> bit (x :: uint64) n)"
  by (auto simp: bit_eq_iff dest: bit_uint64_less)

lemma unat_inc: "(x :: uint64) < UINT64_MAX \<Longrightarrow> unat (x + 1) = Suc (unat x)"
  by (metis add.commute add_eq_0_iff2 less_irrefl unatSuc)

lemma inc_greater: "(x :: uint64) < UINT64_MAX \<Longrightarrow> y \<le> x \<Longrightarrow> y < x + 1"
  by (simp add: word_less_nat_alt word_le_nat_alt unat_inc)

lemma finite_bits [simp]: "finite {i. bit (x :: uint64) i}"
  by (rule finite_subset[of _ "{..<64}"]) (auto dest: bit_uint64_less)

section \<open>Lists\<close>

lemma nth_append_mid:
  "length xs \<le> i \<Longrightarrow> i < length xs + length ys \<Longrightarrow> (xs @ ys @ zs) ! i = ys ! (i - length xs)"
  by (auto simp: nth_append)

lemma take_map_upt: "n \<le> m \<Longrightarrow> take n (map f [0..<m]) = map f [0..<n]"
  by (simp add: take_map)

section \<open>Little-endian bytes\<close>

text \<open>\<open>memcpy\<close> of an unsigned integer copies its bytes, least significant first.\<close>

definition le_bytes :: "nat \<Rightarrow> 'a::len word \<Rightarrow> uint8 list" where
  "le_bytes n w = map (\<lambda>i. ucast (drop_bit (8 * i) w)) [0..<n]"

fun le_word :: "uint8 list \<Rightarrow> 'a::len word" where
  "le_word [] = 0"
| "le_word (b # bs) = ucast b OR push_bit 8 (le_word bs)"

lemma length_le_bytes [simp]: "length (le_bytes n w) = n"
  by (simp add: le_bytes_def)

lemma bit_uint8_less: "bit (x :: uint8) n \<Longrightarrow> n < 8"
  using bit_imp_le_length[of x n] by simp

lemma bit_le_word:
  "bit (le_word bs :: 'a::len word) k \<longleftrightarrow>
     k < LENGTH('a) \<and> k div 8 < length bs \<and> bit (bs ! (k div 8)) (k mod 8)"
proof (induction bs arbitrary: k)
  case Nil
  then show ?case by simp
next
  case (Cons b bs)
  show ?case
  proof (cases "k < 8")
    case True
    then show ?thesis
      by (auto simp: bit_or_iff bit_push_bit_iff bit_ucast_iff)
  next
    case False
    then have k: "k div 8 = Suc ((k - 8) div 8)" "(k - 8) mod 8 = k mod 8"
      by (simp_all add: le_div_geq le_mod_geq)
    then show ?thesis
      using False Cons.IH[of "k - 8"]
      by (auto simp: bit_or_iff bit_push_bit_iff bit_ucast_iff dest: bit_uint8_less)
  qed
qed

lemma le_word_le_bytes [simp]:
  assumes "LENGTH('a::len) \<le> 8 * n"
  shows "le_word (le_bytes n w) = (w :: 'a word)"
proof (rule bit_word_eqI)
  fix k assume "k < LENGTH('a)"
  with assms have "k div 8 < n" by simp
  then show "bit (le_word (le_bytes n w) :: 'a word) k \<longleftrightarrow> bit w k"
    using \<open>k < LENGTH('a)\<close> by (simp add: bit_le_word le_bytes_def bit_ucast_iff bit_drop_bit_eq)
qed

lemma le_bytes_le_word [simp]:
  assumes "length bs = n" "8 * n \<le> LENGTH('a::len)"
  shows "le_bytes n (le_word bs :: 'a word) = bs"
proof (rule nth_equalityI)
  fix i assume i: "i < length (le_bytes n (le_word bs :: 'a word))"
  show "le_bytes n (le_word bs :: 'a word) ! i = bs ! i"
  proof (rule bit_word_eqI)
    fix k assume "k < LENGTH(8)"
    then have "k < 8" by simp
    then have "(8 * i + k) div 8 = i" "(8 * i + k) mod 8 = k" "8 * i + k < 8 * n"
      using i by simp_all
    then show "bit (le_bytes n (le_word bs :: 'a word) ! i) k \<longleftrightarrow> bit (bs ! i) k"
      using i assms \<open>k < 8\<close> by (simp add: le_bytes_def bit_ucast_iff bit_drop_bit_eq bit_le_word)
  qed
qed (use assms in simp)

end
