(* ===== verification/Polar_Bitpos.thy ===== *)
theory Polar_Bitpos
  imports Polar_Prelude
begin

text \<open>
  The occupancy bitmap macros of \<open>src/include/utils/polar_bitpos.h\<close>: find the least set bit, clear
  it, occupy, test and release a position. Positions are counted from 1, as the callers do.
  Both variants of \<open>POLAR_BIT_LEAST_POS\<close> are modelled: the one built on \<open>__builtin_ffsl\<close> and the
  portable binary search. The loop \<open>while (occupied) { LEAST_POS; body; CLEAR_LEAST }\<close>, which the
  ring buffer and the mini transaction table share, is shown to visit the set bits in order.
\<close>

section \<open>The macros\<close>

text \<open>\<open>__builtin_ffsl\<close>: one plus the index of the least significant set bit, or 0.\<close>

definition POLAR_BIT_LEAST_POS :: "uint64 \<Rightarrow> nat" where
  "POLAR_BIT_LEAST_POS v = (case find (bit v) [0..<64] of None \<Rightarrow> 0 | Some i \<Rightarrow> Suc i)"

text \<open>The variant for compilers other than GCC.\<close>

definition POLAR_BIT_LEAST_POS_portable :: "uint64 \<Rightarrow> nat" where
  "POLAR_BIT_LEAST_POS_portable val =
    (let (p, v) = (0, val);
         (p, v) = (if v AND 0xffffffff = 0 then (p + 32, drop_bit 32 v) else (p, v));
         (p, v) = (if v AND 0xffff = 0 then (p + 16, drop_bit 16 v) else (p, v));
         (p, v) = (if v AND 0xff = 0 then (p + 8, drop_bit 8 v) else (p, v));
         (p, v) = (if v AND 0xf = 0 then (p + 4, drop_bit 4 v) else (p, v));
         (p, v) = (if v AND 0x3 = 0 then (p + 2, drop_bit 2 v) else (p, v))
     in if v AND 0x1 = 0 then p + 1 else p)"

definition POLAR_BIT_CLEAR_LEAST :: "uint64 \<Rightarrow> uint64" where
  "POLAR_BIT_CLEAR_LEAST x = x AND (x - 1)"

definition POLAR_BIT_OCCUPY :: "uint64 \<Rightarrow> nat \<Rightarrow> uint64" where
  "POLAR_BIT_OCCUPY x i = x OR push_bit (i - 1) 1"

definition POLAR_BIT_IS_OCCUPIED :: "uint64 \<Rightarrow> nat \<Rightarrow> bool" where
  "POLAR_BIT_IS_OCCUPIED x i \<longleftrightarrow> x AND push_bit (i - 1) 1 \<noteq> 0"

definition POLAR_BIT_RELEASE_OCCUPIED :: "uint64 \<Rightarrow> nat \<Rightarrow> uint64" where
  "POLAR_BIT_RELEASE_OCCUPIED x i = x AND NOT (push_bit (i - 1) 1)"

text \<open>The set bits of a bitmap, in increasing order, counted from 0.\<close>

definition set_bits_of :: "uint64 \<Rightarrow> nat list" where
  "set_bits_of x = filter (bit x) [0..<64]"

section \<open>Occupy, test, release\<close>

lemma bit_push_1 [simp]: "i < 64 \<Longrightarrow> bit (2 ^ i :: uint64) n \<longleftrightarrow> n = i"
  by (auto simp: bit_exp_iff)

lemma bit_OCCUPY [simp]:
  "0 < i \<Longrightarrow> i \<le> 64 \<Longrightarrow> bit (POLAR_BIT_OCCUPY x i) n \<longleftrightarrow> bit x n \<or> n = i - 1"
  by (simp add: POLAR_BIT_OCCUPY_def bit_or_iff)

lemma bit_RELEASE [simp]:
  "0 < i \<Longrightarrow> i \<le> 64 \<Longrightarrow> bit (POLAR_BIT_RELEASE_OCCUPIED x i) n \<longleftrightarrow> bit x n \<and> n \<noteq> i - 1"
  by (auto simp: POLAR_BIT_RELEASE_OCCUPIED_def bit_and_iff bit_not_iff dest: bit_uint64_less)

lemma IS_OCCUPIED_iff [simp]:
  assumes "0 < i" "i \<le> 64"
  shows "POLAR_BIT_IS_OCCUPIED x i \<longleftrightarrow> bit x (i - 1)"
proof -
  have "x AND push_bit (i - 1) 1 \<noteq> 0 \<longleftrightarrow> (\<exists>n. bit (x AND push_bit (i - 1) 1) n)"
    by (simp add: word_eq_0_bits)
  also have "\<dots> \<longleftrightarrow> bit x (i - 1)"
    using assms by (simp add: bit_and_iff)
  finally show ?thesis by (simp add: POLAR_BIT_IS_OCCUPIED_def)
qed

section \<open>The least set bit\<close>

lemma set_set_bits_of: "set (set_bits_of x) = {n. bit x n}"
  by (auto simp: set_bits_of_def dest: bit_uint64_less)

lemma set_bits_of_eq_Nil [simp]: "set_bits_of x = [] \<longleftrightarrow> x = 0"
proof -
  have "set_bits_of x = [] \<longleftrightarrow> set (set_bits_of x) = {}" by simp
  also have "\<dots> \<longleftrightarrow> x = 0" unfolding set_set_bits_of by (auto simp: word_eq_0_bits)
  finally show ?thesis .
qed

lemma set_bits_of_0 [simp]: "set_bits_of 0 = []"
  by simp

lemma sorted_set_bits_of: "sorted_wrt (<) (set_bits_of x)"
  by (simp add: set_bits_of_def sorted_wrt_filter)

lemma find_filter: "find P xs = (case filter P xs of [] \<Rightarrow> None | y # _ \<Rightarrow> Some y)"
  by (induction xs) auto

lemma LEAST_POS_set_bits:
  "POLAR_BIT_LEAST_POS x = (case set_bits_of x of [] \<Rightarrow> 0 | i # _ \<Rightarrow> Suc i)"
  by (simp add: POLAR_BIT_LEAST_POS_def find_filter set_bits_of_def split: list.split)

lemma LEAST_POS_0_iff [simp]: "POLAR_BIT_LEAST_POS x = 0 \<longleftrightarrow> x = 0"
  by (cases "set_bits_of x") (auto simp: LEAST_POS_set_bits simp flip: set_bits_of_eq_Nil)

lemma set_bits_of_ConsD:
  assumes "set_bits_of x = i # js"
  shows "bit x i" "\<And>n. n < i \<Longrightarrow> \<not> bit x n" "i < 64"
proof -
  have m: "set (i # js) = {n. bit x n}" using assms set_set_bits_of by metis
  show "bit x i" using m by auto
  then show "i < 64" using bit_uint64_less by blast
  have "sorted_wrt (<) (i # js)" using sorted_set_bits_of assms by metis
  then have "\<forall>n \<in> set (i # js). i \<le> n" by auto
  then show "\<And>n. n < i \<Longrightarrow> \<not> bit x n" using m
    by (metis mem_Collect_eq not_le)
qed

lemma LEAST_POS_bit: "0 < POLAR_BIT_LEAST_POS x \<Longrightarrow> bit x (POLAR_BIT_LEAST_POS x - 1)"
  by (cases "set_bits_of x") (auto simp: LEAST_POS_set_bits dest: set_bits_of_ConsD)

lemma LEAST_POS_le_iff:
  "0 < POLAR_BIT_LEAST_POS x \<and> POLAR_BIT_LEAST_POS x \<le> n \<longleftrightarrow> (\<exists>i < n. bit x i)"
proof (cases "set_bits_of x")
  case Nil
  then have "x = 0" by simp
  then show ?thesis by simp
next
  case (Cons i js)
  note i = set_bits_of_ConsD[OF Cons]
  have "Suc i \<le> n \<longleftrightarrow> (\<exists>k < n. bit x k)"
  proof
    assume "\<exists>k < n. bit x k"
    then obtain k where "k < n" "\<not> k < i" using i(2) by blast
    then show "Suc i \<le> n" by linarith
  qed (use i(1) Suc_le_eq in blast)
  then show ?thesis using Cons by (simp add: LEAST_POS_set_bits)
qed

section \<open>Clearing the least bit\<close>

lemma bit_minus_1_least:
  assumes "bit (x :: uint64) i" "\<And>n. n < i \<Longrightarrow> \<not> bit x n"
  shows "bit (x - 1) n \<longleftrightarrow> (if n < i then True else if n = i then False else bit x n)"
proof -
  have i: "i < 64" using assms(1) bit_uint64_less by blast
  define y where "y = unset_bit i x"
  have y: "bit y n \<longleftrightarrow> bit x n \<and> n > i" for n
    using assms by (auto simp: y_def bit_unset_bit_iff) (meson linorder_neqE_nat)
  have "x = y OR 2 ^ i"
  proof (rule bit_eqI)
    fix n
    show "bit x n \<longleftrightarrow> bit (y OR 2 ^ i) n"
      using assms i by (cases n i rule: linorder_cases) (auto simp: bit_or_iff y)
  qed
  also have "\<dots> = y + 2 ^ i"
    by (rule disjunctive_add_eq_or [symmetric])
       (rule bit_eqI, use i y in \<open>auto simp: bit_and_iff\<close>)
  finally have "x - 1 = y + (2 ^ i - 1)" by simp
  also have "(2 :: uint64) ^ i - 1 = mask i"
    by (simp add: mask_eq_exp_minus_1)
  also have "y + mask i = y OR mask i"
    by (rule disjunctive_add_eq_or) (rule bit_eqI, use y in \<open>auto simp: bit_and_iff bit_mask_iff\<close>)
  finally have "bit (x - 1) n \<longleftrightarrow> bit y n \<or> n < i"
    using i by (auto simp: bit_or_iff bit_mask_iff)
  then show ?thesis using y by auto
qed

lemma bit_CLEAR_LEAST:
  assumes "set_bits_of x = i # js"
  shows "bit (POLAR_BIT_CLEAR_LEAST x) n \<longleftrightarrow> bit x n \<and> n \<noteq> i"
  using set_bits_of_ConsD[OF assms]
  by (auto simp: POLAR_BIT_CLEAR_LEAST_def bit_and_iff bit_minus_1_least[of x i])

lemma set_bits_of_CLEAR_LEAST:
  assumes "set_bits_of x = i # js"
  shows "set_bits_of (POLAR_BIT_CLEAR_LEAST x) = js"
proof -
  have "set_bits_of (POLAR_BIT_CLEAR_LEAST x) = filter (\<lambda>n. n \<noteq> i) (set_bits_of x)"
    by (auto simp: set_bits_of_def bit_CLEAR_LEAST[OF assms] intro: filter_cong)
  also have "\<dots> = js"
  proof -
    have "sorted_wrt (<) (i # js)" using sorted_set_bits_of assms by metis
    then have "\<forall>n \<in> set js. n \<noteq> i" by auto
    then show ?thesis by (simp add: assms)
  qed
  finally show ?thesis .
qed

lemma CLEAR_LEAST_less: "x \<noteq> 0 \<Longrightarrow> POLAR_BIT_CLEAR_LEAST x < x"
  unfolding POLAR_BIT_CLEAR_LEAST_def
  by (rule le_less_trans [OF word_and_le1]) (simp add: word_less_nat_alt measure_unat)


section \<open>The scan loop\<close>

text \<open>
  \<open>while (x) { POLAR_BIT_LEAST_POS(x, i); s = f(i, s); POLAR_BIT_CLEAR_LEAST(x); }\<close>
\<close>

function bit_scan :: "(nat \<Rightarrow> 's \<Rightarrow> 's) \<Rightarrow> uint64 \<Rightarrow> 's \<Rightarrow> 's" where
  "bit_scan f x s =
     (if x = 0 then s else bit_scan f (POLAR_BIT_CLEAR_LEAST x) (f (POLAR_BIT_LEAST_POS x) s))"
  by pat_completeness auto
termination
  by (relation "measure (\<lambda>(f, x, s). unat x)") (auto simp: CLEAR_LEAST_less unat_mono)

declare bit_scan.simps [simp del]

lemma bit_scan_0 [simp]: "bit_scan f 0 s = s"
  by (simp add: bit_scan.simps)

theorem bit_scan_eq_fold:
  "bit_scan f x s = fold f (map Suc (set_bits_of x)) s"
proof (induction f x s rule: bit_scan.induct)
  case (1 f x s)
  show ?case
  proof (cases "set_bits_of x")
    case Nil
    then have "x = 0" by simp
    then show ?thesis by (simp add: bit_scan.simps)
  next
    case (Cons i js)
    then have "x \<noteq> 0" by auto
    then show ?thesis
      using "1.IH" Cons
      by (simp add: bit_scan.simps[of f x] LEAST_POS_set_bits set_bits_of_CLEAR_LEAST)
  qed
qed

section \<open>The portable search\<close>

definition least_bit :: "uint64 \<Rightarrow> nat \<Rightarrow> bool" where
  "least_bit v i \<longleftrightarrow> bit v i \<and> (\<forall>n < i. \<not> bit v n)"

lemma least_bit_and_mask:
  assumes "least_bit v i" "k \<le> 64"
  shows "v AND mask k = 0 \<longleftrightarrow> k \<le> i"
proof -
  have "v AND mask k = 0 \<longleftrightarrow> (\<forall>n. \<not> (bit v n \<and> n < k))"
    by (auto simp: word_eq_0_bits bit_and_iff bit_mask_iff dest: bit_uint64_less)
  also have "\<dots> \<longleftrightarrow> k \<le> i"
    using assms(1) by (auto simp: least_bit_def not_le)
  finally show ?thesis .
qed

lemma least_bit_drop:
  assumes "least_bit v i" "k \<le> i"
  shows "least_bit (drop_bit k v) (i - k)"
  using assms by (auto simp: least_bit_def bit_drop_bit_eq)

lemma least_bit_stage:
  assumes "least_bit v i" "i < 2 * k" "k \<le> 64"
  shows "\<exists>j q w. (if v AND mask k = 0 then (p + k, drop_bit k v) else (p, v)) = (q, w)
           \<and> least_bit w j \<and> j < k \<and> q + j = p + i"
proof (cases "k \<le> i")
  case True
  then have "v AND mask k = 0" using least_bit_and_mask assms by blast
  moreover have "least_bit (drop_bit k v) (i - k)" using least_bit_drop assms(1) True .
  ultimately show ?thesis using True assms(2)
    by (intro exI[of _ "i - k"] exI[of _ "p + k"] exI[of _ "drop_bit k v"]) auto
next
  case False
  then have "v AND mask k \<noteq> 0" using least_bit_and_mask assms by blast
  then show ?thesis using False assms(1)
    by (intro exI[of _ i] exI[of _ p] exI[of _ v]) auto
qed

lemma mask_numerals:
  "(0xffffffff :: uint64) = mask 32" "(0xffff :: uint64) = mask 16" "(0xff :: uint64) = mask 8"
  "(0xf :: uint64) = mask 4" "(0x3 :: uint64) = mask 2" "(0x1 :: uint64) = mask 1"
  by (simp_all add: mask_eq_exp_minus_1)

lemma portable_least_bit:
  assumes "least_bit v i"
  shows "POLAR_BIT_LEAST_POS_portable v = i"
proof -
  let ?st = "\<lambda>k p v. if v AND mask k = 0 then (p + k, drop_bit k v) else (p :: nat, v :: uint64)"
  have i: "i < 2 * 32" using assms by (auto simp: least_bit_def dest: bit_uint64_less)
  obtain j1 q1 w1 where 1: "?st 32 0 v = (q1, w1)" "least_bit w1 j1" "j1 < 2 * 16" "q1 + j1 = i"
    using least_bit_stage[OF assms i, of 0] by auto
  obtain j2 q2 w2 where 2: "?st 16 q1 w1 = (q2, w2)" "least_bit w2 j2" "j2 < 2 * 8" "q2 + j2 = i"
    using least_bit_stage[OF 1(2,3), of q1] 1(4) by auto
  obtain j3 q3 w3 where 3: "?st 8 q2 w2 = (q3, w3)" "least_bit w3 j3" "j3 < 2 * 4" "q3 + j3 = i"
    using least_bit_stage[OF 2(2,3), of q2] 2(4) by auto
  obtain j4 q4 w4 where 4: "?st 4 q3 w3 = (q4, w4)" "least_bit w4 j4" "j4 < 2 * 2" "q4 + j4 = i"
    using least_bit_stage[OF 3(2,3), of q3] 3(4) by auto
  obtain j5 q5 w5 where 5: "?st 2 q4 w4 = (q5, w5)" "least_bit w5 j5" "j5 < 2 * 1" "q5 + j5 = i"
    using least_bit_stage[OF 4(2,3), of q4] 4(4) by auto
  obtain j6 q6 w6 where 6: "?st 1 q5 w5 = (q6, w6)" "j6 < 1" "q6 + j6 = i"
    using least_bit_stage[OF 5(2,3), of q5] 5(4) by auto
  have "POLAR_BIT_LEAST_POS_portable v = fst (?st 1 q5 w5)"
    unfolding POLAR_BIT_LEAST_POS_portable_def mask_numerals Let_def
    by (simp only: 1(1) 2(1) 3(1) 4(1) 5(1) prod.case if_distrib[of fst] fst_conv)
  also have "\<dots> = i" using 6 by simp
  finally show ?thesis .
qed

lemma least_bit_set_bits: "set_bits_of x = i # js \<Longrightarrow> least_bit x i"
  by (auto simp: least_bit_def dest: set_bits_of_ConsD)

text \<open>
  C9. The two variants of \<open>POLAR_BIT_LEAST_POS\<close> disagree on every bitmap that is not empty: the one built
  on \<open>__builtin_ffsl\<close> counts positions from 1, as the callers expect, and the portable one from 0.
\<close>

theorem portable_off_by_one:
  "POLAR_BIT_LEAST_POS v = (if v = 0 then 0 else POLAR_BIT_LEAST_POS_portable v + 1)"
proof (cases "set_bits_of v")
  case (Cons i js)
  then have "v \<noteq> 0" by auto
  then show ?thesis
    by (simp add: LEAST_POS_set_bits Cons portable_least_bit[OF least_bit_set_bits[OF Cons]])
qed (simp add: LEAST_POS_set_bits)

end
