(* ===== verification/Polar_Ringbuf.thy ===== *)
theory Polar_Ringbuf
  imports Polar_Bitpos
begin

text \<open>
  The packet ring buffer of \<open>polar_ringbuf.c\<close> and \<open>polar_ringbuf.h\<close>: one writer position, up to 32
  reader references, each with its own read position and visit counter, and packets made of a flag
  byte, a 32 bit length and the payload, which may wrap around the end of the data area.
  This theory holds the state and the operations, and what the copy loops do byte by byte; the
  abstract packet queue they implement is in \<open>Polar_Ring_Queue\<close>.
  Each operation runs under the ring buffer's lock, so it is one atomic step here. Positions are
  natural numbers (they stay below the size of the data area); the visit and reference counters
  and the statistics are 64 bit words that wrap around.
\<close>

section \<open>State\<close>

abbreviation (input) POLAR_RINGBUF_MAX_SLOT :: nat where
  "POLAR_RINGBUF_MAX_SLOT \<equiv> 32"

abbreviation (input) POLAR_RINGBUF_MAX_REF_NAME :: nat where
  "POLAR_RINGBUF_MAX_REF_NAME \<equiv> 63"

abbreviation (input) POLAR_RINGBUF_PKTHDRSIZE :: nat where
  "POLAR_RINGBUF_PKTHDRSIZE \<equiv> 5"

definition POLAR_RINGBUF_PKT_SIZE :: "nat \<Rightarrow> nat" where
  "POLAR_RINGBUF_PKT_SIZE len = len + POLAR_RINGBUF_PKTHDRSIZE"

abbreviation (input) POLAR_RINGBUF_PKT_FREE :: uint8 where "POLAR_RINGBUF_PKT_FREE \<equiv> 0x00"
abbreviation (input) POLAR_RINGBUF_PKT_READY :: uint8 where "POLAR_RINGBUF_PKT_READY \<equiv> 0x01"
abbreviation (input) POLAR_RINGBUF_PKT_STATE_MASK :: uint8 where "POLAR_RINGBUF_PKT_STATE_MASK \<equiv> 0x01"
abbreviation (input) POLAR_RINGBUF_PKT_INVALID_TYPE :: uint8 where "POLAR_RINGBUF_PKT_INVALID_TYPE \<equiv> 0x00"
abbreviation (input) POLAR_RINGBUF_PKT_WAL_META :: uint8 where "POLAR_RINGBUF_PKT_WAL_META \<equiv> 0x10"
abbreviation (input) POLAR_RINGBUF_PKT_WAL_STORAGE_BEGIN :: uint8 where
  "POLAR_RINGBUF_PKT_WAL_STORAGE_BEGIN \<equiv> 0x20"
abbreviation (input) POLAR_RINGBUF_PKT_TYPE_MASK :: uint8 where "POLAR_RINGBUF_PKT_TYPE_MASK \<equiv> 0xF0"

record polar_ringbuf_slot_t =
  strong :: bool
  slot_pread :: nat
  visit :: uint64
  slot_ref_num :: uint64
  slot_ref_name :: string

record polar_ringbuf_stat =
  push_cnt :: uint64
  prev_pop_cnt :: uint64
  free_up_cnt :: uint64
  send_phys_io_cnt :: uint64
  total_written :: uint64
  total_read :: uint64
  evict_ref_cnt :: uint64

record polar_ringbuf_data_t =
  pread :: nat
  pwrite :: nat
  ref_num :: uint64
  occupied :: uint64
  slot :: "nat \<Rightarrow> polar_ringbuf_slot_t"
  min_visit :: uint64
  rb_size :: nat
  prs :: polar_ringbuf_stat
  data :: "uint8 list"

text \<open>A reference; \<open>ref_rbuf\<close> says whether its pointer to the ring buffer is set.\<close>

record polar_ringbuf_ref_t =
  ref_rbuf :: bool
  ref_ref_num :: uint64
  ref_slot :: int
  ref_strong :: bool
  ref_ref_name :: string

definition zero_slot :: polar_ringbuf_slot_t where
  "zero_slot = \<lparr>strong = False, slot_pread = 0, visit = 0, slot_ref_num = 0, slot_ref_name = ''''\<rparr>"

definition zero_stat :: polar_ringbuf_stat where
  "zero_stat = \<lparr>push_cnt = 0, prev_pop_cnt = 0, free_up_cnt = 0, send_phys_io_cnt = 0,
     total_written = 0, total_read = 0, evict_ref_cnt = 0\<rparr>"

section \<open>Copying into and out of the data area\<close>

text \<open>\<open>memcpy(rbuf->data + idx, buf, n)\<close>\<close>

definition mem_write :: "uint8 list \<Rightarrow> nat \<Rightarrow> uint8 list \<Rightarrow> uint8 list" where
  "mem_write d idx bs = take idx d @ bs @ drop (idx + length bs) d"

text \<open>
  The copy that every packet access shares: when the range passes the end of the data area the
  first \<open>split\<close> bytes go to (come from) the end and the rest to (from) the start.
\<close>

definition ring_copy_out :: "polar_ringbuf_data_t \<Rightarrow> nat \<Rightarrow> nat \<Rightarrow> uint8 list" where
  "ring_copy_out rbuf idx todo =
    (let split = (if idx + todo > rb_size rbuf then rb_size rbuf - idx else 0)
     in if split > 0
        then take split (drop idx (data rbuf)) @ take (todo - split) (data rbuf)
        else take todo (drop idx (data rbuf)))"

definition ring_copy_in :: "polar_ringbuf_data_t \<Rightarrow> nat \<Rightarrow> uint8 list \<Rightarrow> polar_ringbuf_data_t" where
  "ring_copy_in rbuf idx buf =
    (let split = (if idx + length buf > rb_size rbuf then rb_size rbuf - idx else 0)
     in if split > 0
        then rbuf\<lparr>data := mem_write (mem_write (data rbuf) idx (take split buf)) 0 (drop split buf)\<rparr>
        else rbuf\<lparr>data := mem_write (data rbuf) idx buf\<rparr>)"

lemma length_mem_write [simp]:
  "idx + length bs \<le> length d \<Longrightarrow> length (mem_write d idx bs) = length d"
  by (simp add: mem_write_def)

lemma nth_mem_write:
  "idx + length bs \<le> length d \<Longrightarrow> i < length d \<Longrightarrow>
     mem_write d idx bs ! i = (if idx \<le> i \<and> i < idx + length bs then bs ! (i - idx) else d ! i)"
  by (auto simp: mem_write_def nth_append not_less)

lemma ring_copy_out_nth:
  assumes "idx < rb_size rbuf" "n \<le> rb_size rbuf" "length (data rbuf) = rb_size rbuf"
  shows "ring_copy_out rbuf idx n = map (\<lambda>i. data rbuf ! ((idx + i) mod rb_size rbuf)) [0..<n]"
proof (rule nth_equalityI)
  show "length (ring_copy_out rbuf idx n)
      = length (map (\<lambda>i. data rbuf ! ((idx + i) mod rb_size rbuf)) [0..<n])"
    using assms by (auto simp: ring_copy_out_def Let_def)
  fix i assume "i < length (ring_copy_out rbuf idx n)"
  then have i: "i < n" using assms by (auto simp: ring_copy_out_def Let_def split: if_splits)
  have wrap: "(idx + i) mod rb_size rbuf = idx + i - rb_size rbuf" if "rb_size rbuf \<le> idx + i"
    using that i assms by (simp add: mod_if)
  show "ring_copy_out rbuf idx n ! i = map (\<lambda>i. data rbuf ! ((idx + i) mod rb_size rbuf)) [0..<n] ! i"
    using i assms wrap by (auto simp: ring_copy_out_def Let_def nth_append ac_simps)
qed

lemma ring_copy_in_frame [simp]:
  "pread (ring_copy_in rbuf idx buf) = pread rbuf"
  "pwrite (ring_copy_in rbuf idx buf) = pwrite rbuf"
  "ref_num (ring_copy_in rbuf idx buf) = ref_num rbuf"
  "occupied (ring_copy_in rbuf idx buf) = occupied rbuf"
  "slot (ring_copy_in rbuf idx buf) = slot rbuf"
  "min_visit (ring_copy_in rbuf idx buf) = min_visit rbuf"
  "rb_size (ring_copy_in rbuf idx buf) = rb_size rbuf"
  "prs (ring_copy_in rbuf idx buf) = prs rbuf"
  by (simp_all add: ring_copy_in_def Let_def)

lemma length_ring_copy_in:
  assumes "idx < rb_size rbuf" "length buf \<le> rb_size rbuf" "length (data rbuf) = rb_size rbuf"
  shows "length (data (ring_copy_in rbuf idx buf)) = rb_size rbuf"
  using assms by (auto simp: ring_copy_in_def Let_def)

text \<open>Byte \<open>j\<close> of the buffer lands at offset \<open>idx + j\<close> around the ring; no other byte changes.\<close>

lemma ring_copy_in_nth:
  assumes "idx < rb_size rbuf" "length buf \<le> rb_size rbuf" "length (data rbuf) = rb_size rbuf"
    and "j < rb_size rbuf"
  shows "data (ring_copy_in rbuf idx buf) ! ((idx + j) mod rb_size rbuf)
    = (if j < length buf then buf ! j else data rbuf ! ((idx + j) mod rb_size rbuf))"
proof (cases "idx + j < rb_size rbuf")
  case True
  then show ?thesis
    using assms by (auto simp: ring_copy_in_def Let_def nth_mem_write)
next
  case False
  then have "(idx + j) mod rb_size rbuf = idx + j - rb_size rbuf"
    using assms by (simp add: mod_if)
  then show ?thesis
    using False assms by (auto simp: ring_copy_in_def Let_def nth_mem_write)
qed

section \<open>Packets\<close>

text \<open>The length of the packet that starts at \<open>idx\<close>; it is stored in the 4 bytes after the flag.\<close>

definition polar_ringbuf_pkt_len :: "polar_ringbuf_data_t \<Rightarrow> nat \<Rightarrow> uint32" where
  "polar_ringbuf_pkt_len rbuf idx = le_word (ring_copy_out rbuf ((idx + 1) mod rb_size rbuf) 4)"

definition polar_ringbuf_set_pkt_length ::
    "polar_ringbuf_data_t \<Rightarrow> nat \<Rightarrow> uint32 \<Rightarrow> polar_ringbuf_data_t" where
  "polar_ringbuf_set_pkt_length rbuf idx len =
     ring_copy_in rbuf ((idx + 1) mod rb_size rbuf) (le_bytes 4 len)"

definition polar_ringbuf_set_pkt_flag ::
    "polar_ringbuf_data_t \<Rightarrow> nat \<Rightarrow> uint8 \<Rightarrow> polar_ringbuf_data_t" where
  "polar_ringbuf_set_pkt_flag rbuf idx flag = rbuf\<lparr>data := (data rbuf)[idx := flag]\<rparr>"

text \<open>
  \<open>ssize_t\<close> arithmetic: the difference of the positions may be negative, and equal positions mean
  an empty buffer. One byte is kept free, so that a full buffer differs from an empty one.
\<close>

definition polar_ringbuf_free_size :: "polar_ringbuf_data_t \<Rightarrow> int" where
  "polar_ringbuf_free_size rbuf =
    (let free_bytes = int (pread rbuf) - int (pwrite rbuf);
         free_bytes = (if free_bytes \<le> 0 then free_bytes + int (rb_size rbuf) else free_bytes)
     in free_bytes - 1)"

definition ref_slot_of :: "polar_ringbuf_data_t \<Rightarrow> polar_ringbuf_ref_t \<Rightarrow> polar_ringbuf_slot_t" where
  "ref_slot_of rbuf ref = slot rbuf (nat (ref_slot ref))"

definition polar_ringbuf_avail :: "polar_ringbuf_data_t \<Rightarrow> polar_ringbuf_ref_t \<Rightarrow> int" where
  "polar_ringbuf_avail rbuf ref =
    (let avail = int (pwrite rbuf) - int (slot_pread (ref_slot_of rbuf ref))
     in if avail < 0 then avail + int (rb_size rbuf) else avail)"

text \<open>Reserve \<open>len\<close> bytes for a packet, header included; returns where the packet starts.\<close>

definition polar_ringbuf_pkt_reserve ::
    "polar_ringbuf_data_t \<Rightarrow> nat \<Rightarrow> nat \<times> polar_ringbuf_data_t" where
  "polar_ringbuf_pkt_reserve rbuf len =
    (let idx = pwrite rbuf;
         rbuf = rbuf\<lparr>data := (data rbuf)[idx := POLAR_RINGBUF_PKT_FREE]\<rparr>;
         rbuf = rbuf\<lparr>pwrite := (idx + len) mod rb_size rbuf\<rparr>;
         rbuf = rbuf\<lparr>prs := (prs rbuf)\<lparr>push_cnt := push_cnt (prs rbuf) + 1,
                                      total_written := total_written (prs rbuf) + of_nat len\<rparr>\<rparr>
     in (idx, rbuf))"

text \<open>The type of the reference's next packet and its length, or the invalid type.\<close>

definition polar_ringbuf_next_ready_pkt ::
    "polar_ringbuf_data_t \<Rightarrow> polar_ringbuf_ref_t \<Rightarrow> uint8 \<times> uint32" where
  "polar_ringbuf_next_ready_pkt rbuf ref =
    (let idx = slot_pread (ref_slot_of rbuf ref)
     in if data rbuf ! idx AND POLAR_RINGBUF_PKT_STATE_MASK \<noteq> POLAR_RINGBUF_PKT_READY
        then (POLAR_RINGBUF_PKT_INVALID_TYPE, 0)
        else (data rbuf ! idx AND POLAR_RINGBUF_PKT_TYPE_MASK, polar_ringbuf_pkt_len rbuf idx))"

text \<open>
  Read at most \<open>len\<close> bytes of the next packet from \<open>offset\<close> on. The result is the bytes copied, whose
  number is the C function's return value, or \<open>None\<close> for its return value -1.
\<close>

definition polar_ringbuf_read_next_pkt ::
    "polar_ringbuf_data_t \<Rightarrow> polar_ringbuf_ref_t \<Rightarrow> nat \<Rightarrow> nat \<Rightarrow> uint8 list option" where
  "polar_ringbuf_read_next_pkt rbuf ref offset len =
    (let idx = slot_pread (ref_slot_of rbuf ref);
         pktlen = unat (polar_ringbuf_pkt_len rbuf idx)
     in if offset \<ge> pktlen then None
        else let len = (if offset + len > pktlen then pktlen - offset else len);
                 idx = (idx + POLAR_RINGBUF_PKTHDRSIZE + offset) mod rb_size rbuf
             in Some (ring_copy_out rbuf idx len))"

text \<open>Write \<open>buf\<close> into the packet that starts at \<open>idx\<close>, from \<open>offset\<close> on; \<open>None\<close> for the value -1.\<close>

definition polar_ringbuf_pkt_write ::
    "polar_ringbuf_data_t \<Rightarrow> nat \<Rightarrow> nat \<Rightarrow> uint8 list \<Rightarrow> polar_ringbuf_data_t option" where
  "polar_ringbuf_pkt_write rbuf idx offset buf =
    (let pktlen = unat (polar_ringbuf_pkt_len rbuf idx)
     in if offset \<ge> pktlen \<or> offset + length buf > pktlen then None
        else let idx = (idx + POLAR_RINGBUF_PKTHDRSIZE + offset) mod rb_size rbuf
             in Some (ring_copy_in rbuf idx buf))"

section \<open>References\<close>

definition RINGBUF_REF_MATCH :: "polar_ringbuf_data_t \<Rightarrow> polar_ringbuf_ref_t \<Rightarrow> bool" where
  "RINGBUF_REF_MATCH rbuf ref \<longleftrightarrow>
     ref_slot ref \<ge> 0 \<and> ref_slot ref < int POLAR_RINGBUF_MAX_SLOT \<and>
     slot_ref_num (ref_slot_of rbuf ref) = ref_ref_num ref"

text \<open>
  \<open>polar_ringbuf_init\<close> works on memory the caller has allocated (\<open>mem\<close>); it does not touch the
  reference and visit counters nor the data bytes. \<open>data_off\<close> is the offset of the data area in the
  struct.
\<close>

definition polar_ringbuf_init :: "polar_ringbuf_data_t \<Rightarrow> nat \<Rightarrow> nat \<Rightarrow> polar_ringbuf_data_t" where
  "polar_ringbuf_init mem len data_off =
     mem\<lparr>pread := 0, pwrite := 0, prs := zero_stat, slot := (\<lambda>_. zero_slot),
         rb_size := len - data_off, occupied := 0\<rparr>"

definition polar_ringbuf_new_ref ::
    "polar_ringbuf_data_t \<Rightarrow> bool \<Rightarrow> polar_ringbuf_ref_t \<Rightarrow> string option
      \<Rightarrow> bool \<times> polar_ringbuf_data_t \<times> polar_ringbuf_ref_t" where
  "polar_ringbuf_new_ref rbuf strg ref name =
    (let unoccupied = NOT (occupied rbuf);
         i = POLAR_BIT_LEAST_POS unoccupied
     in if i > 0 \<and> i \<le> POLAR_RINGBUF_MAX_SLOT
        then let rbuf = rbuf\<lparr>occupied := POLAR_BIT_OCCUPY (occupied rbuf) i\<rparr>;
                 i = i - 1;
                 rbuf = rbuf\<lparr>ref_num := ref_num rbuf + 1\<rparr>;
                 sl = \<lparr>strong = strg, slot_pread = pread rbuf, visit = min_visit rbuf,
                       slot_ref_num = ref_num rbuf,
                       slot_ref_name = (case name of None \<Rightarrow> ''''
                          | Some nm \<Rightarrow> take POLAR_RINGBUF_MAX_REF_NAME nm)\<rparr>;
                 rbuf = rbuf\<lparr>slot := (slot rbuf)(i := sl)\<rparr>;
                 ref = ref\<lparr>ref_rbuf := True, ref_ref_num := slot_ref_num sl, ref_slot := int i,
                           ref_strong := strg, ref_ref_name := slot_ref_name sl\<rparr>
             in (True, rbuf, ref)
        else (False, rbuf, ref))"

text \<open>
  The least visited reference among the occupied slots that qualify: both loops start from
  \<open>UINT64_MAX\<close> and slot \<open>POLAR_RINGBUF_MAX_SLOT\<close>, which stay when no slot qualifies.
\<close>

definition min_visit_step ::
    "(nat \<Rightarrow> polar_ringbuf_slot_t) \<Rightarrow> (polar_ringbuf_slot_t \<Rightarrow> bool) \<Rightarrow> nat
      \<Rightarrow> uint64 \<times> nat \<Rightarrow> uint64 \<times> nat" where
  "min_visit_step sl ok pos = (\<lambda>(mv, ms).
     if ok (sl (pos - 1)) \<and> mv > visit (sl (pos - 1)) then (visit (sl (pos - 1)), pos - 1) else (mv, ms))"

definition polar_ringbuf_update_pread :: "polar_ringbuf_data_t \<Rightarrow> bool \<times> polar_ringbuf_data_t" where
  "polar_ringbuf_update_pread rbuf =
    (let (mv, ms) = bit_scan (min_visit_step (slot rbuf) (\<lambda>_. True)) (occupied rbuf)
                      (UINT64_MAX, POLAR_RINGBUF_MAX_SLOT)
     in if ms \<noteq> POLAR_RINGBUF_MAX_SLOT \<and> min_visit rbuf \<noteq> mv
        then let pre_pread = pread rbuf;
                 sp = slot_pread (slot rbuf ms);
                 rbuf = rbuf\<lparr>min_visit := mv, pread := sp\<rparr>;
                 delta = (if sp \<le> pre_pread then rb_size rbuf - (pre_pread - sp) else sp - pre_pread)
             in (True, rbuf\<lparr>prs := (prs rbuf)\<lparr>total_read := total_read (prs rbuf) + of_nat delta\<rparr>\<rparr>)
        else (False, rbuf))"

definition polar_ringbuf_release_ref ::
    "polar_ringbuf_data_t \<Rightarrow> polar_ringbuf_ref_t \<Rightarrow> polar_ringbuf_data_t \<times> polar_ringbuf_ref_t" where
  "polar_ringbuf_release_ref rbuf ref =
    (if \<not> ref_rbuf ref then (rbuf, ref)
     else let rbuf = (if RINGBUF_REF_MATCH rbuf ref
            then let i = nat (ref_slot ref);
                     rbuf = rbuf\<lparr>occupied := POLAR_BIT_RELEASE_OCCUPIED (occupied rbuf) (i + 1)\<rparr>;
                     rbuf = rbuf\<lparr>slot := (slot rbuf)(i := zero_slot)\<rparr>
                 in snd (polar_ringbuf_update_pread rbuf)
            else rbuf)
          in (rbuf, ref\<lparr>ref_rbuf := False\<rparr>))"

definition set_strong :: "polar_ringbuf_data_t \<Rightarrow> nat \<Rightarrow> bool \<Rightarrow> polar_ringbuf_data_t" where
  "set_strong rbuf i b = rbuf\<lparr>slot := (slot rbuf)(i := (slot rbuf i)\<lparr>strong := b\<rparr>)\<rparr>"

definition polar_ringbuf_get_ref ::
    "polar_ringbuf_data_t \<Rightarrow> polar_ringbuf_ref_t \<Rightarrow> bool \<times> polar_ringbuf_data_t" where
  "polar_ringbuf_get_ref rbuf ref =
    (if RINGBUF_REF_MATCH rbuf ref then (True, set_strong rbuf (nat (ref_slot ref)) True)
     else (False, rbuf))"

text \<open>\<open>None\<close> is the null pointer.\<close>

definition polar_ringbuf_valid_ref :: "polar_ringbuf_data_t \<Rightarrow> polar_ringbuf_ref_t option \<Rightarrow> bool" where
  "polar_ringbuf_valid_ref rbuf ref =
    (case ref of None \<Rightarrow> False | Some r \<Rightarrow> if \<not> ref_rbuf r then False else RINGBUF_REF_MATCH rbuf r)"

definition polar_ringbuf_clear_ref ::
    "polar_ringbuf_data_t \<Rightarrow> polar_ringbuf_ref_t \<Rightarrow> bool \<times> polar_ringbuf_data_t" where
  "polar_ringbuf_clear_ref rbuf ref =
    (if RINGBUF_REF_MATCH rbuf ref then (True, set_strong rbuf (nat (ref_slot ref)) False)
     else (False, rbuf))"

text \<open>Move the reference past its next packet.\<close>

definition polar_ringbuf_update_ref ::
    "polar_ringbuf_data_t \<Rightarrow> polar_ringbuf_ref_t \<Rightarrow> polar_ringbuf_data_t" where
  "polar_ringbuf_update_ref rbuf ref =
    (let i = nat (ref_slot ref);
         idx = slot_pread (slot rbuf i);
         pktlen = unat (polar_ringbuf_pkt_len rbuf idx)
     in rbuf\<lparr>slot := (slot rbuf)(i := (slot rbuf i)
          \<lparr>slot_pread := (idx + POLAR_RINGBUF_PKTHDRSIZE + pktlen) mod rb_size rbuf,
           visit := visit (slot rbuf i) + 1\<rparr>)\<rparr>)"

text \<open>Evict the least visited weak reference, if it holds the least read position.\<close>

definition polar_ringbuf_evict_ref :: "polar_ringbuf_data_t \<Rightarrow> bool \<times> polar_ringbuf_data_t" where
  "polar_ringbuf_evict_ref rbuf =
    (let (mv, ms) = bit_scan (min_visit_step (slot rbuf) (\<lambda>sl. \<not> strong sl)) (occupied rbuf)
                      (UINT64_MAX, POLAR_RINGBUF_MAX_SLOT)
     in if ms \<noteq> POLAR_RINGBUF_MAX_SLOT \<and> pread rbuf = slot_pread (slot rbuf ms)
        then let rbuf = rbuf\<lparr>occupied := POLAR_BIT_RELEASE_OCCUPIED (occupied rbuf) (ms + 1)\<rparr>;
                 rbuf = rbuf\<lparr>slot := (slot rbuf)(ms := zero_slot)\<rparr>
             in (True, rbuf\<lparr>prs := (prs rbuf)\<lparr>evict_ref_cnt := evict_ref_cnt (prs rbuf) + 1\<rparr>\<rparr>)
        else (False, rbuf))"

definition polar_ringbuf_update_keep_data :: "polar_ringbuf_data_t \<Rightarrow> polar_ringbuf_data_t" where
  "polar_ringbuf_update_keep_data rbuf = snd (polar_ringbuf_update_pread rbuf)"

section \<open>Making room\<close>

text \<open>
  The loop of \<open>polar_ringbuf_free_up\<close>. Where the code releases the lock and sleeps, the callback and
  the other processes may change the ring buffer: \<open>wait\<close> is that change. The loop may never end, so
  it is a partial function: \<open>None\<close> is not returning.
\<close>

partial_function (option) free_up_loop ::
    "(polar_ringbuf_data_t \<Rightarrow> polar_ringbuf_data_t) \<Rightarrow> polar_ringbuf_data_t \<Rightarrow> nat
      \<Rightarrow> polar_ringbuf_data_t option" where
  "free_up_loop wait rbuf len =
    (if polar_ringbuf_free_size rbuf > int len then Some rbuf
     else let (updated, rbuf) = polar_ringbuf_update_pread rbuf
          in if updated then free_up_loop wait rbuf len
             else let (evicted, rbuf) = polar_ringbuf_evict_ref rbuf
                  in if evicted then free_up_loop wait rbuf len
                     else free_up_loop wait (wait rbuf) len)"

definition polar_ringbuf_free_up ::
    "(polar_ringbuf_data_t \<Rightarrow> polar_ringbuf_data_t) \<Rightarrow> polar_ringbuf_data_t \<Rightarrow> nat
      \<Rightarrow> polar_ringbuf_data_t option" where
  "polar_ringbuf_free_up wait rbuf len =
     free_up_loop wait (rbuf\<lparr>prs := (prs rbuf)\<lparr>free_up_cnt := free_up_cnt (prs rbuf) + 1\<rparr>\<rparr>) len"

text \<open>
  \<open>polar_ringbuf_ref_keep_data\<close>: the floating point product of the size and the ratio is the argument
  \<open>keep_size\<close>; the flag says whether the loop has run its body.
\<close>

partial_function (option) ref_keep_data_loop ::
    "polar_ringbuf_data_t \<Rightarrow> polar_ringbuf_ref_t \<Rightarrow> int \<Rightarrow> bool
      \<Rightarrow> (polar_ringbuf_data_t \<times> bool) option" where
  "ref_keep_data_loop rbuf ref keep_size updated =
    (if polar_ringbuf_avail rbuf ref > keep_size
     then ref_keep_data_loop (polar_ringbuf_update_ref rbuf ref) ref keep_size True
     else Some (rbuf, updated))"

definition polar_ringbuf_ref_keep_data ::
    "polar_ringbuf_data_t \<Rightarrow> polar_ringbuf_ref_t \<Rightarrow> int \<Rightarrow> polar_ringbuf_data_t option" where
  "polar_ringbuf_ref_keep_data rbuf ref keep_size =
    (case ref_keep_data_loop rbuf ref keep_size False of
       None \<Rightarrow> None
     | Some (rbuf, updated) \<Rightarrow>
         Some (if updated then polar_ringbuf_update_keep_data rbuf else rbuf))"

text \<open>\<open>polar_ringbuf_reset\<close> spins until no slot is occupied; \<open>None\<close> is a turn that must spin again.\<close>

definition polar_ringbuf_reset :: "polar_ringbuf_data_t \<Rightarrow> polar_ringbuf_data_t option" where
  "polar_ringbuf_reset rbuf =
    (if occupied rbuf \<noteq> 0 then None else Some (rbuf\<lparr>pread := 0, pwrite := 0\<rparr>))"

definition polar_prs_stat_reset :: "polar_ringbuf_data_t \<Rightarrow> polar_ringbuf_data_t" where
  "polar_prs_stat_reset queue =
     queue\<lparr>prs := (prs queue)\<lparr>push_cnt := 0, prev_pop_cnt := min_visit queue, free_up_cnt := 0,
       send_phys_io_cnt := 0, total_written := 0, total_read := 0, evict_ref_cnt := 0\<rparr>\<rparr>"

end
