(* ===== verification/Polar_Ring_Queue.thy ===== *)
theory Polar_Ring_Queue
  imports Polar_Ringbuf
begin

text \<open>
  What the ring buffer promises: it is a log of packets with one cursor per reference.
  The abstraction turns the circular data area into a flat list that starts at the least read
  position, splits that list into encoded packets, and counts packets from the creation of the
  buffer, so that \<open>min_visit\<close> is the number of packets already recycled and a slot's \<open>visit\<close> is the
  number of the packet its reference reads next. Each operation of \<open>polar_ringbuf.c\<close> is shown to
  keep this representation and to act on the log as its contract says; the locale \<open>packet_log\<close>
  states the part of the contract a client relies on.
\<close>

section \<open>The flat view of the data area\<close>

definition lview :: "polar_ringbuf_data_t \<Rightarrow> uint8 list" where
  "lview rbuf = rotate (pread rbuf) (data rbuf)"

definition phys :: "polar_ringbuf_data_t \<Rightarrow> nat \<Rightarrow> nat" where
  "phys rbuf x = (pread rbuf + x) mod rb_size rbuf"

text \<open>The data area has the recorded size and the least read position lies in it.\<close>

definition rb_shape :: "polar_ringbuf_data_t \<Rightarrow> bool" where
  "rb_shape rbuf \<longleftrightarrow> pread rbuf < rb_size rbuf \<and> length (data rbuf) = rb_size rbuf"

lemma length_lview [simp]: "length (lview rbuf) = length (data rbuf)"
  by (simp add: lview_def)

lemma lview_nth: "rb_shape rbuf \<Longrightarrow> x < rb_size rbuf \<Longrightarrow> lview rbuf ! x = data rbuf ! phys rbuf x"
  by (simp add: lview_def phys_def rb_shape_def nth_rotate)

lemma phys_less: "rb_shape rbuf \<Longrightarrow> phys rbuf x < rb_size rbuf"
  by (auto simp: phys_def rb_shape_def)

lemma phys_cases:
  "rb_shape rbuf \<Longrightarrow> x < rb_size rbuf \<Longrightarrow>
     phys rbuf x = (if pread rbuf + x < rb_size rbuf then pread rbuf + x else pread rbuf + x - rb_size rbuf)"
  by (auto simp: phys_def rb_shape_def mod_if)

lemma phys_add [ring_simps]: "(phys rbuf x + n) mod rb_size rbuf = phys rbuf (x + n)"
  by (simp add: phys_def mod_simps ac_simps)

lemma phys_add_Suc [ring_simps]: "Suc (phys rbuf x) mod rb_size rbuf = phys rbuf (Suc x)"
  using phys_add[of rbuf x 1] by simp

lemma ring_copy_out_lview:
  assumes "rb_shape rbuf" "x + n \<le> rb_size rbuf"
  shows "ring_copy_out rbuf (phys rbuf x) n = take n (drop x (lview rbuf))"
proof -
  have "ring_copy_out rbuf (phys rbuf x) n
      = map (\<lambda>i. data rbuf ! ((phys rbuf x + i) mod rb_size rbuf)) [0..<n]"
    using assms by (intro ring_copy_out_nth phys_less) (auto simp: rb_shape_def)
  also have "\<dots> = take n (drop x (lview rbuf))"
    using assms by (intro nth_equalityI) (auto simp: rb_shape_def lview_nth ring_simps)
  finally show ?thesis .
qed

lemma ring_copy_in_lview:
  assumes "rb_shape rbuf" "x + length buf \<le> rb_size rbuf"
  shows "lview (ring_copy_in rbuf (phys rbuf x) buf) = mem_write (lview rbuf) x buf"
    and "rb_shape (ring_copy_in rbuf (phys rbuf x) buf)"
proof -
  let ?rb' = "ring_copy_in rbuf (phys rbuf x) buf"
  have len: "length (data rbuf) = rb_size rbuf" using assms by (simp add: rb_shape_def)
  then show shape: "rb_shape ?rb'"
    using assms phys_less[OF assms(1)] by (simp add: rb_shape_def length_ring_copy_in)
  show "lview ?rb' = mem_write (lview rbuf) x buf"
  proof (rule nth_equalityI)
    fix y assume "y < length (lview ?rb')"
    then have y: "y < rb_size rbuf" using shape by (simp add: rb_shape_def)
    define j where "j = (if x \<le> y then y - x else y + rb_size rbuf - x)"
    have j: "j < rb_size rbuf" "j < length buf \<longleftrightarrow> x \<le> y \<and> y < x + length buf" "x \<le> y \<Longrightarrow> j = y - x"
      using y assms(2) by (auto simp: j_def)
    have "phys rbuf y = (phys rbuf x + j) mod rb_size rbuf"
      using y assms by (auto simp: phys_add) (auto simp: phys_def j_def simp flip: add.assoc)
    moreover have "phys ?rb' y = phys rbuf y" by (simp add: phys_def)
    ultimately have "lview ?rb' ! y = data ?rb' ! ((phys rbuf x + j) mod rb_size rbuf)"
      using lview_nth[OF shape] y by simp
    also have "\<dots> = (if j < length buf then buf ! j else data rbuf ! phys rbuf y)"
      using ring_copy_in_nth[of "phys rbuf x" rbuf buf j] phys_less[OF assms(1)] assms len j
        \<open>phys rbuf y = _\<close> by simp
    finally show "lview ?rb' ! y = mem_write (lview rbuf) x buf ! y"
      using y j assms len by (simp add: nth_mem_write lview_nth)
  qed (use assms shape len in \<open>simp add: rb_shape_def\<close>)
qed

text \<open>A single byte, as \<open>rbuf->data[idx] = flag\<close> writes it.\<close>

lemma list_update_lview:
  assumes "rb_shape rbuf" "x < rb_size rbuf"
  shows "lview (rbuf\<lparr>data := (data rbuf)[phys rbuf x := b]\<rparr>) = (lview rbuf)[x := b]"
proof -
  have *: "phys rbuf y = phys rbuf x \<longleftrightarrow> y = x" if "y < rb_size rbuf" for y
    using that assms mod_offset_inj[of y "rb_size rbuf" x "pread rbuf"] by (auto simp: phys_def)
  let ?rb' = "rbuf\<lparr>data := (data rbuf)[phys rbuf x := b]\<rparr>"
  have shape: "rb_shape ?rb'" using assms by (simp add: rb_shape_def)
  show ?thesis
  proof (rule nth_equalityI)
    fix y assume "y < length (lview ?rb')"
    then have y: "y < rb_size rbuf" using assms by (simp add: rb_shape_def)
    have "lview ?rb' ! y = (data rbuf)[phys rbuf x := b] ! phys rbuf y"
      using lview_nth[OF shape] y by (simp add: phys_def)
    then show "lview ?rb' ! y = (lview rbuf)[x := b] ! y"
      using y assms *[OF y] phys_less[OF assms(1)]
      by (auto simp: lview_nth nth_list_update rb_shape_def)
  qed (use assms in \<open>simp add: rb_shape_def\<close>)
qed

text \<open>Moving the least read position forward by \<open>d\<close> bytes rotates the view.\<close>

lemma lview_pread:
  assumes "rb_shape rbuf" "d \<le> rb_size rbuf" "lview rbuf = xs @ ys" "length xs = d"
    "data rb' = data rbuf" "pread rb' = phys rbuf d"
  shows "lview rb' = ys @ xs"
proof -
  have "lview rb' = rotate ((pread rbuf + d) mod length (data rbuf)) (data rbuf)"
    using assms by (simp add: lview_def phys_def rb_shape_def)
  also have "\<dots> = rotate d (lview rbuf)"
    by (simp add: lview_def rotate_rotate add.commute flip: rotate_conv_mod)
  also have "\<dots> = ys @ xs"
    using assms(3) by (simp add: rotate_append flip: assms(4))
  finally show ?thesis .
qed

section \<open>Packets and their encoding\<close>

text \<open>
  A packet is first reserved (nothing but the cleared flag is known of its bytes), then its length is
  set and its payload filled in, and at last its flag is set and it can be read.
\<close>

datatype pkt = Reserved "uint8 list" | Filling "uint8 list" | Ready uint8 "uint8 list"

definition pkt_header :: "uint8 list \<Rightarrow> uint8 list" where
  "pkt_header p = le_bytes 4 (of_nat (length p) :: uint32)"

fun enc :: "pkt \<Rightarrow> uint8 list" where
  "enc (Reserved raw) = POLAR_RINGBUF_PKT_FREE # raw"
| "enc (Filling p) = POLAR_RINGBUF_PKT_FREE # pkt_header p @ p"
| "enc (Ready t p) = t # pkt_header p @ p"

fun wf_pkt :: "pkt \<Rightarrow> bool" where
  "wf_pkt (Reserved raw) \<longleftrightarrow> 4 \<le> length raw"
| "wf_pkt (Filling p) \<longleftrightarrow> length p < 2 ^ 32"
| "wf_pkt (Ready t p) \<longleftrightarrow> length p < 2 ^ 32 \<and> t AND POLAR_RINGBUF_PKT_STATE_MASK = POLAR_RINGBUF_PKT_READY"

abbreviation enc_all :: "pkt list \<Rightarrow> uint8 list" where
  "enc_all ps \<equiv> concat (map enc ps)"

text \<open>Where packet \<open>k\<close> of a sequence starts.\<close>

abbreviation off :: "pkt list \<Rightarrow> nat \<Rightarrow> nat" where
  "off ps k \<equiv> length (enc_all (take k ps))"

lemma length_pkt_header [simp]: "length (pkt_header p) = 4"
  by (simp add: pkt_header_def)

lemma le_word_pkt_header [simp]: "le_word (pkt_header p) = (of_nat (length p) :: uint32)"
  by (simp add: pkt_header_def)

lemma enc_pos: "0 < length (enc p)"
  by (cases p) auto

lemma enc_ge_5: "wf_pkt p \<Longrightarrow> 5 \<le> length (enc p)"
  by (cases p) auto

lemma enc_all_split:
  assumes "k < length ps"
  shows "enc_all ps = enc_all (take k ps) @ enc (ps ! k) @ enc_all (drop (Suc k) ps)"
  by (subst id_take_nth_drop[OF assms]) simp

lemma off_Suc: "k < length ps \<Longrightarrow> off ps (Suc k) = off ps k + length (enc (ps ! k))"
  by (simp add: take_Suc_conv_app_nth)

lemma off_mono: "j \<le> k \<Longrightarrow> off ps j \<le> off ps k"
  using take_add[of j "k - j" ps] by simp

lemma off_le: "off ps k \<le> length (enc_all ps)"
  using arg_cong[OF append_take_drop_id[of k ps], of enc_all] by (metis concat_append le_add1 length_append map_append)

lemma off_less: "k < length ps \<Longrightarrow> off ps k < length (enc_all ps)"
  using off_Suc[of k ps] off_le[of "Suc k" ps] enc_pos[of "ps ! k"] by linarith

lemma off_inj: "j \<le> length ps \<Longrightarrow> k \<le> length ps \<Longrightarrow> off ps j = off ps k \<Longrightarrow> j = k"
proof (rule ccontr)
  have *: "off ps j < off ps k" if "j < k" "k \<le> length ps" for j k
    using that off_Suc[of j ps] off_mono[of "Suc j" k ps] enc_pos[of "ps ! j"] by linarith
  assume "j \<le> length ps" "k \<le> length ps" "off ps j = off ps k" "j \<noteq> k"
  then show False using *[of j k] *[of k j] by (cases j k rule: linorder_cases) auto
qed

lemma off_update:
  assumes "k < length ps" "length (enc q) = length (enc (ps ! k))"
  shows "off (ps[k := q]) m = off ps m"
proof -
  have "map (length \<circ> enc) (ps[k := q]) = map (length \<circ> enc) ps"
    using assms by (simp add: map_update list_update_same_conv)
  then show ?thesis by (simp add: length_concat flip: take_map)
qed

text \<open>Writing inside one packet of the sequence changes only that packet.\<close>

lemma mem_write_pkt:
  assumes "k < length ps" "j + length buf \<le> length (enc (ps ! k))"
    and q: "enc q = mem_write (enc (ps ! k)) j buf"
  shows "mem_write (enc_all ps @ rest) (off ps k + j) buf = enc_all (ps[k := q]) @ rest"
proof -
  have "mem_write (xs @ ys @ zs) (length xs + j) buf = xs @ mem_write ys j buf @ zs"
    if "j + length buf \<le> length ys" for xs ys zs :: "uint8 list"
    using that by (simp add: mem_write_def)
  from this[OF assms(2), of "enc_all (take k ps)" "enc_all (drop (Suc k) ps) @ rest"]
  show ?thesis
    using assms(1) by (simp add: enc_all_split[OF assms(1)] enc_all_split[of k "ps[k := q]"] q)
qed

lemma mem_write_shift:
  "mem_write (xs @ ys) (length xs + j) buf = xs @ mem_write ys j buf"
  by (simp add: mem_write_def)

lemma list_update_mem_write: "x < length d \<Longrightarrow> d[x := b] = mem_write d x [b]"
  by (simp add: mem_write_def upd_conv_take_nth_drop)

section \<open>The representation\<close>

text \<open>
  \<open>hist\<close> lists every packet ever reserved. The buffer holds those from number \<open>min_visit\<close> on, one
  after the other, followed by at least one free byte. Each occupied slot stands at the start of
  the packet its visit counter names; a free slot is cleared. Reference numbers are positive, at
  most the last one given out, and distinct.
\<close>

definition live :: "polar_ringbuf_data_t \<Rightarrow> pkt list \<Rightarrow> pkt list" where
  "live rbuf hist = drop (unat (min_visit rbuf)) hist"

definition content_rep :: "polar_ringbuf_data_t \<Rightarrow> pkt list \<Rightarrow> bool" where
  "content_rep rbuf hist \<longleftrightarrow> rb_shape rbuf \<and>
     unat (min_visit rbuf) \<le> length hist \<and> length hist < 2 ^ 64 - 1 \<and>
     (\<forall>p \<in> set (live rbuf hist). wf_pkt p) \<and>
     (\<exists>rest. rest \<noteq> [] \<and> lview rbuf = enc_all (live rbuf hist) @ rest) \<and>
     pwrite rbuf = phys rbuf (length (enc_all (live rbuf hist)))"

definition slot_rep :: "polar_ringbuf_data_t \<Rightarrow> pkt list \<Rightarrow> nat \<Rightarrow> bool" where
  "slot_rep rbuf hist i \<longleftrightarrow>
    (let sl = slot rbuf i; b = unat (min_visit rbuf); c = unat (visit sl) in
     if bit (occupied rbuf) i
     then i < POLAR_RINGBUF_MAX_SLOT \<and> b \<le> c \<and> c \<le> length hist \<and>
          slot_pread sl = phys rbuf (off (live rbuf hist) (c - b)) \<and>
          0 < slot_ref_num sl \<and> slot_ref_num sl \<le> ref_num rbuf
     else sl = zero_slot)"

definition refs_distinct :: "polar_ringbuf_data_t \<Rightarrow> bool" where
  "refs_distinct rbuf \<longleftrightarrow>
    (\<forall>i j. bit (occupied rbuf) i \<longrightarrow> bit (occupied rbuf) j \<longrightarrow>
       slot_ref_num (slot rbuf i) = slot_ref_num (slot rbuf j) \<longrightarrow> i = j)"

definition rb_rep :: "polar_ringbuf_data_t \<Rightarrow> pkt list \<Rightarrow> bool" where
  "rb_rep rbuf hist \<longleftrightarrow> content_rep rbuf hist \<and> (\<forall>i. slot_rep rbuf hist i) \<and> refs_distinct rbuf"

lemmas rb_rep_defs = rb_rep_def content_rep_def slot_rep_def refs_distinct_def

lemma rb_rep_shape: "rb_rep rbuf hist \<Longrightarrow> rb_shape rbuf"
  by (simp add: rb_rep_defs)

lemma length_live: "length (live rbuf hist) = length hist - unat (min_visit rbuf)"
  by (simp add: live_def)

lemma content_rep_used:
  assumes "content_rep rbuf hist"
  shows "length (enc_all (live rbuf hist)) < rb_size rbuf"
proof -
  obtain rest where "rest \<noteq> []" "lview rbuf = enc_all (live rbuf hist) @ rest"
    using assms by (auto simp: content_rep_def)
  then have "length (lview rbuf) = length (enc_all (live rbuf hist)) + length rest" "0 < length rest"
    by simp_all
  moreover have "length (lview rbuf) = rb_size rbuf"
    using assms by (simp add: content_rep_def rb_shape_def)
  ultimately show ?thesis by linarith
qed

text \<open>The bytes of packet number \<open>c\<close> in the flat view.\<close>

lemma live_nth:
  "unat (min_visit rbuf) \<le> c \<Longrightarrow> c < length hist \<Longrightarrow>
     live rbuf hist ! (c - unat (min_visit rbuf)) = hist ! c"
  by (simp add: live_def)

lemma live_update:
  "unat (min_visit rbuf) \<le> c \<Longrightarrow>
     live rbuf (hist[c := q]) = (live rbuf hist)[c - unat (min_visit rbuf) := q]"
  by (simp add: live_def drop_update_swap)

definition pkt_pos :: "polar_ringbuf_data_t \<Rightarrow> pkt list \<Rightarrow> nat \<Rightarrow> nat" where
  "pkt_pos rbuf hist c = phys rbuf (off (live rbuf hist) (c - unat (min_visit rbuf)))"

lemma pkt_view:
  assumes "content_rep rbuf hist" "unat (min_visit rbuf) \<le> c" "c < length hist"
  obtains pre post where "lview rbuf = pre @ enc (hist ! c) @ post" "post \<noteq> []"
    "length pre = off (live rbuf hist) (c - unat (min_visit rbuf))" "wf_pkt (hist ! c)"
    "length pre + length (enc (hist ! c)) < rb_size rbuf"
proof -
  let ?k = "c - unat (min_visit rbuf)"
  obtain rest where rest: "rest \<noteq> []" "lview rbuf = enc_all (live rbuf hist) @ rest"
    using assms(1) by (auto simp: content_rep_def)
  have k: "?k < length (live rbuf hist)" "live rbuf hist ! ?k = hist ! c"
    using assms by (auto simp: length_live live_nth)
  then have "hist ! c \<in> set (live rbuf hist)" by (metis nth_mem)
  then have wf: "wf_pkt (hist ! c)" using assms(1) by (simp add: content_rep_def)
  let ?pre = "enc_all (take ?k (live rbuf hist))"
  let ?post = "enc_all (drop (Suc ?k) (live rbuf hist)) @ rest"
  have eq: "lview rbuf = ?pre @ enc (hist ! c) @ ?post"
    using rest enc_all_split[OF k(1)] k(2) by simp
  have "?post \<noteq> []" using rest by simp
  have "length (lview rbuf) = length ?pre + length (enc (hist ! c)) + length ?post" by (simp add: eq)
  moreover have "0 < length ?post" using rest(1) by simp
  moreover have "length (lview rbuf) = rb_size rbuf"
    using assms by (simp add: content_rep_def rb_shape_def)
  ultimately have "length ?pre + length (enc (hist ! c)) < rb_size rbuf" by linarith
  with eq wf \<open>?post \<noteq> []\<close> show ?thesis by (intro that) auto
qed

text \<open>The flag, the length and the payload that the code reads at the position of a packet.\<close>

lemma pkt_flag_at:
  assumes "content_rep rbuf hist" "unat (min_visit rbuf) \<le> c" "c < length hist"
  shows "data rbuf ! pkt_pos rbuf hist c = hd (enc (hist ! c))"
proof -
  from pkt_view[OF assms] obtain pre post where v: "lview rbuf = pre @ enc (hist ! c) @ post"
    and l: "length pre = off (live rbuf hist) (c - unat (min_visit rbuf))"
      "length pre + length (enc (hist ! c)) < rb_size rbuf" by metis
  have "data rbuf ! pkt_pos rbuf hist c = lview rbuf ! length pre"
    using assms(1) l by (simp add: pkt_pos_def lview_nth content_rep_def)
  then show ?thesis
    using v enc_pos[of "hist ! c"] by (simp add: nth_append hd_conv_nth)
qed

lemma pkt_bytes_at:
  assumes "content_rep rbuf hist" "unat (min_visit rbuf) \<le> c" "c < length hist"
    and "j + n \<le> length (enc (hist ! c))"
  shows "ring_copy_out rbuf ((pkt_pos rbuf hist c + j) mod rb_size rbuf) n
      = take n (drop j (enc (hist ! c)))"
proof -
  from pkt_view[OF assms(1-3)] obtain pre post where v: "lview rbuf = pre @ enc (hist ! c) @ post"
    and l: "length pre = off (live rbuf hist) (c - unat (min_visit rbuf))"
      "length pre + length (enc (hist ! c)) < rb_size rbuf" by metis
  have "ring_copy_out rbuf ((pkt_pos rbuf hist c + j) mod rb_size rbuf) n
      = take n (drop (length pre + j) (lview rbuf))"
    using assms(1,4) l
    by (simp add: pkt_pos_def phys_add ring_copy_out_lview content_rep_def)
  then show ?thesis using v assms(4) by simp
qed

lemma pkt_len_at:
  assumes "content_rep rbuf hist" "unat (min_visit rbuf) \<le> c" "c < length hist"
    and "hist ! c = Filling p \<or> hist ! c = Ready t p"
  shows "polar_ringbuf_pkt_len rbuf (pkt_pos rbuf hist c) = of_nat (length p)"
proof -
  have "take 4 (drop 1 (enc (hist ! c))) = pkt_header p" "5 \<le> length (enc (hist ! c))"
    using assms(4) by auto
  then show ?thesis
    using pkt_bytes_at[OF assms(1-3), of 1 4] by (simp add: polar_ringbuf_pkt_len_def)
qed

section \<open>Writer operations\<close>

lemma lview_prs [simp]: "lview (rbuf\<lparr>prs := s\<rparr>) = lview rbuf"
  and live_prs [simp]: "live (rbuf\<lparr>prs := s\<rparr>) hist = live rbuf hist"
  and phys_prs [simp]: "phys (rbuf\<lparr>prs := s\<rparr>) x = phys rbuf x"
  by (simp_all add: lview_def live_def phys_def)

lemma rb_rep_prs [simp]: "rb_rep (rbuf\<lparr>prs := s\<rparr>) hist = rb_rep rbuf hist"
  by (simp add: rb_rep_defs rb_shape_def)

lemma free_size_eq:
  assumes "content_rep rbuf hist"
  shows "polar_ringbuf_free_size rbuf
    = int (rb_size rbuf) - int (length (enc_all (live rbuf hist))) - 1"
  using content_rep_used[OF assms] assms
  by (auto simp: polar_ringbuf_free_size_def Let_def content_rep_def rb_shape_def phys_def mod_if)

lemma reserve_rep:
  assumes rep: "rb_rep rbuf hist"
    and free: "int len \<le> polar_ringbuf_free_size rbuf" "5 \<le> len"
    and room: "length hist + 1 < 2 ^ 64 - 1"
    and res: "polar_ringbuf_pkt_reserve rbuf len = (idx, rb')"
  obtains raw where "length raw = len - 1" "rb_rep rb' (hist @ [Reserved raw])"
    "idx = pkt_pos rb' (hist @ [Reserved raw]) (length hist)"
proof -
  let ?ps = "live rbuf hist" and ?n = "length (enc_all (live rbuf hist))"
  have c: "content_rep rbuf hist" using rep by (simp add: rb_rep_def)
  then have b: "unat (min_visit rbuf) \<le> length hist" "rb_shape rbuf" by (simp_all add: content_rep_def)
  obtain rest where rest: "rest \<noteq> []" "lview rbuf = enc_all ?ps @ rest"
    using c by (auto simp: content_rep_def)
  have fit: "?n + len < rb_size rbuf" using free(1) free_size_eq[OF c] by linarith
  have "length (lview rbuf) = rb_size rbuf" using c by (simp add: content_rep_def rb_shape_def)
  then have len: "len < length rest" using rest(2) fit by simp
  define raw where "raw = drop 1 (take len rest)"
  have fr: "pread rb' = pread rbuf" "min_visit rb' = min_visit rbuf" "rb_size rb' = rb_size rbuf"
      "occupied rb' = occupied rbuf" "slot rb' = slot rbuf" "ref_num rb' = ref_num rbuf"
    and dt: "data rb' = (data rbuf)[phys rbuf ?n := 0]"
    and pw: "pwrite rb' = phys rbuf (?n + len)" and idx: "idx = phys rbuf ?n"
    using res c by (auto simp: polar_ringbuf_pkt_reserve_def Let_def content_rep_def phys_add)
  have ph: "phys rb' = phys rbuf" by (simp add: phys_def fr fun_eq_iff)
  have raw: "length raw = len - 1" "enc (Reserved raw) = (take len rest)[0 := 0]"
    using len free(2) by (cases rest; auto simp: raw_def take_Cons' )+
  let ?h = "hist @ [Reserved raw]"
  have live': "live rb' ?h = ?ps @ [Reserved raw]" using b by (simp add: live_def fr)
  have "lview rb' = (lview rbuf)[?n := 0]"
    using list_update_lview[OF b(2), of ?n 0] fit by (simp add: lview_def dt fr)
  also have "\<dots> = enc_all (live rb' ?h) @ drop len rest"
    using rest len free(2) live' raw(2)
    by (simp add: list_update_append)
      (metis append_take_drop_id length_greater_0_conv length_take list_update_append1 min.absorb4
        not_numeral_le_zero gr0I)
  finally have view: "lview rb' = enc_all (live rb' ?h) @ drop len rest" .
  have enc_len: "length (enc (Reserved raw)) = len" using raw(1) free(2) by simp
  have "drop len rest \<noteq> []" using len by simp
  then have "content_rep rb' ?h"
    using c b room view raw(1) free(2) enc_len
    by (auto simp: content_rep_def rb_shape_def live' fr dt pw ph)
  moreover have "slot_rep rb' ?h i" for i
  proof -
    have "slot_rep rbuf hist i" using rep by (simp add: rb_rep_def)
    then show ?thesis
      using b by (auto simp: slot_rep_def Let_def live' fr ph length_live)
  qed
  moreover have "refs_distinct rb'"
    using rep by (simp add: rb_rep_def refs_distinct_def fr)
  moreover have "idx = pkt_pos rb' ?h (length hist)"
    using b by (simp add: pkt_pos_def live' idx fr ph length_live)
  ultimately show ?thesis using raw(1) by (intro that[of raw]) (auto simp: rb_rep_def)
qed

text \<open>Any change of the bytes of one packet that yields the encoding of another of the same size.\<close>

lemma pkt_update_rep:
  assumes rep: "rb_rep rbuf hist" and c: "unat (min_visit rbuf) \<le> c" "c < length hist"
    and fr: "pread rb' = pread rbuf" "pwrite rb' = pwrite rbuf" "ref_num rb' = ref_num rbuf"
      "occupied rb' = occupied rbuf" "slot rb' = slot rbuf" "min_visit rb' = min_visit rbuf"
      "rb_size rb' = rb_size rbuf" "length (data rb') = length (data rbuf)"
    and view: "lview rb' = mem_write (lview rbuf)
        (off (live rbuf hist) (c - unat (min_visit rbuf)) + j) buf"
    and q: "enc q = mem_write (enc (hist ! c)) j buf" "j + length buf \<le> length (enc (hist ! c))" "wf_pkt q"
  shows "rb_rep rb' (hist[c := q])"
proof -
  let ?ps = "live rbuf hist" and ?k = "c - unat (min_visit rbuf)"
  have cr: "content_rep rbuf hist" using rep by (simp add: rb_rep_def)
  have live': "live rb' (hist[c := q]) = ?ps[?k := q]"
    using c by (simp add: fr(6) live_def drop_update_swap)
  have ph: "phys rb' = phys rbuf" by (simp add: phys_def fr fun_eq_iff)
  have k: "?k < length ?ps" "?ps ! ?k = hist ! c" using c by (auto simp: length_live live_nth)
  have eq: "length (enc q) = length (enc (?ps ! ?k))" using q k by simp
  then have off: "off (?ps[?k := q]) m = off ?ps m" for m by (rule off_update[OF k(1)])
  then have tot: "length (enc_all (?ps[?k := q])) = length (enc_all ?ps)"
    using off[of "length ?ps"] by simp
  obtain rest where rest: "rest \<noteq> []" "lview rbuf = enc_all ?ps @ rest"
    using cr by (auto simp: content_rep_def)
  have "lview rb' = enc_all (?ps[?k := q]) @ rest"
    using view rest mem_write_pkt[OF k(1), of j buf q rest] q k by simp
  moreover have "\<forall>p \<in> set (?ps[?k := q]). wf_pkt p"
    using cr q(3) set_update_subset_insert[of ?ps ?k q] by (auto simp: content_rep_def)
  ultimately have "content_rep rb' (hist[c := q])"
    using cr rest(1) by (auto simp: content_rep_def live' ph tot fr rb_shape_def)
  moreover have "slot_rep rb' (hist[c := q]) i" for i
    using rep by (auto simp: rb_rep_def slot_rep_def Let_def live' ph off fr)
  moreover have "refs_distinct rb'"
    using rep by (simp add: rb_rep_def refs_distinct_def fr)
  ultimately show ?thesis by (simp add: rb_rep_def)
qed

text \<open>The same for the three places of the code that write into a packet.\<close>

lemma pkt_copy_in_rep:
  assumes rep: "rb_rep rbuf hist" and c: "unat (min_visit rbuf) \<le> c" "c < length hist"
    and q: "enc q = mem_write (enc (hist ! c)) j buf" "j + length buf \<le> length (enc (hist ! c))" "wf_pkt q"
  shows "rb_rep (ring_copy_in rbuf ((pkt_pos rbuf hist c + j) mod rb_size rbuf) buf) (hist[c := q])"
proof (rule pkt_update_rep[OF rep c _ _ _ _ _ _ _ _ _ q])
  let ?x = "off (live rbuf hist) (c - unat (min_visit rbuf)) + j"
  have cr: "content_rep rbuf hist" using rep by (simp add: rb_rep_def)
  then have shape: "rb_shape rbuf" by (simp add: content_rep_def)
  have fit: "?x + length buf \<le> rb_size rbuf"
    by (rule pkt_view[OF cr c]) (use q(2) in linarith)
  let ?rb' = "ring_copy_in rbuf ((pkt_pos rbuf hist c + j) mod rb_size rbuf) buf"
  have "?rb' = ring_copy_in rbuf (phys rbuf ?x) buf" by (simp add: pkt_pos_def phys_add)
  then show "lview ?rb' = mem_write (lview rbuf) ?x buf" "length (data ?rb') = length (data rbuf)"
    using ring_copy_in_lview[OF shape fit] shape by (auto simp: rb_shape_def)
qed simp_all

lemma set_length_rep:
  assumes "rb_rep rbuf hist" "unat (min_visit rbuf) \<le> c" "c < length hist"
    and "hist ! c = Reserved raw" "length raw = unat len + 4"
  shows "rb_rep (polar_ringbuf_set_pkt_length rbuf (pkt_pos rbuf hist c) len)
      (hist[c := Filling (drop 4 raw)])"
proof -
  have "pkt_header (drop 4 raw) = le_bytes 4 len" using assms(5) by (simp add: pkt_header_def)
  then have "enc (Filling (drop 4 raw)) = mem_write (enc (hist ! c)) 1 (le_bytes 4 len)"
    using assms(4,5) by (simp add: mem_write_def)
  moreover have "unat len < 2 ^ 32" using unsigned_less[of len] by simp
  ultimately show ?thesis
    using pkt_copy_in_rep[OF assms(1-3), of "Filling (drop 4 raw)" 1 "le_bytes 4 len"] assms(4,5)
    by (simp add: polar_ringbuf_set_pkt_length_def)
qed

lemma length_payload:
  "wf_pkt (Filling p) \<Longrightarrow> unat (of_nat (length p) :: uint32) = length p"
  "wf_pkt (Ready t p) \<Longrightarrow> unat (of_nat (length p) :: uint32) = length p"
  by (simp_all add: unsigned_of_nat take_bit_nat_eq_self)

lemma rep_wf_pkt:
  "rb_rep rbuf hist \<Longrightarrow> unat (min_visit rbuf) \<le> c \<Longrightarrow> c < length hist \<Longrightarrow> wf_pkt (hist ! c)"
  by (metis pkt_view rb_rep_def)

lemma pkt_write_rep:
  assumes "rb_rep rbuf hist" "unat (min_visit rbuf) \<le> c" "c < length hist"
    and "hist ! c = Filling p"
  shows "polar_ringbuf_pkt_write rbuf (pkt_pos rbuf hist c) offset buf = None
      \<longleftrightarrow> offset \<ge> length p \<or> offset + length buf > length p"
    and "polar_ringbuf_pkt_write rbuf (pkt_pos rbuf hist c) offset buf = Some rb' \<Longrightarrow>
      rb_rep rb' (hist[c := Filling (mem_write p offset buf)])"
proof -
  have wf: "wf_pkt (Filling p)" using rep_wf_pkt[OF assms(1-3)] assms(4) by simp
  then have len: "unat (polar_ringbuf_pkt_len rbuf (pkt_pos rbuf hist c)) = length p"
    using pkt_len_at[of rbuf hist c p] assms by (simp add: rb_rep_def length_payload)
  then show "polar_ringbuf_pkt_write rbuf (pkt_pos rbuf hist c) offset buf = None
      \<longleftrightarrow> offset \<ge> length p \<or> offset + length buf > length p"
    by (simp add: polar_ringbuf_pkt_write_def Let_def)
  assume w: "polar_ringbuf_pkt_write rbuf (pkt_pos rbuf hist c) offset buf = Some rb'"
  let ?p' = "mem_write p offset buf"
  have fit: "offset + length buf \<le> length p" and
    rb': "rb' = ring_copy_in rbuf ((pkt_pos rbuf hist c + (5 + offset)) mod rb_size rbuf) buf"
    using w len by (auto simp: polar_ringbuf_pkt_write_def Let_def ac_simps split: if_splits)
  have "enc (Filling ?p') = mem_write (enc (hist ! c)) (5 + offset) buf"
  proof -
    have "pkt_header ?p' = pkt_header p" using fit by (simp add: pkt_header_def)
    then show ?thesis
      using assms(4) mem_write_shift[of "0 # pkt_header p" p offset buf] by simp
  qed
  then show "rb_rep rb' (hist[c := Filling ?p'])"
    using pkt_copy_in_rep[OF assms(1-3), of "Filling ?p'" "5 + offset" buf] wf fit assms(4)
    by (simp add: rb' )
qed

lemma set_flag_rep:
  assumes rep: "rb_rep rbuf hist" and c: "unat (min_visit rbuf) \<le> c" "c < length hist"
    and p: "hist ! c = Filling p" and t: "t AND 1 = 1"
  shows "rb_rep (polar_ringbuf_set_pkt_flag rbuf (pkt_pos rbuf hist c) t) (hist[c := Ready t p])"
proof (rule pkt_update_rep[OF rep c, where j = 0 and buf = "[t]"])
  let ?rb' = "polar_ringbuf_set_pkt_flag rbuf (pkt_pos rbuf hist c) t"
  let ?x = "off (live rbuf hist) (c - unat (min_visit rbuf))"
  have cr: "content_rep rbuf hist" using rep by (simp add: rb_rep_def)
  then have shape: "rb_shape rbuf" by (simp add: content_rep_def)
  have x: "?x < rb_size rbuf" by (rule pkt_view[OF cr c]) linarith
  show "lview ?rb' = mem_write (lview rbuf) (?x + 0) [t]"
    using list_update_lview[OF shape x, of t] x shape
    by (simp add: polar_ringbuf_set_pkt_flag_def pkt_pos_def list_update_mem_write rb_shape_def)
  show "wf_pkt (Ready t p)" using rep_wf_pkt[OF rep c] p t by simp
  show "enc (Ready t p) = mem_write (enc (hist ! c)) 0 [t]" using p by (simp add: mem_write_def)
qed (use p in \<open>simp_all add: polar_ringbuf_set_pkt_flag_def\<close>)

section \<open>Reader operations\<close>

text \<open>The slot a valid reference occupies and the number of its next packet.\<close>

abbreviation ref_index :: "polar_ringbuf_ref_t \<Rightarrow> nat" where
  "ref_index ref \<equiv> nat (ref_slot ref)"

definition cursor :: "polar_ringbuf_data_t \<Rightarrow> nat \<Rightarrow> nat" where
  "cursor rbuf i = unat (visit (slot rbuf i))"

lemma slot_rep_cursor:
  assumes "rb_rep rbuf hist" "bit (occupied rbuf) i"
  shows "slot_pread (slot rbuf i) = pkt_pos rbuf hist (cursor rbuf i)"
    "unat (min_visit rbuf) \<le> cursor rbuf i" "cursor rbuf i \<le> length hist" "i < 32"
  using assms by (auto simp: rb_rep_def slot_rep_def Let_def cursor_def pkt_pos_def dest: spec[of _ i])

lemma not_occupied_zero: "rb_rep rbuf hist \<Longrightarrow> \<not> bit (occupied rbuf) i \<Longrightarrow> slot rbuf i = zero_slot"
  by (simp add: rb_rep_def slot_rep_def Let_def)

text \<open>A reference with a positive number that matches has an occupied slot.\<close>

lemma match_occupied:
  assumes "rb_rep rbuf hist" "RINGBUF_REF_MATCH rbuf ref" "ref_ref_num ref \<noteq> 0"
  shows "bit (occupied rbuf) (ref_index ref)"
proof (rule ccontr)
  assume "\<not> bit (occupied rbuf) (ref_index ref)"
  then have "slot rbuf (ref_index ref) = zero_slot" using not_occupied_zero[OF assms(1)] by simp
  then show False using assms(2,3) by (simp add: RINGBUF_REF_MATCH_def ref_slot_of_def zero_slot_def)
qed

lemma avail_eq:
  assumes "rb_rep rbuf hist" "bit (occupied rbuf) (ref_index ref)"
  shows "polar_ringbuf_avail rbuf ref
    = int (length (enc_all (drop (cursor rbuf (ref_index ref)) hist)))"
proof -
  let ?ps = "live rbuf hist" and ?k = "cursor rbuf (ref_index ref) - unat (min_visit rbuf)"
  have cr: "content_rep rbuf hist" using assms(1) by (simp add: rb_rep_def)
  have "drop ?k ?ps = drop (cursor rbuf (ref_index ref)) hist"
    using slot_rep_cursor(2)[OF assms] by (simp add: live_def)
  moreover have "length (enc_all ?ps) = off ?ps ?k + length (enc_all (drop ?k ?ps))"
    by (metis append_take_drop_id concat_append length_append map_append)
  moreover have "polar_ringbuf_avail rbuf ref = int (length (enc_all ?ps)) - int (off ?ps ?k)"
  proof -
    define n m where "n = length (enc_all ?ps)" and "m = off ?ps ?k"
    have le: "m \<le> n" "n < rb_size rbuf" "rb_shape rbuf" "pwrite rbuf = phys rbuf n"
      using off_le[of ?k ?ps] content_rep_used[OF cr] cr by (simp_all add: content_rep_def n_def m_def)
    moreover have "slot_pread (slot rbuf (ref_index ref)) = phys rbuf m"
      using slot_rep_cursor(1)[OF assms] by (simp add: pkt_pos_def m_def)
    ultimately have "polar_ringbuf_avail rbuf ref = int n - int m"
      by (auto simp: polar_ringbuf_avail_def Let_def ref_slot_of_def phys_cases rb_shape_def)
    then show ?thesis by (simp add: n_def m_def)
  qed
  ultimately show ?thesis by simp
qed

lemma avail_pos_iff:
  assumes "rb_rep rbuf hist" "bit (occupied rbuf) (ref_index ref)"
  shows "polar_ringbuf_avail rbuf ref > 0 \<longleftrightarrow> cursor rbuf (ref_index ref) < length hist"
proof -
  have "enc_all (drop c hist) = [] \<longleftrightarrow> length hist \<le> c" for c
    using enc_pos[of "hist ! c"] by (cases "c < length hist") (auto simp flip: Cons_nth_drop_Suc)
  then show ?thesis unfolding avail_eq[OF assms] by (auto simp: not_le)
qed

lemma next_ready_rep:
  assumes "rb_rep rbuf hist" "bit (occupied rbuf) (ref_index ref)"
    and "cursor rbuf (ref_index ref) < length hist"
  shows "polar_ringbuf_next_ready_pkt rbuf ref =
    (case hist ! cursor rbuf (ref_index ref) of
       Ready t p \<Rightarrow> (t AND POLAR_RINGBUF_PKT_TYPE_MASK, of_nat (length p))
     | _ \<Rightarrow> (POLAR_RINGBUF_PKT_INVALID_TYPE, 0))"
proof -
  let ?c = "cursor rbuf (ref_index ref)"
  have cr: "content_rep rbuf hist" using assms(1) by (simp add: rb_rep_def)
  note s = slot_rep_cursor[OF assms(1,2)]
  note at = pkt_flag_at[OF cr s(2) assms(3)]
  have wf: "wf_pkt (hist ! ?c)" using rep_wf_pkt[OF assms(1) s(2) assms(3)] .
  show ?thesis
  proof (cases "hist ! ?c")
    case (Ready t p)
    then show ?thesis
      using at wf pkt_len_at[OF cr s(2) assms(3), of p t] s(1)
      by (simp add: polar_ringbuf_next_ready_pkt_def ref_slot_of_def Let_def)
  qed (use at s(1) in \<open>simp_all add: polar_ringbuf_next_ready_pkt_def ref_slot_of_def Let_def\<close>)
qed

lemma read_next_rep:
  assumes "rb_rep rbuf hist" "bit (occupied rbuf) (ref_index ref)"
    and "cursor rbuf (ref_index ref) < length hist"
    and "hist ! cursor rbuf (ref_index ref) = Ready t p"
  shows "polar_ringbuf_read_next_pkt rbuf ref offset n =
    (if offset \<ge> length p then None else Some (take n (drop offset p)))"
proof -
  let ?c = "cursor rbuf (ref_index ref)"
  have cr: "content_rep rbuf hist" using assms(1) by (simp add: rb_rep_def)
  note s = slot_rep_cursor[OF assms(1,2)]
  have wf: "wf_pkt (Ready t p)" using rep_wf_pkt[OF assms(1) s(2) assms(3)] assms(4) by simp
  have len: "unat (polar_ringbuf_pkt_len rbuf (pkt_pos rbuf hist ?c)) = length p"
    using pkt_len_at[OF cr s(2) assms(3), of p t] assms(4) wf by (simp add: length_payload)
  have "ring_copy_out rbuf ((pkt_pos rbuf hist ?c + 5 + offset) mod rb_size rbuf) m
      = take m (drop offset p)" if "offset + m \<le> length p" for m
  proof -
    have "drop (5 + offset) (t # pkt_header p @ p) = drop offset p"
      using drop_append[of "5 + offset" "t # pkt_header p" p] by simp
    then show ?thesis
      using pkt_bytes_at[OF cr s(2) assms(3), of "5 + offset" m] assms(4) that by (simp add: ac_simps)
  qed
  then show ?thesis
    using len s(1) by (simp add: polar_ringbuf_read_next_pkt_def ref_slot_of_def Let_def)
qed

text \<open>Advancing a reference changes only its own slot.\<close>

lemma update_ref_rep:
  assumes rep: "rb_rep rbuf hist" and occ: "bit (occupied rbuf) (ref_index ref)"
    and c: "cursor rbuf (ref_index ref) < length hist"
    and p: "hist ! cursor rbuf (ref_index ref) = Filling p \<or> hist ! cursor rbuf (ref_index ref) = Ready t p"
  shows "rb_rep (polar_ringbuf_update_ref rbuf ref) hist"
    and "cursor (polar_ringbuf_update_ref rbuf ref) i =
      (if i = ref_index ref then cursor rbuf i + 1 else cursor rbuf i)"
proof -
  let ?i = "ref_index ref" and ?rb' = "polar_ringbuf_update_ref rbuf ref"
  let ?c = "cursor rbuf ?i" and ?b = "unat (min_visit rbuf)"
  have cr: "content_rep rbuf hist" using rep by (simp add: rb_rep_def)
  note s = slot_rep_cursor[OF rep occ]
  have wf: "wf_pkt (Filling p)" using rep_wf_pkt[OF rep s(2) c] p by auto
  have len: "unat (polar_ringbuf_pkt_len rbuf (pkt_pos rbuf hist ?c)) = length p"
    using pkt_len_at[OF cr s(2) c, of p t] p wf by (simp add: length_payload)
  have enc_len: "length (enc (hist ! ?c)) = 5 + length p" using p by auto
  have "length hist < 2 ^ 64 - 1" using cr by (simp add: content_rep_def)
  then have c1: "unat (visit (slot rbuf ?i) + 1) = ?c + 1"
    using c by (simp add: cursor_def unat_word_ariths)
  then show "cursor ?rb' i = (if i = ?i then cursor rbuf i + 1 else cursor rbuf i)"
    by (simp add: polar_ringbuf_update_ref_def Let_def cursor_def)
  have fr: "lview ?rb' = lview rbuf" "live ?rb' hist = live rbuf hist" "phys ?rb' = phys rbuf"
    "rb_shape ?rb' = rb_shape rbuf" "min_visit ?rb' = min_visit rbuf" "pwrite ?rb' = pwrite rbuf"
    "occupied ?rb' = occupied rbuf" "ref_num ?rb' = ref_num rbuf"
    by (simp_all add: polar_ringbuf_update_ref_def Let_def lview_def live_def phys_def rb_shape_def fun_eq_iff)
  have k: "?c - ?b < length (live rbuf hist)" "live rbuf hist ! (?c - ?b) = hist ! ?c"
    "Suc ?c - ?b = Suc (?c - ?b)"
    using s c by (auto simp: length_live live_nth)
  have "off (live rbuf hist) (Suc ?c - ?b) = off (live rbuf hist) (?c - ?b) + (5 + length p)"
    unfolding k(3) off_Suc[OF k(1)] k(2) enc_len by simp
  then have "(pkt_pos rbuf hist ?c + 5 + length p) mod rb_size rbuf
      = phys rbuf (off (live rbuf hist) (Suc ?c - ?b))"
    by (simp only: pkt_pos_def phys_add add.assoc)
  then have s1: "slot ?rb' ?i = (slot rbuf ?i)
      \<lparr>slot_pread := phys rbuf (off (live rbuf hist) (Suc ?c - ?b)), visit := visit (slot rbuf ?i) + 1\<rparr>"
    using s(1) len by (simp add: polar_ringbuf_update_ref_def Let_def)
  have s2: "slot ?rb' i = slot rbuf i" if "i \<noteq> ?i" for i
    using that by (simp add: polar_ringbuf_update_ref_def Let_def)
  have old: "slot_rep rbuf hist i" for i using rep by (simp add: rb_rep_def)
  have "slot_rep ?rb' hist i" for i
    using old[of i] s2[of i] c c1 s(2) occ
    by (cases "i = ?i") (simp_all add: slot_rep_def Let_def fr cursor_def s1)
  moreover have "slot_ref_num (slot ?rb' i) = slot_ref_num (slot rbuf i)" for i
    using s2[of i] by (cases "i = ?i") (simp_all add: s1)
  ultimately show "rb_rep ?rb' hist"
    using rep by (simp add: rb_rep_def content_rep_def refs_distinct_def fr)
qed

section \<open>Recycling\<close>

text \<open>Recycling the packets below a number that no cursor has yet to read keeps the representation.\<close>

lemma trim_rep:
  assumes rep: "rb_rep rbuf hist" and b': "unat (min_visit rbuf) \<le> unat mv" "unat mv \<le> length hist"
    and low: "\<And>i. bit (occupied rbuf) i \<Longrightarrow> unat mv \<le> cursor rbuf i"
  shows "rb_rep (rbuf\<lparr>min_visit := mv, pread := pkt_pos rbuf hist (unat mv)\<rparr>) hist"
proof -
  let ?rb' = "rbuf\<lparr>min_visit := mv, pread := pkt_pos rbuf hist (unat mv)\<rparr>"
  let ?ps = "live rbuf hist" and ?d = "unat mv - unat (min_visit rbuf)"
  have cr: "content_rep rbuf hist" using rep by (simp add: rb_rep_def)
  then have shape: "rb_shape rbuf" by (simp add: content_rep_def)
  obtain rest where rest: "rest \<noteq> []" "lview rbuf = enc_all ?ps @ rest"
    using cr by (auto simp: content_rep_def)
  have live': "live ?rb' hist = drop ?d ?ps" using b' by (simp add: live_def)
  have split: "enc_all ?ps = enc_all (take ?d ?ps) @ enc_all (drop ?d ?ps)"
    by (metis append_take_drop_id concat_append map_append)
  have ph: "phys ?rb' x = phys rbuf (off ?ps ?d + x)" for x
    using phys_add[of rbuf "off ?ps ?d" x] by (simp add: phys_def pkt_pos_def)
  have pos: "pkt_pos rbuf hist (unat mv) < rb_size rbuf"
    unfolding pkt_pos_def by (rule phys_less[OF shape])
  have v: "lview rbuf = enc_all (take ?d ?ps) @ enc_all (drop ?d ?ps) @ rest"
    using rest(2) by (metis append_assoc split)
  have fit: "off ?ps ?d \<le> rb_size rbuf" using off_le[of ?d ?ps] content_rep_used[OF cr] by linarith
  have "lview ?rb' = (enc_all (drop ?d ?ps) @ rest) @ enc_all (take ?d ?ps)"
    by (rule lview_pread[OF shape fit v refl]) (simp_all add: pkt_pos_def)
  moreover have "\<forall>p \<in> set (drop ?d ?ps). wf_pkt p"
    using cr by (auto simp: content_rep_def dest: in_set_dropD)
  ultimately have "content_rep ?rb' hist"
    using cr b' rest(1) pos arg_cong[OF split, of length]
    by (auto simp: content_rep_def rb_shape_def live' ph)
  moreover have "slot_rep ?rb' hist i" for i
  proof (cases "bit (occupied rbuf) i")
    case True
    let ?c = "cursor rbuf i"
    have "take (?c - unat (min_visit rbuf)) ?ps = take ?d ?ps @ take (?c - unat mv) (drop ?d ?ps)"
      using low[OF True] b' take_add[of ?d "?c - unat mv" ?ps] by simp
    then have "off ?ps ?d + off (drop ?d ?ps) (?c - unat mv) = off ?ps (?c - unat (min_visit rbuf))"
      by simp
    moreover have "slot_rep rbuf hist i" using rep by (simp add: rb_rep_def)
    ultimately show ?thesis
      using True low[OF True] by (simp add: slot_rep_def Let_def live' ph cursor_def)
  next
    case False
    moreover have "slot_rep rbuf hist i" using rep by (simp add: rb_rep_def)
    ultimately show ?thesis by (simp add: slot_rep_def Let_def)
  qed
  moreover have "refs_distinct ?rb'" using rep by (simp add: rb_rep_def refs_distinct_def)
  ultimately show ?thesis by (simp add: rb_rep_def)
qed

text \<open>Recycling does not move the packets that stay.\<close>

lemma pkt_pos_trim:
  assumes "unat (min_visit rbuf) \<le> unat mv" "unat mv \<le> c"
  shows "pkt_pos (rbuf\<lparr>min_visit := mv, pread := pkt_pos rbuf hist (unat mv)\<rparr>) hist c = pkt_pos rbuf hist c"
proof -
  let ?ps = "live rbuf hist" and ?d = "unat mv - unat (min_visit rbuf)"
  have "take (c - unat (min_visit rbuf)) ?ps = take ?d ?ps @ take (c - unat mv) (drop ?d ?ps)"
    using assms take_add[of ?d "c - unat mv" ?ps] by simp
  moreover have "drop ?d ?ps = drop (unat mv) hist" using assms(1) by (simp add: live_def)
  ultimately show ?thesis
    using phys_add[of rbuf "off ?ps ?d" "off (drop (unat mv) hist) (c - unat mv)"]
    by (simp add: pkt_pos_def live_def phys_def)
qed

text \<open>The scan finds a least visited qualifying slot.\<close>

lemma min_visit_fold:
  assumes "fold (min_visit_step sl ok) (map Suc js) (mv, ms) = (mv', ms')"
  shows "mv' \<le> mv \<and> (\<forall>i \<in> set js. ok (sl i) \<longrightarrow> mv' \<le> visit (sl i)) \<and>
    ((mv', ms') = (mv, ms) \<or> ms' \<in> set js \<and> ok (sl ms') \<and> visit (sl ms') = mv' \<and> mv' < mv)"
  using assms
proof (induction js arbitrary: mv ms)
  case (Cons j js)
  have step: "min_visit_step sl ok (Suc j) (mv, ms)
      = (if ok (sl j) \<and> visit (sl j) < mv then (visit (sl j), j) else (mv, ms))"
    by (simp add: min_visit_step_def)
  show ?case
  proof (cases "ok (sl j) \<and> visit (sl j) < mv")
    case True
    then have "fold (min_visit_step sl ok) (map Suc js) (visit (sl j), j) = (mv', ms')"
      using Cons.prems by (simp add: step)
    from Cons.IH[OF this] show ?thesis using True by auto
  next
    case False
    then have "fold (min_visit_step sl ok) (map Suc js) (mv, ms) = (mv', ms')"
      using Cons.prems by (auto simp: step)
    from Cons.IH[OF this] show ?thesis using False by auto
  qed
qed simp

lemma min_visit_scan:
  assumes "bit_scan (min_visit_step sl ok) occ (UINT64_MAX, 32) = (mv, ms)"
  shows "(\<forall>i. bit occ i \<longrightarrow> ok (sl i) \<longrightarrow> mv \<le> visit (sl i)) \<and>
    (mv = UINT64_MAX \<and> ms = 32 \<or> bit occ ms \<and> ok (sl ms) \<and> visit (sl ms) = mv)"
  using min_visit_fold[of sl ok "set_bits_of occ" "- 1" 32 mv ms] assms
  by (auto simp: bit_scan_eq_fold set_set_bits_of)

lemma cursor_less_max:
  assumes "rb_rep rbuf hist" "bit (occupied rbuf) i"
  shows "visit (slot rbuf i) < UINT64_MAX"
proof -
  have "length hist < 2 ^ 64 - 1" using assms(1) by (simp add: rb_rep_defs)
  then have "unat (visit (slot rbuf i)) < 2 ^ 64 - 1"
    using slot_rep_cursor(3)[OF assms] by (simp add: cursor_def)
  moreover have "unat (- 1 :: uint64) = 2 ^ 64 - 1" by (simp add: unsigned_minus_1_eq_mask mask_eq_exp_minus_1)
  ultimately show ?thesis by (simp add: word_less_nat_alt)
qed

text \<open>
  \<open>polar_ringbuf_update_pread\<close> recycles exactly the packets that every reference has read, and
  reports whether there were any. With no reference at all it recycles nothing.
\<close>

lemma update_pread_rep:
  assumes rep: "rb_rep rbuf hist" and res: "polar_ringbuf_update_pread rbuf = (updated, rb')"
  shows "rb_rep rb' hist"
    and "slot rb' = slot rbuf" "occupied rb' = occupied rbuf" "ref_num rb' = ref_num rbuf"
      "rb_size rb' = rb_size rbuf"
    and "occupied rbuf = 0 \<Longrightarrow> \<not> updated \<and> rb' = rbuf"
    and "occupied rbuf \<noteq> 0 \<Longrightarrow>
      unat (min_visit rb') = Min (cursor rbuf ` {i. bit (occupied rbuf) i})"
    and "updated \<longleftrightarrow> unat (min_visit rbuf) < unat (min_visit rb')"
    and "\<not> updated \<Longrightarrow> rb' = rbuf"
    and "unat (min_visit rb') \<le> c \<Longrightarrow> pkt_pos rb' hist c = pkt_pos rbuf hist c"
proof -
  obtain mv ms where scan: "bit_scan (min_visit_step (slot rbuf) (\<lambda>_. True)) (occupied rbuf)
      (UINT64_MAX, 32) = (mv, ms)" by (rule prod.exhaust)
  note low = min_visit_scan[OF scan]
  obtain s where res': "(updated, rb') = (if ms \<noteq> 32 \<and> min_visit rbuf \<noteq> mv
     then (True, rbuf\<lparr>min_visit := mv, pread := slot_pread (slot rbuf ms), prs := s\<rparr>)
     else (False, rbuf))"
    using res by (auto simp: polar_ringbuf_update_pread_def scan Let_def split: if_splits)
  show fr: "slot rb' = slot rbuf" "occupied rb' = occupied rbuf" "ref_num rb' = ref_num rbuf"
      "rb_size rb' = rb_size rbuf"
    using res' by (auto split: if_splits)
  show "\<not> updated \<and> rb' = rbuf" if "occupied rbuf = 0"
    using that res' scan by simp
  show "rb' = rbuf" if "\<not> updated" using that res' by (auto split: if_splits)
  have min: "bit (occupied rbuf) ms" "ms < 32" "visit (slot rbuf ms) = mv"
    "unat (min_visit rbuf) \<le> unat mv" "unat mv \<le> length hist"
    "slot_pread (slot rbuf ms) = pkt_pos rbuf hist (unat mv)" if "occupied rbuf \<noteq> 0"
  proof -
    from that obtain i where i: "bit (occupied rbuf) i" by (auto simp: word_eq_0_bits)
    then have "mv \<noteq> UINT64_MAX" using low cursor_less_max[OF rep i] by (metis leD)
    then show ms: "bit (occupied rbuf) ms" "visit (slot rbuf ms) = mv" using low by auto
    show "ms < 32" "unat (min_visit rbuf) \<le> unat mv" "unat mv \<le> length hist"
      "slot_pread (slot rbuf ms) = pkt_pos rbuf hist (unat mv)"
      using slot_rep_cursor[OF rep ms(1)] ms(2) by (simp_all add: cursor_def)
  qed
  have least: "unat mv \<le> cursor rbuf i" if "bit (occupied rbuf) i" for i
    using low that by (simp add: cursor_def word_le_nat_alt)
  show "rb_rep rb' hist"
  proof (cases "occupied rbuf = 0")
    case False
    then show ?thesis
      using trim_rep[OF rep min(4,5)[OF False] least] res' rep min(6)[OF False] rb_rep_prs[of s]
      by (auto split: if_splits)
  qed (use res' scan rep in simp)
  show "pkt_pos rb' hist c = pkt_pos rbuf hist c" if "unat (min_visit rb') \<le> c"
  proof (cases "occupied rbuf = 0")
    case False
    have "pkt_pos (rb\<lparr>prs := s\<rparr>) hist c = pkt_pos rb hist c" for rb by (simp add: pkt_pos_def)
    then show ?thesis
      using that res' min(6)[OF False] pkt_pos_trim[OF min(4)[OF False], of c hist] by (auto split: if_splits)
  qed (use res' scan in simp)
  show "unat (min_visit rb') = Min (cursor rbuf ` {i. bit (occupied rbuf) i})" if "occupied rbuf \<noteq> 0"
  proof -
    have "Min (cursor rbuf ` {i. bit (occupied rbuf) i}) = unat mv"
      using min(1,3)[OF that] least by (intro Min_eqI) (auto simp: cursor_def image_iff)
    then show ?thesis using res' min(2)[OF that] by (auto split: if_splits)
  qed
  show "updated \<longleftrightarrow> unat (min_visit rbuf) < unat (min_visit rb')"
  proof (cases "occupied rbuf = 0")
    case False
    have "min_visit rbuf = mv \<longleftrightarrow> unat (min_visit rbuf) = unat mv" by (simp add: word_unat_eq_iff)
    then show ?thesis using res' min(2,4)[OF False] by (auto split: if_splits)
  qed (use res' scan in simp)
qed

end
