(* ===== verification/Polar_Ring_Steps.thy ===== *)
theory Polar_Ring_Steps
  imports Polar_Ring_Queue
begin

text \<open>
  References of the ring buffer and the ring buffer as a state machine. The first part shows that
  creating, releasing and evicting references keeps the representation of \<open>Polar_Ring_Queue\<close> and
  that \<open>polar_ringbuf_free_up\<close> returns when it can. The second part is the step relation of all
  operations under the protocol the callers follow, with the packet log as auxiliary state: every
  reachable state is a representation, the log only grows, and what a reference reads is what the
  writer published. The locale \<open>packet_log\<close> is the interface the WAL queue uses.
\<close>

section \<open>Creating and dropping references\<close>

text \<open>The packets depend on the positions, the size, the recycled count and the bytes only.\<close>

lemma frame_cong:
  assumes "pread rb' = pread rbuf" "rb_size rb' = rb_size rbuf" "min_visit rb' = min_visit rbuf"
    "data rb' = data rbuf"
  shows "lview rb' = lview rbuf" "live rb' = live rbuf" "phys rb' = phys rbuf"
    "rb_shape rb' = rb_shape rbuf"
  using assms by (simp_all add: lview_def live_def phys_def rb_shape_def fun_eq_iff)

lemma content_rep_cong:
  assumes "pread rb' = pread rbuf" "rb_size rb' = rb_size rbuf" "min_visit rb' = min_visit rbuf"
    "data rb' = data rbuf" "pwrite rb' = pwrite rbuf"
  shows "content_rep rb' hist = content_rep rbuf hist"
  using assms by (simp add: content_rep_def frame_cong[OF assms(1-4)])

lemma drop_slot_rep:
  assumes "rb_rep rbuf hist" "i < 32"
  shows "rb_rep (rbuf\<lparr>occupied := POLAR_BIT_RELEASE_OCCUPIED (occupied rbuf) (i + 1),
                      slot := (slot rbuf)(i := zero_slot)\<rparr>) hist"
proof -
  define rb' where "rb' = rbuf\<lparr>occupied := POLAR_BIT_RELEASE_OCCUPIED (occupied rbuf) (i + 1),
                               slot := (slot rbuf)(i := zero_slot)\<rparr>"
  have eq: "pread rb' = pread rbuf" "rb_size rb' = rb_size rbuf" "min_visit rb' = min_visit rbuf"
    "data rb' = data rbuf" "pwrite rb' = pwrite rbuf" "ref_num rb' = ref_num rbuf"
    "slot rb' = (slot rbuf)(i := zero_slot)"
    by (simp_all add: rb'_def)
  note fr = frame_cong[OF eq(1-4)]
  have occ: "bit (occupied rb') j \<longleftrightarrow> bit (occupied rbuf) j \<and> j \<noteq> i" for j
    using assms(2) by (simp add: rb'_def)
  have old: "slot_rep rbuf hist j" for j using assms(1) by (simp add: rb_rep_def)
  have "slot_rep rb' hist j" for j
    using old[of j] unfolding slot_rep_def occ Let_def fr eq by (cases "j = i") simp_all
  moreover have "content_rep rb' hist"
    using assms(1) content_rep_cong[OF eq(1-5)] by (simp add: rb_rep_def)
  moreover have "refs_distinct rb'"
    using assms(1) unfolding rb_rep_def refs_distinct_def occ eq by simp
  ultimately show ?thesis by (simp add: rb_rep_def rb'_def)
qed

lemma new_ref_rep:
  assumes rep: "rb_rep rbuf hist" and num: "ref_num rbuf < UINT64_MAX"
    and res: "polar_ringbuf_new_ref rbuf strg ref nm = (ok, rb', ref')"
  shows "rb_rep rb' hist"
    and "ok \<longleftrightarrow> (\<exists>i < 32. \<not> bit (occupied rbuf) i)"
    and "\<not> ok \<Longrightarrow> rb' = rbuf \<and> ref' = ref"
    and "ok \<Longrightarrow> RINGBUF_REF_MATCH rb' ref' \<and> ref_ref_num ref' = ref_num rbuf + 1 \<and>
      ref_ref_num ref' = ref_num rb' \<and> ref_rbuf ref' \<and>
      \<not> bit (occupied rbuf) (ref_index ref') \<and> bit (occupied rb') (ref_index ref') \<and>
      cursor rb' (ref_index ref') = unat (min_visit rbuf) \<and>
      (\<forall>j. j \<noteq> ref_index ref' \<longrightarrow> slot rb' j = slot rbuf j)"
proof -
  let ?un = "NOT (occupied rbuf)"
  have un: "bit ?un j \<longleftrightarrow> j < 64 \<and> \<not> bit (occupied rbuf) j" for j by (simp add: bit_not_iff)
  have ok: "ok \<longleftrightarrow> 0 < POLAR_BIT_LEAST_POS ?un \<and> POLAR_BIT_LEAST_POS ?un \<le> 32"
    and not_ok: "\<not> ok \<Longrightarrow> rb' = rbuf \<and> ref' = ref"
    using res by (auto simp: polar_ringbuf_new_ref_def Let_def split: if_splits)
  show "\<not> ok \<Longrightarrow> rb' = rbuf \<and> ref' = ref" by (rule not_ok)
  show "ok \<longleftrightarrow> (\<exists>i < 32. \<not> bit (occupied rbuf) i)"
    unfolding ok LEAST_POS_le_iff un by auto
  define i where "i = POLAR_BIT_LEAST_POS ?un - 1"
  have i: "i < 32" "\<not> bit (occupied rbuf) i" "POLAR_BIT_LEAST_POS ?un = Suc i" if ok
    using that ok LEAST_POS_bit[of ?un] unfolding i_def un by auto
  define sl where "sl = \<lparr>strong = strg, slot_pread = pread rbuf, visit = min_visit rbuf,
      slot_ref_num = ref_num rbuf + 1, slot_ref_name = (case nm of None \<Rightarrow> '''' | Some x \<Rightarrow> take 63 x)\<rparr>"
  have rb': "rb' = rbuf\<lparr>occupied := POLAR_BIT_OCCUPY (occupied rbuf) (Suc i), ref_num := ref_num rbuf + 1,
      slot := (slot rbuf)(i := sl)\<rparr>"
    and ref': "ref_rbuf ref'" "ref_ref_num ref' = ref_num rbuf + 1" "ref_slot ref' = int i" if ok
    using res i[OF that] that
    by (auto simp: polar_ringbuf_new_ref_def Let_def sl_def split: if_splits)
  have occ: "bit (occupied rb') j \<longleftrightarrow> bit (occupied rbuf) j \<or> j = i" if ok for j
    using i[OF that] rb'[OF that] by simp
  show "RINGBUF_REF_MATCH rb' ref' \<and> ref_ref_num ref' = ref_num rbuf + 1 \<and>
      ref_ref_num ref' = ref_num rb' \<and> ref_rbuf ref' \<and>
      \<not> bit (occupied rbuf) (ref_index ref') \<and> bit (occupied rb') (ref_index ref') \<and>
      cursor rb' (ref_index ref') = unat (min_visit rbuf) \<and>
      (\<forall>j. j \<noteq> ref_index ref' \<longrightarrow> slot rb' j = slot rbuf j)" if ok
    using i[OF that] rb'[OF that] ref'[OF that] occ[OF that]
    by (simp add: RINGBUF_REF_MATCH_def ref_slot_of_def sl_def cursor_def)
  show "rb_rep rb' hist"
  proof (cases ok)
    case True
    note i = i[OF True] and rb' = rb'[OF True] and occ = occ[OF True]
    have fr: "lview rb' = lview rbuf" "live rb' hist = live rbuf hist" "phys rb' = phys rbuf"
      "rb_shape rb' = rb_shape rbuf" "min_visit rb' = min_visit rbuf" "pwrite rb' = pwrite rbuf"
      "ref_num rb' = ref_num rbuf + 1" "slot rb' = (slot rbuf)(i := sl)"
      by (simp_all add: rb' lview_def live_def phys_def rb_shape_def fun_eq_iff)
    have pos: "x \<le> ref_num rbuf \<Longrightarrow> x < ref_num rbuf + 1" for x using inc_greater[OF num] .
    have pos0: "0 < ref_num rbuf + 1" using pos[of 0] by simp
    have old: "slot_rep rbuf hist j" for j using rep by (simp add: rb_rep_def)
    have "phys rbuf 0 = pread rbuf" using rb_rep_shape[OF rep] by (simp add: phys_def rb_shape_def)
    then have "slot_rep rb' hist j" for j
      using old[of j] i pos0 less_imp_le[OF pos[of "slot_ref_num (slot rbuf j)"]] rep
      unfolding slot_rep_def occ Let_def fr
      by (cases "j = i") (simp_all add: sl_def rb_rep_def content_rep_def)
    moreover have lt: "slot_ref_num (slot rbuf j) \<noteq> ref_num rbuf + 1" if "bit (occupied rbuf) j" for j
      using old[of j] that pos[of "slot_ref_num (slot rbuf j)"] by (auto simp: slot_rep_def Let_def)
    have "refs_distinct rbuf" using rep by (simp add: rb_rep_def)
    then have "refs_distinct rb'"
      using lt not_sym[OF lt] unfolding refs_distinct_def occ fr by (simp add: sl_def)
    moreover have "content_rep rb' hist" using rep by (simp add: rb_rep_def content_rep_def fr)
    ultimately show ?thesis by (simp add: rb_rep_def)
  qed (use rep not_ok in simp)
qed

lemma release_ref_rep:
  assumes rep: "rb_rep rbuf hist" and num: "ref_ref_num ref \<noteq> 0"
    and res: "polar_ringbuf_release_ref rbuf ref = (rb', ref')"
  shows "rb_rep rb' hist" "\<not> ref_rbuf ref'" "ref_num rb' = ref_num rbuf"
    and "slot rb' j = (if ref_rbuf ref \<and> RINGBUF_REF_MATCH rbuf ref \<and> j = ref_index ref
           then zero_slot else slot rbuf j)"
proof -
  let ?i = "ref_index ref"
  let ?rb1 = "rbuf\<lparr>occupied := POLAR_BIT_RELEASE_OCCUPIED (occupied rbuf) (?i + 1),
                  slot := (slot rbuf)(?i := zero_slot)\<rparr>"
  have "rb_rep rb' hist \<and> \<not> ref_rbuf ref' \<and> ref_num rb' = ref_num rbuf \<and>
      slot rb' = (if ref_rbuf ref \<and> RINGBUF_REF_MATCH rbuf ref then (slot rbuf)(?i := zero_slot)
                  else slot rbuf)"
  proof (cases "ref_rbuf ref \<and> RINGBUF_REF_MATCH rbuf ref")
    case True
    then have "?i < 32" by (auto simp: RINGBUF_REF_MATCH_def)
    then have rep1: "rb_rep ?rb1 hist" by (rule drop_slot_rep[OF rep])
    obtain u rb2 where up: "polar_ringbuf_update_pread ?rb1 = (u, rb2)" by (rule prod.exhaust)
    have "rb' = rb2" "\<not> ref_rbuf ref'"
      using res True up by (auto simp: polar_ringbuf_release_ref_def Let_def)
    then show ?thesis using update_pread_rep(1-4)[OF rep1 up] True by simp
  next
    case False
    then show ?thesis
      using res rep by (auto simp: polar_ringbuf_release_ref_def Let_def split: if_splits)
  qed
  then show "rb_rep rb' hist" "\<not> ref_rbuf ref'" "ref_num rb' = ref_num rbuf"
    "slot rb' j = (if ref_rbuf ref \<and> RINGBUF_REF_MATCH rbuf ref \<and> j = ref_index ref
           then zero_slot else slot rbuf j)"
    by auto
qed

lemma set_strong_rep:
  assumes "rb_rep rbuf hist" "bit (occupied rbuf) i"
  shows "rb_rep (set_strong rbuf i s) hist"
proof -
  define rb' where "rb' = set_strong rbuf i s"
  have eq: "pread rb' = pread rbuf" "rb_size rb' = rb_size rbuf" "min_visit rb' = min_visit rbuf"
    "data rb' = data rbuf" "pwrite rb' = pwrite rbuf" "ref_num rb' = ref_num rbuf"
    "slot rb' = (slot rbuf)(i := (slot rbuf i)\<lparr>strong := s\<rparr>)" "occupied rb' = occupied rbuf"
    by (simp_all add: rb'_def set_strong_def)
  note fr = frame_cong[OF eq(1-4)]
  have old: "slot_rep rbuf hist j" for j using assms(1) by (simp add: rb_rep_def)
  have "slot_rep rb' hist j" for j
    using old[of j] assms(2) unfolding slot_rep_def Let_def fr eq by (cases "j = i") simp_all
  moreover have "slot_ref_num (slot rb' j) = slot_ref_num (slot rbuf j)" for j by (simp add: eq)
  ultimately show ?thesis
    using assms(1) content_rep_cong[OF eq(1-5)] unfolding rb'_def[symmetric]
    by (simp add: rb_rep_def refs_distinct_def eq(8))
qed

text \<open>Two live packet numbers have the same position only if they are equal.\<close>

lemma pkt_pos_inj:
  assumes "content_rep rbuf hist" "pkt_pos rbuf hist c = pkt_pos rbuf hist d"
    "unat (min_visit rbuf) \<le> c" "c \<le> length hist" "unat (min_visit rbuf) \<le> d" "d \<le> length hist"
  shows "c = d"
proof -
  let ?b = "unat (min_visit rbuf)"
  have less: "off (live rbuf hist) k < rb_size rbuf" for k
    using off_le[of k "live rbuf hist"] content_rep_used[OF assms(1)] by linarith
  have "off (live rbuf hist) (c - ?b) = off (live rbuf hist) (d - ?b)"
    by (rule mod_offset_inj[OF less less, where b = "pread rbuf"]) (use assms(2) in \<open>simp add: pkt_pos_def phys_def\<close>)
  then have "c - ?b = d - ?b"
    by (rule off_inj[rotated 2]) (use assms in \<open>auto simp: length_live\<close>)
  then show ?thesis using assms by simp
qed

lemma pkt_pos_base:
  "rb_rep rbuf hist \<Longrightarrow> pkt_pos rbuf hist (unat (min_visit rbuf)) = pread rbuf"
  using rb_rep_shape[of rbuf hist] by (simp add: pkt_pos_def phys_def rb_shape_def)

text \<open>
  Eviction frees a weak slot that stands at the least read position, and it does so whenever there is
  one; nothing else changes.
\<close>

lemma evict_ref_rep:
  assumes rep: "rb_rep rbuf hist" and res: "polar_ringbuf_evict_ref rbuf = (evicted, rb')"
  shows "rb_rep rb' hist" "min_visit rb' = min_visit rbuf" "ref_num rb' = ref_num rbuf"
      "rb_size rb' = rb_size rbuf"
    and "evicted \<Longrightarrow> \<exists>i. bit (occupied rbuf) i \<and> \<not> strong (slot rbuf i) \<and>
      cursor rbuf i = unat (min_visit rbuf) \<and> slot rb' = (slot rbuf)(i := zero_slot) \<and>
      (\<forall>j. bit (occupied rb') j \<longleftrightarrow> bit (occupied rbuf) j \<and> j \<noteq> i)"
    and "\<not> evicted \<Longrightarrow> rb' = rbuf \<and>
      (\<forall>i. bit (occupied rbuf) i \<longrightarrow> \<not> strong (slot rbuf i) \<longrightarrow> cursor rbuf i > unat (min_visit rbuf))"
proof -
  obtain mv ms where scan: "bit_scan (min_visit_step (slot rbuf) (\<lambda>sl. \<not> strong sl)) (occupied rbuf)
      (UINT64_MAX, 32) = (mv, ms)" by (rule prod.exhaust)
  note low = min_visit_scan[OF scan]
  have cr: "content_rep rbuf hist" using rep by (simp add: rb_rep_def)
  let ?rb1 = "rbuf\<lparr>occupied := POLAR_BIT_RELEASE_OCCUPIED (occupied rbuf) (ms + 1),
                  slot := (slot rbuf)(ms := zero_slot)\<rparr>"
  obtain s where res': "(evicted, rb') = (if ms \<noteq> 32 \<and> pread rbuf = slot_pread (slot rbuf ms)
      then (True, ?rb1\<lparr>prs := s\<rparr>) else (False, rbuf))"
    using res by (auto simp: polar_ringbuf_evict_ref_def scan Let_def split: if_splits)
  have ms: "bit (occupied rbuf) ms" "\<not> strong (slot rbuf ms)" if "ms \<noteq> 32" using low that by auto
  have at_pread: "pread rbuf = slot_pread (slot rbuf i) \<longleftrightarrow> cursor rbuf i = unat (min_visit rbuf)"
    if "bit (occupied rbuf) i" for i
  proof -
    have "unat (min_visit rbuf) \<le> length hist" using cr by (simp add: content_rep_def)
    then show ?thesis
      using pkt_pos_inj[OF cr, of "cursor rbuf i" "unat (min_visit rbuf)"] slot_rep_cursor[OF rep that]
        pkt_pos_base[OF rep] by (metis order.refl)
  qed
  show "rb_rep rb' hist" "min_visit rb' = min_visit rbuf" "ref_num rb' = ref_num rbuf"
      "rb_size rb' = rb_size rbuf"
    using res' rep drop_slot_rep[OF rep, of ms] slot_rep_cursor(4)[OF rep ms(1)]
    by (auto split: if_splits)
  show "\<exists>i. bit (occupied rbuf) i \<and> \<not> strong (slot rbuf i) \<and>
      cursor rbuf i = unat (min_visit rbuf) \<and> slot rb' = (slot rbuf)(i := zero_slot) \<and>
      (\<forall>j. bit (occupied rb') j \<longleftrightarrow> bit (occupied rbuf) j \<and> j \<noteq> i)" if evicted
  proof (intro exI[of _ ms] conjI)
    have "ms \<noteq> 32" "pread rbuf = slot_pread (slot rbuf ms)" "rb' = ?rb1\<lparr>prs := s\<rparr>"
      using that res' by (auto split: if_splits)
    then show "bit (occupied rbuf) ms" "\<not> strong (slot rbuf ms)" "cursor rbuf ms = unat (min_visit rbuf)"
      "slot rb' = (slot rbuf)(ms := zero_slot)"
      "\<forall>j. bit (occupied rb') j \<longleftrightarrow> bit (occupied rbuf) j \<and> j \<noteq> ms"
      using ms at_pread slot_rep_cursor(4)[OF rep ms(1)] by auto
  qed
  show "rb' = rbuf \<and> (\<forall>i. bit (occupied rbuf) i \<longrightarrow> \<not> strong (slot rbuf i) \<longrightarrow>
      cursor rbuf i > unat (min_visit rbuf))" if "\<not> evicted"
  proof (intro conjI allI impI)
    show "rb' = rbuf" using that res' by (auto split: if_splits)
    fix i assume i: "bit (occupied rbuf) i" "\<not> strong (slot rbuf i)"
    have "mv \<le> visit (slot rbuf i)" using low i by blast
    then have "unat mv \<le> cursor rbuf i" by (simp add: cursor_def word_le_nat_alt)
    have "mv < UINT64_MAX" using \<open>mv \<le> _\<close> cursor_less_max[OF rep i(1)] by (rule le_less_trans)
    then have "ms \<noteq> 32" using low slot_rep_cursor(4)[OF rep, of ms] by auto
    moreover have "cursor rbuf ms \<noteq> unat (min_visit rbuf)"
      using that res' at_pread[OF ms(1)] \<open>ms \<noteq> 32\<close> by (auto split: if_splits)
    moreover have "cursor rbuf ms = unat mv" using low \<open>ms \<noteq> 32\<close> by (auto simp: cursor_def)
    ultimately show "cursor rbuf i > unat (min_visit rbuf)"
      using \<open>unat mv \<le> _\<close> slot_rep_cursor(2)[OF rep ms(1)] by linarith
  qed
qed

section \<open>Making room\<close>

lemma free_size_empty:
  assumes "rb_rep rbuf hist" "length hist \<le> unat (min_visit rbuf)"
  shows "polar_ringbuf_free_size rbuf = int (rb_size rbuf) - 1"
  using free_size_eq[of rbuf hist] assms by (simp add: rb_rep_def live_def)

text \<open>
  If the references that must not be evicted have read everything, and one reference has, then
  freeing up never waits: each turn recycles packets or evicts a weak reference.
\<close>

definition caught_up :: "polar_ringbuf_data_t \<Rightarrow> pkt list \<Rightarrow> bool" where
  "caught_up rbuf hist \<longleftrightarrow>
     (\<exists>i. bit (occupied rbuf) i \<and> cursor rbuf i = length hist) \<and>
     (\<forall>i. bit (occupied rbuf) i \<longrightarrow> strong (slot rbuf i) \<longrightarrow> cursor rbuf i = length hist)"

lemma caught_up_turn:
  assumes rep: "rb_rep rbuf hist" and cu: "caught_up rbuf hist"
    and low: "unat (min_visit rbuf) < length hist"
    and up: "polar_ringbuf_update_pread rbuf = (False, rb1)"
    and ev: "polar_ringbuf_evict_ref rbuf = (evicted, rb2)"
  shows "evicted" "caught_up rb2 hist" "card {i. bit (occupied rb2) i} < card {i. bit (occupied rbuf) i}"
proof -
  obtain e where e: "bit (occupied rbuf) e" "cursor rbuf e = length hist"
    using cu by (auto simp: caught_up_def)
  then have "occupied rbuf \<noteq> 0" by auto
  moreover have "cursor rbuf ` {i. bit (occupied rbuf) i} \<noteq> {}" using e(1) by blast
  then have "Min (cursor rbuf ` {i. bit (occupied rbuf) i}) \<in> cursor rbuf ` {i. bit (occupied rbuf) i}"
    by (intro Min_in finite_imageI finite_bits)
  ultimately have "unat (min_visit rbuf) \<in> cursor rbuf ` {i. bit (occupied rbuf) i}"
    using update_pread_rep(7,9)[OF rep up] by simp
  then obtain m where m: "bit (occupied rbuf) m" "cursor rbuf m = unat (min_visit rbuf)" by auto
  then have "\<not> strong (slot rbuf m)" using cu low by (auto simp: caught_up_def)
  then show evicted using evict_ref_rep(6)[OF rep ev] m by (metis less_irrefl)
  then obtain i where i: "bit (occupied rbuf) i" "cursor rbuf i = unat (min_visit rbuf)"
      "slot rb2 = (slot rbuf)(i := zero_slot)"
      "\<And>j. bit (occupied rb2) j \<longleftrightarrow> bit (occupied rbuf) j \<and> j \<noteq> i"
    using evict_ref_rep(5)[OF rep ev] by blast
  have "e \<noteq> i" using e(2) i(2) low by auto
  then show "caught_up rb2 hist" using cu e i(3) unfolding caught_up_def i(4) cursor_def by auto
  have "{j. bit (occupied rb2) j} \<subset> {j. bit (occupied rbuf) j}" unfolding i(4) using i(1) by blast
  then show "card {i. bit (occupied rb2) i} < card {i. bit (occupied rbuf) i}"
    by (rule psubset_card_mono[OF finite_bits])
qed

lemma free_up_loop_turn:
  "polar_ringbuf_free_size rbuf > int len \<Longrightarrow> free_up_loop wait rbuf len = Some rbuf"
  "\<not> polar_ringbuf_free_size rbuf > int len \<Longrightarrow> polar_ringbuf_update_pread rbuf = (True, rb1) \<Longrightarrow>
     free_up_loop wait rbuf len = free_up_loop wait rb1 len"
  "\<not> polar_ringbuf_free_size rbuf > int len \<Longrightarrow> polar_ringbuf_update_pread rbuf = (False, rb1) \<Longrightarrow>
     polar_ringbuf_evict_ref rb1 = (True, rb2) \<Longrightarrow> free_up_loop wait rbuf len = free_up_loop wait rb2 len"
  by (subst free_up_loop.simps, simp)+

lemma free_up_loop_returns:
  assumes "rb_rep rbuf hist" "caught_up rbuf hist" "len + 1 < rb_size rbuf"
  shows "\<exists>rb'. free_up_loop wait rbuf len = Some rb' \<and> rb_rep rb' hist \<and>
    polar_ringbuf_free_size rb' > int len \<and> ref_num rb' = ref_num rbuf \<and>
    (\<forall>i. slot rb' i = slot rbuf i \<or> \<not> strong (slot rbuf i) \<and> slot rb' i = zero_slot)"
  using assms
proof (induction "card {i. bit (occupied rbuf) i} + (length hist - unat (min_visit rbuf))"
    arbitrary: rbuf rule: less_induct)
  case less
  note rep = less.prems(1)
  show ?case
  proof (cases "polar_ringbuf_free_size rbuf > int len")
    case True
    then show ?thesis using rep free_up_loop_turn(1) by blast
  next
    case False
    then have low: "unat (min_visit rbuf) < length hist"
      using free_size_empty[OF rep] less.prems(3) by (cases "unat (min_visit rbuf) < length hist") auto
    obtain u rb1 where up: "polar_ringbuf_update_pread rbuf = (u, rb1)" by (rule prod.exhaust)
    note r1 = update_pread_rep[OF rep up]
    show ?thesis
    proof (cases u)
      case True
      have eq: "free_up_loop wait rbuf len = free_up_loop wait rb1 len"
        by (rule free_up_loop_turn(2)[OF False]) (use up True in simp)
      have cu: "caught_up rb1 hist" using less.prems(2) r1(2,3) by (simp add: caught_up_def cursor_def)
      have "unat (min_visit rbuf) < unat (min_visit rb1)" using r1(8) True by blast
      then have "card {i. bit (occupied rb1) i} + (length hist - unat (min_visit rb1))
          < card {i. bit (occupied rbuf) i} + (length hist - unat (min_visit rbuf))"
        using low r1(3) by (simp add: diff_less_mono2)
      from less.hyps[OF this r1(1) cu] show ?thesis using less.prems(3) unfolding r1(2,4,5) eq by blast
    next
      case not_u: False
      then have rb1: "rb1 = rbuf" using r1(9) by blast
      obtain e rb2 where ev: "polar_ringbuf_evict_ref rbuf = (e, rb2)" by (rule prod.exhaust)
      have "polar_ringbuf_update_pread rbuf = (False, rb1)" using up not_u by simp
      note turn = caught_up_turn[OF rep less.prems(2) low this ev]
      note r2 = evict_ref_rep[OF rep ev]
      have eq: "free_up_loop wait rbuf len = free_up_loop wait rb2 len"
        by (rule free_up_loop_turn(3)[OF False, of rbuf]) (use up not_u ev turn(1) rb1 in simp_all)
      have "card {i. bit (occupied rb2) i} + (length hist - unat (min_visit rb2))
          < card {i. bit (occupied rbuf) i} + (length hist - unat (min_visit rbuf))"
        using turn(3) r2(2) by simp
      from less.hyps[OF this r2(1) turn(2)] obtain rb' where
        rb': "free_up_loop wait rb2 len = Some rb'" "rb_rep rb' hist"
          "polar_ringbuf_free_size rb' > int len" "ref_num rb' = ref_num rb2"
          "\<forall>i. slot rb' i = slot rb2 i \<or> \<not> strong (slot rb2 i) \<and> slot rb' i = zero_slot"
        using less.prems(3) unfolding r2(4) by blast
      obtain k where "\<not> strong (slot rbuf k)" "slot rb2 = (slot rbuf)(k := zero_slot)"
        using r2(5)[OF turn(1)] by blast
      then have "slot rb2 i = slot rbuf i \<or> \<not> strong (slot rbuf i) \<and> slot rb2 i = zero_slot" for i
        by simp
      then have "\<forall>i. slot rb' i = slot rbuf i \<or> \<not> strong (slot rbuf i) \<and> slot rb' i = zero_slot"
        using rb'(5) by metis
      then show ?thesis using rb'(1-4) r2(3) unfolding eq by auto
    qed
  qed
qed

text \<open>
  Trimming a reference to a bounded backlog ends, if the packets more than the bound behind the writer
  have their lengths set: the backlog is then within the bound.
\<close>

definition has_length :: "pkt \<Rightarrow> bool" where
  "has_length p \<longleftrightarrow> (case p of Reserved _ \<Rightarrow> False | _ \<Rightarrow> True)"

lemma has_length_cases: "has_length q \<Longrightarrow> \<exists>p t. q = Filling p \<or> q = Ready t p"
  by (cases q) (auto simp: has_length_def)

text \<open>The bytes from the packet number \<open>c\<close> to the end of the log.\<close>

definition behind :: "pkt list \<Rightarrow> nat \<Rightarrow> int" where
  "behind hist c = int (length (enc_all (drop c hist)))"

lemma avail_behind:
  "rb_rep rbuf hist \<Longrightarrow> bit (occupied rbuf) (ref_index ref) \<Longrightarrow> polar_ringbuf_avail rbuf ref = behind hist (cursor rbuf (ref_index ref))"
  by (simp add: avail_eq behind_def)

lemma keep_data_loop_returns:
  assumes "rb_rep rbuf hist" "bit (occupied rbuf) (ref_index ref)" "0 \<le> keep"
    and "\<And>c. c < length hist \<Longrightarrow> behind hist c > keep \<Longrightarrow> has_length (hist ! c)"
  shows "\<exists>rb' u'. ref_keep_data_loop rbuf ref keep u = Some (rb', u') \<and> rb_rep rb' hist \<and>
    polar_ringbuf_avail rb' ref \<le> keep \<and> bit (occupied rb') (ref_index ref) \<and> occupied rb' = occupied rbuf
    \<and> (polar_ringbuf_avail rbuf ref > keep \<longrightarrow> u' \<and> cursor rbuf (ref_index ref) < cursor rb' (ref_index ref))"
  using assms(1,2)
proof (induction "length hist - cursor rbuf (ref_index ref)" arbitrary: rbuf u rule: less_induct)
  case less
  let ?i = "ref_index ref"
  show ?case
  proof (cases "polar_ringbuf_avail rbuf ref > keep")
    case True
    then have c: "cursor rbuf ?i < length hist" using avail_pos_iff[OF less.prems] assms(3) by simp
    have "has_length (hist ! cursor rbuf ?i)" using assms(4)[OF c] True avail_behind[OF less.prems] by simp
    then obtain p t where p: "hist ! cursor rbuf ?i = Filling p \<or> hist ! cursor rbuf ?i = Ready t p"
      using has_length_cases by blast
    let ?rb = "polar_ringbuf_update_ref rbuf ref"
    note up = update_ref_rep[OF less.prems c p]
    have occ: "occupied ?rb = occupied rbuf" by (simp add: polar_ringbuf_update_ref_def Let_def)
    have lt: "length hist - cursor ?rb ?i < length hist - cursor rbuf ?i" using c up(2)[of ?i] by simp
    obtain rb' u' where rb': "ref_keep_data_loop ?rb ref keep True = Some (rb', u')" "rb_rep rb' hist"
      "polar_ringbuf_avail rb' ref \<le> keep" "bit (occupied rb') ?i" "occupied rb' = occupied ?rb"
      "polar_ringbuf_avail ?rb ref > keep \<longrightarrow> u' \<and> cursor ?rb ?i < cursor rb' ?i"
      using less.hyps[OF lt up(1), of True] less.prems(2) occ by auto
    have e: "ref_keep_data_loop rbuf ref keep u = ref_keep_data_loop ?rb ref keep True"
      using True by (subst ref_keep_data_loop.simps) simp
    have "u' \<and> cursor rbuf ?i < cursor rb' ?i"
    proof (cases "polar_ringbuf_avail ?rb ref > keep")
      case True
      then show ?thesis using rb'(6) up(2)[of ?i] by simp
    next
      case False
      then have "(rb', u') = (?rb, True)" using rb'(1) by (subst (asm) ref_keep_data_loop.simps) simp
      then show ?thesis using up(2)[of ?i] by simp
    qed
    then show ?thesis using e rb'(1-5) occ by auto
  next
    case False
    then have "ref_keep_data_loop rbuf ref keep u = Some (rbuf, u)"
      by (subst ref_keep_data_loop.simps) simp
    then show ?thesis using less.prems False by auto
  qed
qed

end
