(* ===== verification/Polar_Ring_Log.thy ===== *)
theory Polar_Ring_Log
  imports Polar_Ring_Steps
begin

text \<open>
  The ring buffer as a state machine. \<open>ring_step\<close> has one rule per operation, guarded by the
  conditions under which the callers use it; the packet log is auxiliary state. An operation that runs
  under the lock of the buffer is one step. Reserving is one step since its callers hold the lock of the
  writers; setting the length, writing the payload and publishing are steps of their own, as are the
  turns of the loop that trims a reference. \<open>ring_op\<close> adds the reset of the buffer at a promotion, which
  forgets the packets that are not recycled. Every reachable state is represented by its log, a packet
  that has not been published is never recycled, published packets stay until a reset, and a reference
  that was dropped never matches again.
\<close>

section \<open>Steps\<close>

fun is_ready :: "pkt \<Rightarrow> bool" where
  "is_ready (Ready t p) = True"
| "is_ready _ = False"

type_synonym ring_state = "polar_ringbuf_data_t \<times> pkt list"

text \<open>
  Trimming a reference to \<open>keep\<close> bytes skips packets without looking at their flags. The packets more than
  \<open>keep\<close> bytes behind the writer have to be published for this to be safe; nothing in the code makes sure
  of it, so that it is a condition of the step.
\<close>

definition recent :: "pkt list \<Rightarrow> int \<Rightarrow> bool" where
  "recent hist keep \<longleftrightarrow> (\<forall>c < length hist. is_ready (hist ! c) \<or> behind hist c \<le> keep)"

inductive ring_step :: "ring_state \<Rightarrow> ring_state \<Rightarrow> bool" where
  reserve: "int len \<le> polar_ringbuf_free_size rb \<Longrightarrow> 5 \<le> len \<Longrightarrow> length hist + 1 < 2 ^ 64 - 1 \<Longrightarrow>
    polar_ringbuf_pkt_reserve rb len = (idx, rb') \<Longrightarrow>
    raw = ring_copy_out rb' ((idx + 1) mod rb_size rb') (len - 1) \<Longrightarrow>
    ring_step (rb, hist) (rb', hist @ [Reserved raw])"
| set_length: "c < length hist \<Longrightarrow> hist ! c = Reserved raw \<Longrightarrow> length raw = unat len + 4 \<Longrightarrow>
    ring_step (rb, hist) (polar_ringbuf_set_pkt_length rb (pkt_pos rb hist c) len,
      hist[c := Filling (drop 4 raw)])"
| fill: "c < length hist \<Longrightarrow> hist ! c = Filling p \<Longrightarrow>
    polar_ringbuf_pkt_write rb (pkt_pos rb hist c) offset buf = Some rb' \<Longrightarrow>
    ring_step (rb, hist) (rb', hist[c := Filling (mem_write p offset buf)])"
| publish: "c < length hist \<Longrightarrow> hist ! c = Filling p \<Longrightarrow> t AND 1 = 1 \<Longrightarrow>
    ring_step (rb, hist) (polar_ringbuf_set_pkt_flag rb (pkt_pos rb hist c) t, hist[c := Ready t p])"
| advance: "RINGBUF_REF_MATCH rb ref \<Longrightarrow> ref_ref_num ref \<noteq> 0 \<Longrightarrow> polar_ringbuf_avail rb ref > 0 \<Longrightarrow>
    fst (polar_ringbuf_next_ready_pkt rb ref) \<noteq> POLAR_RINGBUF_PKT_INVALID_TYPE \<Longrightarrow>
    ring_step (rb, hist) (polar_ringbuf_update_ref rb ref, hist)"
| new_ref: "ref_num rb < UINT64_MAX \<Longrightarrow>
    polar_ringbuf_new_ref rb strg ref nm = (ok, rb', ref') \<Longrightarrow> ring_step (rb, hist) (rb', hist)"
| release_ref: "ref_ref_num ref \<noteq> 0 \<Longrightarrow> polar_ringbuf_release_ref rb ref = (rb', ref') \<Longrightarrow>
    ring_step (rb, hist) (rb', hist)"
| get_ref: "ref_ref_num ref \<noteq> 0 \<Longrightarrow> polar_ringbuf_get_ref rb ref = (ok, rb') \<Longrightarrow>
    ring_step (rb, hist) (rb', hist)"
| clear_ref: "ref_ref_num ref \<noteq> 0 \<Longrightarrow> polar_ringbuf_clear_ref rb ref = (ok, rb') \<Longrightarrow>
    ring_step (rb, hist) (rb', hist)"
| recycle: "polar_ringbuf_update_pread rb = (updated, rb') \<Longrightarrow> ring_step (rb, hist) (rb', hist)"
| evict: "polar_ringbuf_evict_ref rb = (evicted, rb') \<Longrightarrow> ring_step (rb, hist) (rb', hist)"
| skip: "RINGBUF_REF_MATCH rb ref \<Longrightarrow> ref_ref_num ref \<noteq> 0 \<Longrightarrow> 0 \<le> keep \<Longrightarrow> polar_ringbuf_avail rb ref > keep \<Longrightarrow>
    recent hist keep \<Longrightarrow> ring_step (rb, hist) (polar_ringbuf_update_ref rb ref, hist)"
| stat_reset: "ring_step (rb, hist) (polar_prs_stat_reset rb, hist)"

text \<open>A reset needs that no slot is occupied; it is used when nobody writes.\<close>

inductive ring_op :: "ring_state \<Rightarrow> ring_state \<Rightarrow> bool" where
  step: "ring_step s s' \<Longrightarrow> ring_op s s'"
| reset: "polar_ringbuf_reset rb = Some rb' \<Longrightarrow> (\<forall>q \<in> set hist. is_ready q) \<Longrightarrow>
    ring_op (rb, hist) (rb', take (unat (min_visit rb)) hist)"

section \<open>Invariant\<close>

text \<open>Besides the representation: every packet that has been recycled or read was published.\<close>

definition ring_inv :: "ring_state \<Rightarrow> bool" where
  "ring_inv s \<longleftrightarrow> (case s of (rb, hist) \<Rightarrow> rb_rep rb hist \<and>
     (\<forall>c < unat (min_visit rb). is_ready (hist ! c)) \<and>
     (\<forall>i. bit (occupied rb) i \<longrightarrow> (\<forall>c < cursor rb i. is_ready (hist ! c))))"

lemma ring_invD:
  assumes "ring_inv (rb, hist)"
  shows "rb_rep rb hist" "c < length hist \<Longrightarrow> \<not> is_ready (hist ! c) \<Longrightarrow> unat (min_visit rb) \<le> c"
  using assms by (auto simp: ring_inv_def not_less[symmetric])

text \<open>A change of an unpublished packet leaves the published ones alone.\<close>

lemma ring_inv_update:
  assumes inv: "ring_inv (rb, hist)" and c: "c < length hist" "\<not> is_ready (hist ! c)"
    and rep: "rb_rep rb' (hist[c := q])"
    and fr: "occupied rb' = occupied rb" "slot rb' = slot rb" "min_visit rb' = min_visit rb"
  shows "ring_inv (rb', hist[c := q])"
proof -
  have "is_ready (hist[c := q] ! d)" if "is_ready (hist ! d)" for d
    using that c by (cases "d = c") auto
  then show ?thesis using inv rep by (auto simp: ring_inv_def fr cursor_def)
qed

text \<open>A change that drops slots or keeps their cursors, and recycles at most up to a cursor.\<close>

lemma ring_inv_slots:
  assumes inv: "ring_inv (rb, hist)" and rep: "rb_rep rb' hist"
    and "\<And>i. bit (occupied rb') i \<Longrightarrow>
      bit (occupied rb) i \<and> cursor rb' i = cursor rb i \<or> cursor rb' i = unat (min_visit rb)"
    and "unat (min_visit rb') = unat (min_visit rb) \<or>
      (\<exists>i. bit (occupied rb) i \<and> unat (min_visit rb') = cursor rb i)"
  shows "ring_inv (rb', hist)"
  using assms unfolding ring_inv_def by fastforce

lemma writer_frame [simp]:
  "slot (polar_ringbuf_set_pkt_length rb idx len) = slot rb"
  "occupied (polar_ringbuf_set_pkt_length rb idx len) = occupied rb"
  "min_visit (polar_ringbuf_set_pkt_length rb idx len) = min_visit rb"
  "ref_num (polar_ringbuf_set_pkt_length rb idx len) = ref_num rb"
  "slot (polar_ringbuf_set_pkt_flag rb idx t) = slot rb"
  "occupied (polar_ringbuf_set_pkt_flag rb idx t) = occupied rb"
  "min_visit (polar_ringbuf_set_pkt_flag rb idx t) = min_visit rb"
  "ref_num (polar_ringbuf_set_pkt_flag rb idx t) = ref_num rb"
  by (simp_all add: polar_ringbuf_set_pkt_length_def polar_ringbuf_set_pkt_flag_def)

lemma pkt_write_frame:
  assumes "polar_ringbuf_pkt_write rb idx offset buf = Some rb'"
  shows "slot rb' = slot rb" "occupied rb' = occupied rb" "min_visit rb' = min_visit rb"
    "ref_num rb' = ref_num rb"
  using assms by (auto simp: polar_ringbuf_pkt_write_def Let_def split: if_splits)

lemma reserve_frame:
  assumes "polar_ringbuf_pkt_reserve rb len = (idx, rb')"
  shows "slot rb' = slot rb" "occupied rb' = occupied rb" "min_visit rb' = min_visit rb"
    "ref_num rb' = ref_num rb" "rb_size rb' = rb_size rb"
  using assms by (auto simp: polar_ringbuf_pkt_reserve_def Let_def)

text \<open>The raw bytes of a freshly reserved packet are those of its range in the data area.\<close>

lemma reserve_raw:
  assumes "rb_rep rb' (hist @ [Reserved raw])" "idx = pkt_pos rb' (hist @ [Reserved raw]) (length hist)"
    and "unat (min_visit rb') \<le> length hist"
  shows "ring_copy_out rb' ((idx + 1) mod rb_size rb') (length raw) = raw"
proof -
  have "content_rep rb' (hist @ [Reserved raw])" using assms(1) by (simp add: rb_rep_def)
  from pkt_bytes_at[OF this assms(3), of 1 "length raw"] show ?thesis
    using assms(2) by simp
qed

lemma reserve_step_rep:
  assumes rep: "rb_rep rb hist" and "int len \<le> polar_ringbuf_free_size rb" "5 \<le> len"
    "length hist + 1 < 2 ^ 64 - 1" and res: "polar_ringbuf_pkt_reserve rb len = (idx, rb')"
  defines "raw \<equiv> ring_copy_out rb' ((idx + 1) mod rb_size rb') (len - 1)"
  shows "rb_rep rb' (hist @ [Reserved raw])" "length raw = len - 1"
    "idx = pkt_pos rb' (hist @ [Reserved raw]) (length hist)"
proof -
  from reserve_rep[OF rep assms(2-4) res] obtain r where
    r: "length r = len - 1" "rb_rep rb' (hist @ [Reserved r])"
       "idx = pkt_pos rb' (hist @ [Reserved r]) (length hist)" by blast
  have "unat (min_visit rb') \<le> length hist"
    using rep reserve_frame(3)[OF res] by (simp add: rb_rep_def content_rep_def)
  then have "raw = r" using reserve_raw[OF r(2,3)] r(1) by (simp add: raw_def)
  then show "rb_rep rb' (hist @ [Reserved raw])" "length raw = len - 1"
    "idx = pkt_pos rb' (hist @ [Reserved raw]) (length hist)" using r by simp_all
qed

lemma advance_ready:
  assumes "rb_rep rb hist" "RINGBUF_REF_MATCH rb ref" "ref_ref_num ref \<noteq> 0"
    "polar_ringbuf_avail rb ref > 0" "fst (polar_ringbuf_next_ready_pkt rb ref) \<noteq> 0"
  shows "bit (occupied rb) (ref_index ref)" "cursor rb (ref_index ref) < length hist"
    "\<exists>t p. hist ! cursor rb (ref_index ref) = Ready t p"
proof -
  show occ: "bit (occupied rb) (ref_index ref)" using match_occupied assms by blast
  then show c: "cursor rb (ref_index ref) < length hist" using avail_pos_iff assms by blast
  show "\<exists>t p. hist ! cursor rb (ref_index ref) = Ready t p"
    using next_ready_rep[OF assms(1) occ c] assms(5) by (auto split: pkt.splits)
qed

lemma update_pread_min:
  assumes "rb_rep rb hist" "polar_ringbuf_update_pread rb = (u, rb')"
  shows "unat (min_visit rb') = unat (min_visit rb) \<or>
    (\<exists>i. bit (occupied rb) i \<and> unat (min_visit rb') = cursor rb i)"
proof (cases "occupied rb = 0")
  case False
  then have "{i. bit (occupied rb) i} \<noteq> {}" by (auto simp: word_eq_0_bits)
  then have "Min (cursor rb ` {i. bit (occupied rb) i}) \<in> cursor rb ` {i. bit (occupied rb) i}"
    by (intro Min_in finite_imageI finite_bits) simp
  then show ?thesis using update_pread_rep(7)[OF assms False] by auto
qed (use update_pread_rep(6)[OF assms] in simp)

lemma release_ref_slots:
  assumes rep: "rb_rep rb hist" and res: "polar_ringbuf_release_ref rb ref = (rb', ref')"
  shows "(\<forall>i. bit (occupied rb') i \<longrightarrow> bit (occupied rb) i \<and> slot rb' i = slot rb i) \<and>
    (unat (min_visit rb') = unat (min_visit rb) \<or>
      (\<exists>i. bit (occupied rb) i \<and> unat (min_visit rb') = cursor rb i))"
proof (cases "ref_rbuf ref \<and> RINGBUF_REF_MATCH rb ref")
  case True
  let ?i = "ref_index ref"
  let ?rb1 = "rb\<lparr>occupied := POLAR_BIT_RELEASE_OCCUPIED (occupied rb) (?i + 1),
                slot := (slot rb)(?i := zero_slot)\<rparr>"
  have i: "?i < 32" using True by (auto simp: RINGBUF_REF_MATCH_def)
  have rep1: "rb_rep ?rb1 hist" by (rule drop_slot_rep[OF rep i])
  obtain u where up: "polar_ringbuf_update_pread ?rb1 = (u, rb')"
    using res True by (auto simp: polar_ringbuf_release_ref_def Let_def prod_eq_iff)
  have occ: "bit (occupied ?rb1) j \<longleftrightarrow> bit (occupied rb) j \<and> j \<noteq> ?i" for j using i by simp
  have cur: "cursor ?rb1 j = cursor rb j" if "j \<noteq> ?i" for j using that by (simp add: cursor_def)
  show ?thesis
    using update_pread_min[OF rep1 up] update_pread_rep(2,3)[OF rep1 up] occ cur by auto
next
  case False
  then show ?thesis using res by (auto simp: polar_ringbuf_release_ref_def Let_def split: if_splits)
qed

text \<open>Each operation keeps the invariant: writers, the reader, and the management of references.\<close>

lemma reserve_inv:
  assumes inv: "ring_inv (rb, hist)" and "int len \<le> polar_ringbuf_free_size rb" "5 \<le> len"
    "length hist + 1 < 2 ^ 64 - 1" "polar_ringbuf_pkt_reserve rb len = (idx, rb')"
    "raw = ring_copy_out rb' ((idx + 1) mod rb_size rb') (len - 1)"
  shows "ring_inv (rb', hist @ [Reserved raw])"
proof -
  note r = reserve_step_rep[OF ring_invD(1)[OF inv] assms(2-5), folded assms(6)]
  note fr = reserve_frame[OF assms(5)]
  have "unat (min_visit rb) \<le> length hist" "\<And>i. bit (occupied rb) i \<Longrightarrow> cursor rb i \<le> length hist"
    using ring_invD(1)[OF inv] slot_rep_cursor(3) by (auto simp: rb_rep_def content_rep_def)
  then show ?thesis
    using inv r(1) by (auto simp: ring_inv_def fr cursor_def nth_append) (meson less_le_trans)
qed

lemma writer_inv:
  assumes inv: "ring_inv (rb, hist)" and c: "c < length hist"
  shows "hist ! c = Reserved raw \<Longrightarrow> length raw = unat len + 4 \<Longrightarrow>
      ring_inv (polar_ringbuf_set_pkt_length rb (pkt_pos rb hist c) len, hist[c := Filling (drop 4 raw)])"
    and "hist ! c = Filling p \<Longrightarrow> polar_ringbuf_pkt_write rb (pkt_pos rb hist c) offset buf = Some rb' \<Longrightarrow>
      ring_inv (rb', hist[c := Filling (mem_write p offset buf)])"
    and "hist ! c = Filling p \<Longrightarrow> t AND 1 = 1 \<Longrightarrow>
      ring_inv (polar_ringbuf_set_pkt_flag rb (pkt_pos rb hist c) t, hist[c := Ready t p])"
proof -
  note rep = ring_invD(1)[OF inv] and live = ring_invD(2)[OF inv c] and upd = ring_inv_update[OF inv c]
  { assume h: "hist ! c = Reserved raw" "length raw = unat len + 4"
    show "ring_inv (polar_ringbuf_set_pkt_length rb (pkt_pos rb hist c) len, hist[c := Filling (drop 4 raw)])"
      by (rule upd) (use h set_length_rep[OF rep live c h] in simp_all) }
  { assume h: "hist ! c = Filling p" "polar_ringbuf_pkt_write rb (pkt_pos rb hist c) offset buf = Some rb'"
    show "ring_inv (rb', hist[c := Filling (mem_write p offset buf)])"
      by (rule upd) (use h pkt_write_rep(2)[OF rep live c h] in \<open>simp_all add: pkt_write_frame[OF h(2)]\<close>) }
  { assume h: "hist ! c = Filling p" "t AND 1 = 1"
    show "ring_inv (polar_ringbuf_set_pkt_flag rb (pkt_pos rb hist c) t, hist[c := Ready t p])"
      by (rule upd) (use h set_flag_rep[OF rep live c h] in simp_all) }
qed

lemma update_ref_inv:
  assumes inv: "ring_inv (rb, hist)"
    and a: "bit (occupied rb) (ref_index ref)" "cursor rb (ref_index ref) < length hist"
      "\<exists>t p. hist ! cursor rb (ref_index ref) = Ready t p"
  shows "ring_inv (polar_ringbuf_update_ref rb ref, hist)"
proof -
  note rep = ring_invD(1)[OF inv]
  obtain t p where p: "hist ! cursor rb (ref_index ref) = Ready t p" using a(3) by blast
  let ?rb' = "polar_ringbuf_update_ref rb ref"
  have up: "rb_rep ?rb' hist"
    "\<And>i. cursor ?rb' i = (if i = ref_index ref then cursor rb i + 1 else cursor rb i)"
    using update_ref_rep[OF rep a(1,2), of p t] p by auto
  have fr: "occupied ?rb' = occupied rb" "min_visit ?rb' = min_visit rb"
    by (simp_all add: polar_ringbuf_update_ref_def Let_def)
  show ?thesis using inv up p a(1) by (auto simp: ring_inv_def fr less_Suc_eq)
qed

lemma advance_inv:
  assumes inv: "ring_inv (rb, hist)" and "RINGBUF_REF_MATCH rb ref" "ref_ref_num ref \<noteq> 0"
    "polar_ringbuf_avail rb ref > 0" "fst (polar_ringbuf_next_ready_pkt rb ref) \<noteq> 0"
  shows "ring_inv (polar_ringbuf_update_ref rb ref, hist)"
  by (rule update_ref_inv[OF inv advance_ready[OF ring_invD(1)[OF inv] assms(2-5)]])

lemma skip_ready:
  assumes "rb_rep rb hist" "RINGBUF_REF_MATCH rb ref" "ref_ref_num ref \<noteq> 0" "0 \<le> keep"
    "polar_ringbuf_avail rb ref > keep" "recent hist keep"
  shows "bit (occupied rb) (ref_index ref)" "cursor rb (ref_index ref) < length hist"
    "\<exists>t p. hist ! cursor rb (ref_index ref) = Ready t p"
proof -
  show occ: "bit (occupied rb) (ref_index ref)" using match_occupied assms by blast
  show c: "cursor rb (ref_index ref) < length hist" using avail_pos_iff[OF assms(1) occ] assms(4,5) by simp
  have "is_ready (hist ! cursor rb (ref_index ref))"
    using assms(5,6) c avail_behind[OF assms(1) occ] by (auto simp: recent_def)
  then show "\<exists>t p. hist ! cursor rb (ref_index ref) = Ready t p" by (cases "hist ! cursor rb (ref_index ref)") auto
qed

lemma skip_inv:
  assumes inv: "ring_inv (rb, hist)" and "RINGBUF_REF_MATCH rb ref" "ref_ref_num ref \<noteq> 0" "0 \<le> keep"
    "polar_ringbuf_avail rb ref > keep" "recent hist keep"
  shows "ring_inv (polar_ringbuf_update_ref rb ref, hist)"
  by (rule update_ref_inv[OF inv skip_ready[OF ring_invD(1)[OF inv] assms(2-6)]])

lemma stat_reset_inv: "ring_inv (rb, hist) \<Longrightarrow> ring_inv (polar_prs_stat_reset rb, hist)"
  by (simp add: ring_inv_def polar_prs_stat_reset_def cursor_def)

lemma reset_inv:
  assumes inv: "ring_inv (rb, hist)" and res: "polar_ringbuf_reset rb = Some rb'"
  shows "ring_inv (rb', take (unat (min_visit rb)) hist)"
proof -
  note rep = ring_invD(1)[OF inv]
  let ?h = "take (unat (min_visit rb)) hist"
  have rb': "rb' = rb\<lparr>pread := 0, pwrite := 0\<rparr>" and occ: "occupied rb = 0"
    using res by (auto simp: polar_ringbuf_reset_def split: if_splits)
  have cr: "content_rep rb hist" using rep by (simp add: rb_rep_def)
  then have n: "unat (min_visit rb) \<le> length hist" "length hist < 2 ^ 64 - 1" "rb_shape rb" by (simp_all add: content_rep_def)
  have "content_rep rb' ?h"
    using n by (simp add: content_rep_def rb' live_def rb_shape_def lview_def phys_def) (metis length_0_conv not_less0)
  moreover have "slot rb i = zero_slot" for i using not_occupied_zero[OF rep] occ by simp
  then have "slot_rep rb' ?h i" for i by (simp add: slot_rep_def rb' occ)
  ultimately show ?thesis
    using inv n(1) occ by (auto simp: ring_inv_def rb_rep_def refs_distinct_def rb')
qed

lemma new_ref_inv:
  assumes inv: "ring_inv (rb, hist)" and "ref_num rb < UINT64_MAX"
    "polar_ringbuf_new_ref rb strg ref nm = (ok, rb', ref')"
  shows "ring_inv (rb', hist)"
proof -
  note n = new_ref_rep[OF ring_invD(1)[OF inv] assms(2,3)]
  show ?thesis
  proof (cases ok)
    case True
    have "min_visit rb' = min_visit rb" "\<And>i. bit (occupied rb') i \<Longrightarrow> i \<noteq> ref_index ref' \<Longrightarrow> bit (occupied rb) i"
      using assms(3) True by (auto simp: polar_ringbuf_new_ref_def Let_def split: if_splits)
    then show ?thesis
      using n(4)[OF True] by (intro ring_inv_slots[OF inv n(1)]) (auto simp: cursor_def, metis)
  qed (use n(3) inv in simp)
qed

lemma release_ref_inv:
  assumes inv: "ring_inv (rb, hist)" and "ref_ref_num ref \<noteq> 0" "polar_ringbuf_release_ref rb ref = (rb', ref')"
  shows "ring_inv (rb', hist)"
  using release_ref_slots[OF ring_invD(1)[OF inv] assms(3)]
  by (intro ring_inv_slots[OF inv release_ref_rep(1)[OF ring_invD(1)[OF inv] assms(2,3)]])
    (auto simp: cursor_def)

lemma set_strong_inv:
  assumes inv: "ring_inv (rb, hist)" and "RINGBUF_REF_MATCH rb ref" "ref_ref_num ref \<noteq> 0"
  shows "ring_inv (set_strong rb (ref_index ref) b, hist)"
  using inv set_strong_rep[OF ring_invD(1)[OF inv] match_occupied[OF ring_invD(1)[OF inv] assms(2,3)]]
  by (auto simp: set_strong_def cursor_def ring_inv_def)

lemma recycle_inv:
  assumes inv: "ring_inv (rb, hist)" and up: "polar_ringbuf_update_pread rb = (updated, rb')"
  shows "ring_inv (rb', hist)"
  using update_pread_min[OF ring_invD(1)[OF inv] up] update_pread_rep(2,3)[OF ring_invD(1)[OF inv] up]
  by (intro ring_inv_slots[OF inv update_pread_rep(1)[OF ring_invD(1)[OF inv] up]]) (auto simp: cursor_def)

lemma evict_inv:
  assumes inv: "ring_inv (rb, hist)" and up: "polar_ringbuf_evict_ref rb = (evicted, rb')"
  shows "ring_inv (rb', hist)"
proof -
  note ev = evict_ref_rep[OF ring_invD(1)[OF inv] up]
  show ?thesis
  proof (cases evicted)
    case True
    obtain k where k: "slot rb' = (slot rb)(k := zero_slot)"
        "\<And>j. bit (occupied rb') j \<longleftrightarrow> bit (occupied rb) j \<and> j \<noteq> k"
      using ev(5)[OF True] by blast
    show ?thesis
      by (rule ring_inv_slots[OF inv ev(1)]) (simp_all add: cursor_def k ev(2))
  qed (use ev(6) inv in simp)
qed

lemma ring_step_inv: "ring_step s s' \<Longrightarrow> ring_inv s \<Longrightarrow> ring_inv s'"
proof (induction rule: ring_step.induct)
  case (get_ref ref rb ok rb' hist)
  then show ?case using set_strong_inv[OF get_ref.prems _ get_ref(1)]
    by (auto simp: polar_ringbuf_get_ref_def split: if_splits)
next
  case (clear_ref ref rb ok rb' hist)
  then show ?case using set_strong_inv[OF clear_ref.prems _ clear_ref(1)]
    by (auto simp: polar_ringbuf_clear_ref_def split: if_splits)
qed (blast intro: reserve_inv writer_inv advance_inv new_ref_inv release_ref_inv recycle_inv evict_inv
    skip_inv stat_reset_inv)+

lemma ring_op_inv: "ring_op s s' \<Longrightarrow> ring_inv s \<Longrightarrow> ring_inv s'"
  by (induction rule: ring_op.induct) (auto intro: ring_step_inv reset_inv)

lemma ring_ops_inv: "ring_op\<^sup>*\<^sup>* s s' \<Longrightarrow> ring_inv s \<Longrightarrow> ring_inv s'"
  by (induction rule: rtranclp_induct) (auto intro: ring_op_inv)

section \<open>The initial state\<close>

text \<open>The queue's shared memory is cleared before \<open>polar_ringbuf_init\<close> runs on it.\<close>

definition zeroed :: "polar_ringbuf_data_t \<Rightarrow> nat \<Rightarrow> bool" where
  "zeroed mem n \<longleftrightarrow> min_visit mem = 0 \<and> ref_num mem = 0 \<and> data mem = replicate n 0"

lemma ring_inv_init:
  assumes "zeroed mem (len - data_off)" "data_off < len"
  shows "ring_inv (polar_ringbuf_init mem len data_off, [])"
proof -
  let ?rb = "polar_ringbuf_init mem len data_off"
  have f: "pread ?rb = 0" "pwrite ?rb = 0" "rb_size ?rb = len - data_off" "occupied ?rb = 0"
    "min_visit ?rb = 0" "data ?rb = replicate (len - data_off) 0" "slot ?rb i = zero_slot" for i
    using assms by (simp_all add: polar_ringbuf_init_def zeroed_def)
  have "lview ?rb = replicate (len - data_off) 0" by (simp add: lview_def f)
  then have "content_rep ?rb []"
    using assms(2) by (simp add: content_rep_def rb_shape_def f live_def phys_def)
  then show ?thesis by (simp add: ring_inv_def rb_rep_def slot_rep_def refs_distinct_def f)
qed

section \<open>What a run keeps\<close>

text \<open>Packets that are published stay as they are.\<close>

definition published_le :: "pkt list \<Rightarrow> pkt list \<Rightarrow> bool" where
  "published_le h h' \<longleftrightarrow> length h \<le> length h' \<and> (\<forall>c < length h. is_ready (h ! c) \<longrightarrow> h' ! c = h ! c)"


lemma ring_step_published: "ring_step s s' \<Longrightarrow> published_le (snd s) (snd s')"
  by (induction rule: ring_step.induct) (auto simp: published_le_def nth_append nth_list_update)


lemma ring_steps_inv: "ring_step\<^sup>*\<^sup>* s s' \<Longrightarrow> ring_inv s \<Longrightarrow> ring_inv s'"
  by (induction rule: rtranclp_induct) (auto intro: ring_step_inv)

text \<open>The position of a live packet does not change, so the index its writer holds stays right.\<close>

lemma pkt_pos_cong:
  assumes "pread rb' = pread rb" "rb_size rb' = rb_size rb" "min_visit rb' = min_visit rb"
  shows "pkt_pos rb' hist c = pkt_pos rb hist c"
  using assms by (simp add: pkt_pos_def phys_def live_def)

lemma pkt_pos_update:
  assumes "unat (min_visit rb) \<le> d" "d < length hist" "length (enc q) = length (enc (hist ! d))"
  shows "pkt_pos rb (hist[d := q]) c = pkt_pos rb hist c"
proof -
  have "off ((live rb hist)[d - unat (min_visit rb) := q]) k = off (live rb hist) k" for k
    using assms by (intro off_update) (auto simp: length_live live_nth)
  then show ?thesis using assms(1) by (simp add: pkt_pos_def live_update)
qed

lemma pkt_pos_append: "c \<le> length hist \<Longrightarrow> pkt_pos rb (hist @ [q]) c = pkt_pos rb hist c"
  by (simp add: pkt_pos_def live_def)

lemma release_ref_pos:
  assumes rep: "rb_rep rb hist" and res: "polar_ringbuf_release_ref rb ref = (rb', ref')"
    and c: "unat (min_visit rb') \<le> c"
  shows "pkt_pos rb' hist c = pkt_pos rb hist c"
proof (cases "ref_rbuf ref \<and> RINGBUF_REF_MATCH rb ref")
  case True
  let ?i = "ref_index ref"
  let ?rb1 = "rb\<lparr>occupied := POLAR_BIT_RELEASE_OCCUPIED (occupied rb) (?i + 1),
                slot := (slot rb)(?i := zero_slot)\<rparr>"
  have "?i < 32" using True by (auto simp: RINGBUF_REF_MATCH_def)
  then have rep1: "rb_rep ?rb1 hist" by (rule drop_slot_rep[OF rep])
  obtain u where up: "polar_ringbuf_update_pread ?rb1 = (u, rb')"
    using res True by (auto simp: polar_ringbuf_release_ref_def Let_def prod_eq_iff)
  show ?thesis using update_pread_rep(10)[OF rep1 up c] pkt_pos_cong[of ?rb1 rb hist c] by simp
next
  case False
  then show ?thesis using res by (auto simp: polar_ringbuf_release_ref_def Let_def split: if_splits)
qed

lemma ring_step_pos:
  assumes "ring_step (rb, hist) (rb', hist')" "ring_inv (rb, hist)"
    "c < length hist" "unat (min_visit rb') \<le> c"
  shows "pkt_pos rb' hist' c = pkt_pos rb hist c"
  using assms
proof (induction "(rb, hist)" "(rb', hist')" arbitrary: rb hist rb' hist' rule: ring_step.induct)
  case (reserve len rb hist idx rb' raw)
  have "pread rb' = pread rb" "rb_size rb' = rb_size rb" "min_visit rb' = min_visit rb"
    using reserve(4) by (auto simp: polar_ringbuf_pkt_reserve_def Let_def)
  then show ?case using reserve.prems(2) pkt_pos_cong[of rb' rb] by (simp add: pkt_pos_append)
next
  case (set_length d hist raw len rb)
  have "unat (min_visit rb) \<le> d" using ring_invD(2)[OF set_length.prems(1) set_length(1)] set_length(2) by simp
  then have "pkt_pos rb (hist[d := Filling (drop 4 raw)]) c = pkt_pos rb hist c"
    using set_length(1-3) by (intro pkt_pos_update) auto
  then show ?case by (subst pkt_pos_cong[where rb = rb]) (simp_all add: polar_ringbuf_set_pkt_length_def)
next
  case (fill d hist p rb offset buf rb')
  have d: "unat (min_visit rb) \<le> d" using ring_invD(2)[OF fill.prems(1) fill(1)] fill(2) by simp
  have "polar_ringbuf_pkt_write rb (pkt_pos rb hist d) offset buf \<noteq> None" using fill(3) by simp
  then have "offset + length buf \<le> length p"
    using pkt_write_rep(1)[OF ring_invD(1)[OF fill.prems(1)] d fill(1,2)] by simp
  then have "pkt_pos rb (hist[d := Filling (mem_write p offset buf)]) c = pkt_pos rb hist c"
    using fill(1,2) d by (intro pkt_pos_update) auto
  moreover have "pread rb' = pread rb" "rb_size rb' = rb_size rb" "min_visit rb' = min_visit rb"
    using fill(3) by (auto simp: polar_ringbuf_pkt_write_def Let_def split: if_splits)
  ultimately show ?case by (subst pkt_pos_cong[where rb = rb]) simp_all
next
  case (publish d hist p t rb)
  have "unat (min_visit rb) \<le> d" using ring_invD(2)[OF publish.prems(1) publish(1)] publish(2) by simp
  then have "pkt_pos rb (hist[d := Ready t p]) c = pkt_pos rb hist c"
    using publish(1,2) by (intro pkt_pos_update) auto
  then show ?case by (subst pkt_pos_cong[where rb = rb]) (simp_all add: polar_ringbuf_set_pkt_flag_def)
next
  case (release_ref ref rb rb' ref' hist)
  then show ?case by (intro release_ref_pos[OF ring_invD(1)]) simp_all
next
  case (recycle rb updated rb' hist)
  then show ?case by (intro update_pread_rep(10)[OF ring_invD(1)]) simp_all
qed (rule pkt_pos_cong; auto simp: polar_ringbuf_update_ref_def polar_ringbuf_new_ref_def
    polar_ringbuf_get_ref_def polar_ringbuf_clear_ref_def set_strong_def polar_ringbuf_evict_ref_def
    polar_prs_stat_reset_def Let_def split: if_splits prod.splits)+

text \<open>Reference numbers: a slot keeps its number, is cleared, or gets a number never given out before.\<close>

lemma ring_step_ref_nums:
  assumes "ring_step (rb, hist) (rb', hist')" "ring_inv (rb, hist)"
  shows "ref_num rb \<le> ref_num rb' \<and>
    (\<forall>i. slot_ref_num (slot rb' i) = slot_ref_num (slot rb i) \<or> slot_ref_num (slot rb' i) = 0 \<or>
      ref_num rb < slot_ref_num (slot rb' i))"
  using assms
proof (induction "(rb, hist)" "(rb', hist')" arbitrary: rb hist rb' hist' rule: ring_step.induct)
  case (reserve len rb hist idx rb' raw)
  then show ?case using reserve_frame by simp
next
  case (fill d hist p rb offset buf rb')
  then show ?case using pkt_write_frame by simp
next
  case (new_ref rb strg ref nm ok rb' ref' hist)
  note n = new_ref_rep[OF ring_invD(1)[OF new_ref.prems] new_ref(1,2)]
  have lt: "ref_num rb < ref_num rb + 1" using inc_greater[OF new_ref(1)] by simp
  show ?case
  proof (cases ok)
    case True
    then have "slot_ref_num (slot rb' (ref_index ref')) = ref_num rb + 1"
      using n(4) by (simp add: RINGBUF_REF_MATCH_def ref_slot_of_def)
    then show ?thesis using n(4)[OF True] lt by (metis less_imp_le)
  qed (use n(3) in simp)
next
  case (release_ref ref rb rb' ref' hist)
  note r = release_ref_rep[OF ring_invD(1)[OF release_ref.prems] release_ref(1,2)]
  show ?case using r(3,4) by (simp add: zero_slot_def)
next
  case (recycle rb updated rb' hist)
  then show ?case using update_pread_rep(2,4)[OF ring_invD(1)[OF recycle.prems] recycle(1)] by simp
qed (auto simp: polar_ringbuf_update_ref_def
    polar_ringbuf_get_ref_def polar_ringbuf_clear_ref_def set_strong_def polar_ringbuf_evict_ref_def
    polar_prs_stat_reset_def zero_slot_def Let_def split: if_splits prod.splits)

lemma ring_op_ref_nums:
  assumes "ring_op (rb, hist) (rb', hist')" "ring_inv (rb, hist)"
  shows "ref_num rb \<le> ref_num rb' \<and>
    (\<forall>i. slot_ref_num (slot rb' i) = slot_ref_num (slot rb i) \<or> slot_ref_num (slot rb' i) = 0 \<or>
      ref_num rb < slot_ref_num (slot rb' i))"
  using assms(1)
proof cases
  case step
  then show ?thesis by (rule ring_step_ref_nums[OF _ assms(2)])
next
  case reset
  then show ?thesis by (auto simp: polar_ringbuf_reset_def split: if_splits)
qed

lemma stale_ref_op:
  assumes "ring_op (rb, hist) (rb', hist')" "ring_inv (rb, hist)"
    and "ref_ref_num ref \<noteq> 0" "ref_ref_num ref \<le> ref_num rb" "\<not> RINGBUF_REF_MATCH rb ref"
  shows "ref_ref_num ref \<le> ref_num rb'" "\<not> RINGBUF_REF_MATCH rb' ref"
  using ring_op_ref_nums[OF assms(1,2)] assms(3-5)
  by (auto simp: RINGBUF_REF_MATCH_def ref_slot_of_def dest: spec[of _ "ref_index ref"])

lemma stale_ref_ops:
  assumes "ring_op\<^sup>*\<^sup>* (rb, hist) (rb', hist')" "ring_inv (rb, hist)"
    and "ref_ref_num ref \<noteq> 0" "ref_ref_num ref \<le> ref_num rb" "\<not> RINGBUF_REF_MATCH rb ref"
  shows "ref_ref_num ref \<le> ref_num rb' \<and> \<not> RINGBUF_REF_MATCH rb' ref"
  using assms(1)
proof (induction "(rb', hist')" arbitrary: rb' hist' rule: rtranclp_induct)
  case base
  then show ?case using assms(4,5) by simp
next
  case (step s)
  obtain r h where s: "s = (r, h)" by (rule prod.exhaust)
  have inv: "ring_inv (r, h)" using ring_ops_inv[OF step(1) assms(2)] s by simp
  show ?case using stale_ref_op[OF _ inv assms(3)] step(2) step(3)[OF s] s by blast
qed

text \<open>The turns of the trimming loop are steps.\<close>

lemma keep_data_steps:
  assumes "ring_inv (rb, hist)" "RINGBUF_REF_MATCH rb ref" "ref_ref_num ref \<noteq> 0" "0 \<le> keep" "recent hist keep"
  shows "\<exists>rb' u'. ref_keep_data_loop rb ref keep u = Some (rb', u') \<and> ring_step\<^sup>*\<^sup>* (rb, hist) (rb', hist) \<and>
    RINGBUF_REF_MATCH rb' ref \<and> polar_ringbuf_avail rb' ref \<le> keep \<and> (u' \<or> rb' = rb)"
  using assms(1,2)
proof (induction "length hist - cursor rb (ref_index ref)" arbitrary: rb u rule: less_induct)
  case less
  show ?case
  proof (cases "polar_ringbuf_avail rb ref > keep")
    case True
    let ?rb = "polar_ringbuf_update_ref rb ref"
    note r = skip_ready[OF ring_invD(1)[OF less.prems(1)] less.prems(2) assms(3,4) True assms(5)]
    have st: "ring_step (rb, hist) (?rb, hist)" by (rule ring_step.skip[OF less.prems(2) assms(3,4) True assms(5)])
    have m: "RINGBUF_REF_MATCH ?rb ref"
      using less.prems(2) by (auto simp: RINGBUF_REF_MATCH_def ref_slot_of_def polar_ringbuf_update_ref_def Let_def)
    obtain t p where p: "hist ! cursor rb (ref_index ref) = Ready t p" using r(3) by blast
    have cur: "cursor ?rb (ref_index ref) = cursor rb (ref_index ref) + 1"
      using update_ref_rep(2)[OF ring_invD(1)[OF less.prems(1)] r(1,2), of p t] p by simp
    have lt: "length hist - cursor ?rb (ref_index ref) < length hist - cursor rb (ref_index ref)" using r(2) cur by simp
    have e: "ref_keep_data_loop rb ref keep u = ref_keep_data_loop ?rb ref keep True"
      using True by (subst ref_keep_data_loop.simps) simp
    obtain rb' u' where i: "ref_keep_data_loop ?rb ref keep True = Some (rb', u')" "ring_step\<^sup>*\<^sup>* (?rb, hist) (rb', hist)"
      "RINGBUF_REF_MATCH rb' ref" "polar_ringbuf_avail rb' ref \<le> keep" "u' \<or> rb' = ?rb"
      using less.hyps[OF lt ring_step_inv[OF st less.prems(1)] m, of True] by blast
    have "u'"
    proof (cases "polar_ringbuf_avail ?rb ref > keep")
      case False
      then show ?thesis using i(1) by (subst (asm) ref_keep_data_loop.simps) simp
    next
      case True
      then show ?thesis using i(4,5) by auto
    qed
    then show ?thesis using e i converse_rtranclp_into_rtranclp[of ring_step, OF st i(2)] by auto
  next
    case False
    then have "ref_keep_data_loop rb ref keep u = Some (rb, u)" by (subst ref_keep_data_loop.simps) simp
    then show ?thesis using less.prems False by auto
  qed
qed

section \<open>Properties\<close>

text \<open>
  C3. Every state the ring buffer reaches from its initialisation, under any interleaving of writers,
  readers, reference management, trimming and resets, represents its packet log: the unrecycled packets
  lie one after the other in the circular data area with their flags, lengths and payloads, at least one
  byte is free, and each occupied slot stands at the start of the packet its visit counter names. A packet
  that is not published has not been recycled. The steps assume what the code leaves to its callers: a
  reference is only trimmed past published packets, and the buffer is reset when no packet is being written.
\<close>

theorem ring_reachable_rep:
  assumes "zeroed mem (len - data_off)" "data_off < len"
    and "ring_op\<^sup>*\<^sup>* (polar_ringbuf_init mem len data_off, []) (rb, hist)"
  shows "rb_rep rb hist \<and> (\<forall>c < length hist. is_ready (hist ! c) \<or> unat (min_visit rb) \<le> c)"
  using ring_ops_inv[OF assms(3) ring_inv_init[OF assms(1,2)]] ring_invD by blast


text \<open>
  C4. The index a writer was given for its packet stays right as long as the packet is not published:
  the packet keeps its place in the data area and is not recycled, while others reserve, publish, read,
  recycle, trim, create, drop or evict references and reset the buffer, under the conditions of the steps:
  a reference is only trimmed past published packets and the buffer is not reset while a packet is being
  written.
\<close>

theorem writer_index_stable:
  assumes "(\<lambda>s s'. ring_op s s' \<and> \<not> is_ready (snd s' ! c))\<^sup>*\<^sup>* (rb, hist) (rb', hist')"
    and "ring_inv (rb, hist)" "c < length hist" "\<not> is_ready (hist ! c)"
  shows "unat (min_visit rb') \<le> c \<and> c < length hist' \<and> pkt_pos rb' hist' c = pkt_pos rb hist c"
proof -
  have "ring_inv (rb', hist') \<and> \<not> is_ready (hist' ! c) \<and>
      unat (min_visit rb') \<le> c \<and> c < length hist' \<and> pkt_pos rb' hist' c = pkt_pos rb hist c"
    using assms(1)
  proof (induction "(rb', hist')" arbitrary: rb' hist' rule: rtranclp_induct)
    case base
    then show ?case using assms ring_invD(2)[OF assms(2,3)] by simp
  next
    case (step s)
    obtain r h where s: "s = (r, h)" by (rule prod.exhaust)
    note ih = step(3)[OF s]
    have op: "ring_op (r, h) (rb', hist')" and nr: "\<not> is_ready (hist' ! c)" using step(2) s by auto
    have "ring_step (r, h) (rb', hist')"
      using op ih by cases (auto dest: nth_mem)
    moreover from this have "c < length hist'" using ring_step_published[of "(r, h)" "(rb', hist')"] ih
      by (auto simp: published_le_def)
    moreover have "ring_inv (rb', hist')" using ring_op_inv[OF op] ih by blast
    ultimately show ?case using ring_step_pos[of r h rb' hist' c] ring_invD(2)[of rb' hist' c] ih nr by auto
  qed
  then show ?thesis by blast
qed

text \<open>
  C5. A reference that is released, or whose slot is evicted, is invalid from then on and for ever, even
  when its slot is occupied again: no run makes the old reference match.
\<close>

theorem stale_reference:
  assumes inv: "ring_inv (rb, hist)" and ref: "polar_ringbuf_valid_ref rb (Some ref)" "ref_ref_num ref \<noteq> 0"
    and gone: "polar_ringbuf_release_ref rb ref = (rb1, ref1)
      \<or> polar_ringbuf_evict_ref rb = (True, rb1) \<and> \<not> bit (occupied rb1) (ref_index ref)"
    and run: "ring_op\<^sup>*\<^sup>* (rb1, hist) (rb', hist')"
  shows "\<not> polar_ringbuf_valid_ref rb' (Some ref)"
proof -
  note rep = ring_invD(1)[OF inv]
  have m: "ref_rbuf ref" "RINGBUF_REF_MATCH rb ref" using ref(1) by (auto simp: polar_ringbuf_valid_ref_def split: if_splits)
  have occ: "bit (occupied rb) (ref_index ref)" using match_occupied[OF rep m(2) ref(2)] .
  have "slot_rep rb hist (ref_index ref)" using rep by (simp add: rb_rep_def)
  then have num: "ref_ref_num ref \<le> ref_num rb"
    using m(2) occ by (auto simp: slot_rep_def RINGBUF_REF_MATCH_def ref_slot_of_def Let_def)
  have "ring_inv (rb1, hist) \<and> ref_num rb1 = ref_num rb \<and> slot rb1 (ref_index ref) = zero_slot"
    using gone
  proof
    assume r: "polar_ringbuf_release_ref rb ref = (rb1, ref1)"
    show ?thesis using release_ref_rep(3,4)[OF rep ref(2) r] release_ref_inv[OF inv ref(2) r] m by simp
  next
    assume e: "polar_ringbuf_evict_ref rb = (True, rb1) \<and> \<not> bit (occupied rb1) (ref_index ref)"
    then have e1: "polar_ringbuf_evict_ref rb = (True, rb1)" by simp
    obtain i where i: "slot rb1 = (slot rb)(i := zero_slot)" "\<forall>j. bit (occupied rb1) j \<longleftrightarrow> bit (occupied rb) j \<and> j \<noteq> i"
      using evict_ref_rep(5)[OF rep e1] by blast
    then have "i = ref_index ref" using e occ by blast
    then show ?thesis using i(1) evict_ref_rep(3)[OF rep e1] evict_inv[OF inv e1] by simp
  qed
  then have "ref_ref_num ref \<le> ref_num rb' \<and> \<not> RINGBUF_REF_MATCH rb' ref"
    using stale_ref_ops[OF run _ ref(2)] num ref(2) by (auto simp: RINGBUF_REF_MATCH_def ref_slot_of_def zero_slot_def)
  then show ?thesis by (simp add: polar_ringbuf_valid_ref_def)
qed

text \<open>
  C6. \<open>polar_ringbuf_free_up\<close> returns, with more than \<open>len\<close> free bytes and without waiting for anyone,
  when every strong reference and at least one reference have read all packets: it recycles and
  evicts weak references until there is room, and it never drops a strong reference.
\<close>

theorem free_up_returns:
  assumes "rb_rep rbuf hist" "caught_up rbuf hist" "len + 1 < rb_size rbuf"
  shows "\<exists>rb'. polar_ringbuf_free_up wait rbuf len = Some rb' \<and> rb_rep rb' hist \<and>
    polar_ringbuf_free_size rb' > int len \<and>
    (\<forall>i. slot rb' i = slot rbuf i \<or> \<not> strong (slot rbuf i) \<and> slot rb' i = zero_slot)"
proof -
  let ?rb = "rbuf\<lparr>prs := (prs rbuf)\<lparr>free_up_cnt := free_up_cnt (prs rbuf) + 1\<rparr>\<rparr>"
  have "rb_rep ?rb hist" "caught_up ?rb hist" "len + 1 < rb_size ?rb"
    using assms by (simp_all add: caught_up_def cursor_def)
  from free_up_loop_returns[OF this, of wait] show ?thesis by (auto simp: polar_ringbuf_free_up_def)
qed

text \<open>
  C7. Trimming with \<open>polar_ringbuf_ref_keep_data\<close> is safe when the packets more than \<open>keep\<close> bytes behind the
  writer are published, however many packets after them are being written: left alone it ends, it is a
  sequence of single steps of the state machine, so that it may be interleaved with other operations, it
  leaves the reference at most \<open>keep\<close> bytes behind the writer, and it has skipped published packets only.
\<close>

theorem ref_keep_data_returns:
  assumes "ring_inv (rb, hist)" "RINGBUF_REF_MATCH rb ref" "ref_ref_num ref \<noteq> 0" "0 \<le> keep" "recent hist keep"
  shows "\<exists>rb'. polar_ringbuf_ref_keep_data rb ref keep = Some rb' \<and> ring_step\<^sup>*\<^sup>* (rb, hist) (rb', hist) \<and>
    polar_ringbuf_avail rb' ref \<le> keep \<and> (\<forall>c < cursor rb' (ref_index ref). is_ready (hist ! c))"
proof -
  obtain rb1 u where l: "ref_keep_data_loop rb ref keep False = Some (rb1, u)"
    "ring_step\<^sup>*\<^sup>* (rb, hist) (rb1, hist)" "RINGBUF_REF_MATCH rb1 ref" "polar_ringbuf_avail rb1 ref \<le> keep"
    using keep_data_steps[OF assms, of False] by blast
  have inv1: "ring_inv (rb1, hist)" using ring_steps_inv[OF l(2) assms(1)] .
  note rep = ring_invD(1)[OF inv1]
  have occ: "bit (occupied rb1) (ref_index ref)" using match_occupied[OF rep l(3) assms(3)] .
  obtain v rb2 where up: "polar_ringbuf_update_pread rb1 = (v, rb2)" by (rule prod.exhaust)
  note r = update_pread_rep[OF rep up]
  have st: "ring_step (rb1, hist) (rb2, hist)" by (rule ring_step.recycle[OF up])
  have cur: "cursor rb2 (ref_index ref) = cursor rb1 (ref_index ref)" using r(2) by (simp add: cursor_def)
  have av: "polar_ringbuf_avail rb2 ref = polar_ringbuf_avail rb1 ref"
    using avail_behind[OF r(1)] avail_behind[OF rep occ] occ r(3) cur by simp
  have rd: "\<forall>c < cursor rb1 (ref_index ref). is_ready (hist ! c)" using inv1 occ by (auto simp: ring_inv_def)
  show ?thesis
  proof (cases u)
    case True
    then show ?thesis
      using l up st av cur rd
      by (auto simp: polar_ringbuf_ref_keep_data_def polar_ringbuf_update_keep_data_def intro: rtranclp.rtrancl_into_rtrancl)
  qed (use l rd in \<open>auto simp: polar_ringbuf_ref_keep_data_def\<close>)
qed

text \<open>
  C8. Without that condition \<open>polar_ringbuf_ref_keep_data\<close> overruns writers. When the trimmed reference is
  the only one and stands at a packet that is still being filled, more than \<open>keep\<close> bytes behind the writer,
  the packet is recycled although it is not published: its space is given to later packets while its
  writer still holds its index.
\<close>

theorem keep_data_overruns_writer:
  assumes rep: "rb_rep rb hist" and occ: "\<And>i. bit (occupied rb) i \<longleftrightarrow> i = ref_index ref" and keep: "0 \<le> keep"
    and "\<And>c. c < length hist \<Longrightarrow> has_length (hist ! c)" "polar_ringbuf_avail rb ref > keep"
    and "hist ! cursor rb (ref_index ref) = Filling p"
  shows "\<exists>rb'. polar_ringbuf_ref_keep_data rb ref keep = Some rb' \<and> rb_rep rb' hist \<and>
    \<not> is_ready (hist ! cursor rb (ref_index ref)) \<and> cursor rb (ref_index ref) < unat (min_visit rb')"
proof -
  let ?i = "ref_index ref"
  obtain rb1 where l: "ref_keep_data_loop rb ref keep False = Some (rb1, True)" "rb_rep rb1 hist" "occupied rb1 = occupied rb"
    "cursor rb ?i < cursor rb1 ?i"
    using keep_data_loop_returns[OF rep _ keep assms(4), of ref False] occ assms(5) by auto
  obtain v rb2 where up: "polar_ringbuf_update_pread rb1 = (v, rb2)" by (rule prod.exhaust)
  have bits: "{i. bit (occupied rb1) i} = {?i}" using occ l(3) by auto
  then have "occupied rb1 \<noteq> 0" by (auto simp: word_eq_0_bits)
  then have "unat (min_visit rb2) = cursor rb1 ?i" using update_pread_rep(7)[OF l(2) up] bits by simp
  then show ?thesis
    using l up update_pread_rep(1)[OF l(2) up] assms(6)
    by (simp add: polar_ringbuf_ref_keep_data_def polar_ringbuf_update_keep_data_def)
qed

section \<open>A concrete run\<close>

text \<open>
  A 16 byte buffer: a strong reference is created and the packet with flag 0x11 and payload AB CD is
  reserved, filled and published; then the reference moves past it.
\<close>

definition demo_mem :: polar_ringbuf_data_t where
  "demo_mem = \<lparr>pread = 0, pwrite = 0, ref_num = 0, occupied = 0, slot = (\<lambda>_. zero_slot), min_visit = 0,
     rb_size = 0, prs = zero_stat, data = replicate 16 0\<rparr>"

definition demo_ref0 :: polar_ringbuf_ref_t where
  "demo_ref0 = \<lparr>ref_rbuf = False, ref_ref_num = 0, ref_slot = -1, ref_strong = False, ref_ref_name = ''''\<rparr>"

definition demo0 :: polar_ringbuf_data_t where "demo0 = polar_ringbuf_init demo_mem 16 0"
definition demo1 :: polar_ringbuf_data_t where
  "demo1 = fst (snd (polar_ringbuf_new_ref demo0 True demo_ref0 None))"
definition demo_ref :: polar_ringbuf_ref_t where
  "demo_ref = snd (snd (polar_ringbuf_new_ref demo0 True demo_ref0 None))"
definition demo2 :: polar_ringbuf_data_t where "demo2 = snd (polar_ringbuf_pkt_reserve demo1 7)"
definition demo3 :: polar_ringbuf_data_t where "demo3 = polar_ringbuf_set_pkt_length demo2 0 2"
definition demo4 :: polar_ringbuf_data_t where
  "demo4 = the (polar_ringbuf_pkt_write demo3 0 0 [0xAB, 0xCD])"
definition demo5 :: polar_ringbuf_data_t where "demo5 = polar_ringbuf_set_pkt_flag demo4 0 0x11"
definition demo6 :: polar_ringbuf_data_t where "demo6 = polar_ringbuf_update_ref demo5 demo_ref"

lemma demo_zeroed: "zeroed demo_mem (16 - 0)"
  by (simp add: zeroed_def demo_mem_def)

lemma demo_new: "polar_ringbuf_new_ref demo0 True demo_ref0 None = (True, demo1, demo_ref)"
  by (simp add: demo1_def demo_ref_def prod_eq_iff) code_simp

lemma demo_reserve: "polar_ringbuf_pkt_reserve demo1 7 = (0, demo2)"
  by (simp add: demo2_def prod_eq_iff) code_simp

lemma demo_write: "polar_ringbuf_pkt_write demo3 0 0 [0xAB, 0xCD] = Some demo4"
proof -
  have "polar_ringbuf_pkt_write demo3 0 0 [0xAB, 0xCD] \<noteq> None" by code_simp
  then show ?thesis by (auto simp: demo4_def)
qed

lemma demo_facts:
  "ref_num demo0 < UINT64_MAX" "7 \<le> polar_ringbuf_free_size demo1"
  "ring_copy_out demo2 ((0 + 1) mod rb_size demo2) (7 - 1) = [0, 0, 0, 0, 0, 0]"
  "pkt_pos demo2 [Reserved [0, 0, 0, 0, 0, 0]] 0 = 0"
  "pkt_pos demo3 [Filling [0, 0]] 0 = 0" "pkt_pos demo4 [Filling [0xAB, 0xCD]] 0 = 0"
  "mem_write [0, 0] 0 [0xAB, 0xCD] = [0xAB, 0xCD :: uint8]"
  by code_simp+

lemma demo_ref_facts:
  "RINGBUF_REF_MATCH demo5 demo_ref" "ref_ref_num demo_ref = 1" "cursor demo5 (ref_index demo_ref) = 0"
  "RINGBUF_REF_MATCH demo1 demo_ref"
  "cursor demo6 (ref_index demo_ref) = 1" "bit (occupied demo5) (ref_index demo_ref)"
  by code_simp+

lemma demo_steps_reserved:
  "ring_step (demo0, []) (demo1, [])" "ring_step (demo1, []) (demo2, [Reserved [0, 0, 0, 0, 0, 0]])"
  using ring_step.new_ref[OF demo_facts(1) demo_new] ring_step.reserve[of 7 demo1 "[]" 0 demo2]
    demo_facts(2,3) demo_reserve by simp_all

lemma demo_steps_published:
  "ring_step (demo2, [Reserved [0, 0, 0, 0, 0, 0]]) (demo3, [Filling [0, 0]])"
  "ring_step (demo3, [Filling [0, 0]]) (demo4, [Filling [0xAB, 0xCD]])"
  "ring_step (demo4, [Filling [0xAB, 0xCD]]) (demo5, [Ready 0x11 [0xAB, 0xCD]])"
  using ring_step.set_length[of 0 "[Reserved [0, 0, 0, 0, 0, 0]]" "[0, 0, 0, 0, 0, 0]" 2 demo2]
    ring_step.fill[of 0 "[Filling [0, 0]]" "[0, 0]" demo3 0 "[0xAB, 0xCD]" demo4]
    ring_step.publish[of 0 "[Filling [0xAB, 0xCD]]" "[0xAB, 0xCD]" "0x11" demo4]
    demo_facts demo_write
  by (simp_all add: demo3_def demo5_def)

lemma demo_run:
  "ring_step\<^sup>*\<^sup>* (demo0, []) (demo2, [Reserved [0, 0, 0, 0, 0, 0]])"
  "ring_step\<^sup>*\<^sup>* (demo2, [Reserved [0, 0, 0, 0, 0, 0]]) (demo4, [Filling [0xAB, 0xCD]])"
  "ring_step\<^sup>*\<^sup>* (demo0, []) (demo5, [Ready 0x11 [0xAB, 0xCD]])"
  using demo_steps_reserved demo_steps_published by (meson converse_rtranclp_into_rtranclp rtranclp.rtrancl_refl)+

lemma demo_inv:
  "ring_inv (demo2, [Reserved [0, 0, 0, 0, 0, 0]])" "ring_inv (demo5, [Ready 0x11 [0xAB, 0xCD]])"
  "ring_inv (demo6, [Ready 0x11 [0xAB, 0xCD]])"
proof -
  have init: "ring_inv (demo0, [])" using ring_inv_init[OF demo_zeroed] by (simp add: demo0_def)
  show "ring_inv (demo2, [Reserved [0, 0, 0, 0, 0, 0]])" using ring_steps_inv[OF demo_run(1) init] .
  show inv5: "ring_inv (demo5, [Ready 0x11 [0xAB, 0xCD]])" using ring_steps_inv[OF demo_run(3) init] .
  have "polar_ringbuf_avail demo5 demo_ref > 0" "fst (polar_ringbuf_next_ready_pkt demo5 demo_ref) \<noteq> 0"
    by code_simp+
  then show "ring_inv (demo6, [Ready 0x11 [0xAB, 0xCD]])"
    using advance_inv[OF inv5 demo_ref_facts(1)] demo_ref_facts(2) by (simp add: demo6_def)
qed

lemma demo_caught_up: "caught_up demo6 [Ready 0x11 [0xAB, 0xCD]]"
proof -
  have occ: "occupied demo6 = 1" by code_simp
  have "cursor demo6 0 = 1" by code_simp
  then show ?thesis unfolding caught_up_def occ by (auto simp: bit_1_iff)
qed

lemma ring_steps_ops: "ring_step\<^sup>*\<^sup>* s s' \<Longrightarrow> ring_op\<^sup>*\<^sup>* s s'"
  by (induction rule: rtranclp_induct) (auto intro: ring_op.step rtranclp.rtrancl_into_rtrancl)

theorem ring_reachable_rep_witness: "rb_rep demo5 [Ready 0x11 [0xAB, 0xCD]]"
  using ring_reachable_rep[OF demo_zeroed, of demo5] ring_steps_ops[OF demo_run(3)] by (simp add: demo0_def)


theorem writer_index_stable_witness: "pkt_pos demo4 [Filling [0xAB, 0xCD]] 0 = 0"
proof -
  let ?R = "\<lambda>s s'. ring_op s s' \<and> \<not> is_ready (snd s' ! 0)"
  have r: "?R (demo2, [Reserved [0, 0, 0, 0, 0, 0]]) (demo3, [Filling [0, 0]])"
    "?R (demo3, [Filling [0, 0]]) (demo4, [Filling [0xAB, 0xCD]])"
    using ring_op.step[OF demo_steps_published(1)] ring_op.step[OF demo_steps_published(2)] by simp_all
  have "?R\<^sup>*\<^sup>* (demo2, [Reserved [0, 0, 0, 0, 0, 0]]) (demo4, [Filling [0xAB, 0xCD]])"
    by (rule converse_rtranclp_into_rtranclp[of ?R, OF r(1) r_into_rtranclp[of ?R, OF r(2)]])
  from writer_index_stable[OF this demo_inv(1)] show ?thesis using demo_facts(4) by simp
qed

text \<open>The reference is released and its slot is given to another one.\<close>

definition demo7 :: polar_ringbuf_data_t where "demo7 = fst (polar_ringbuf_release_ref demo5 demo_ref)"
definition demo8 :: polar_ringbuf_data_t where
  "demo8 = fst (snd (polar_ringbuf_new_ref demo7 True demo_ref0 None))"
definition demo_ref2 :: polar_ringbuf_ref_t where
  "demo_ref2 = snd (snd (polar_ringbuf_new_ref demo7 True demo_ref0 None))"

theorem stale_reference_witness:
  "polar_ringbuf_valid_ref demo8 (Some demo_ref2) \<and> ref_index demo_ref2 = ref_index demo_ref
    \<and> \<not> polar_ringbuf_valid_ref demo8 (Some demo_ref)"
proof -
  have v: "polar_ringbuf_valid_ref demo5 (Some demo_ref)" "ref_ref_num demo_ref \<noteq> 0"
    "polar_ringbuf_valid_ref demo8 (Some demo_ref2)" "ref_index demo_ref2 = ref_index demo_ref" "ref_num demo7 < UINT64_MAX"
    by code_simp+
  have r: "polar_ringbuf_release_ref demo5 demo_ref = (demo7, snd (polar_ringbuf_release_ref demo5 demo_ref))"
    by (simp add: demo7_def)
  have "polar_ringbuf_new_ref demo7 True demo_ref0 None = (fst (polar_ringbuf_new_ref demo7 True demo_ref0 None), demo8, demo_ref2)"
    by (simp add: demo8_def demo_ref2_def)
  then have "ring_op (demo7, [Ready 0x11 [0xAB, 0xCD]]) (demo8, [Ready 0x11 [0xAB, 0xCD]])"
    by (rule ring_op.step[OF ring_step.new_ref[OF v(5)]])
  then have "ring_op\<^sup>*\<^sup>* (demo7, [Ready 0x11 [0xAB, 0xCD]]) (demo8, [Ready 0x11 [0xAB, 0xCD]])" by (rule r_into_rtranclp)
  from stale_reference[OF demo_inv(2) v(1,2) disjI1[OF r] this] show ?thesis using v(3,4) by simp
qed

theorem free_up_returns_witness:
  "\<exists>rb'. polar_ringbuf_free_up (\<lambda>r. r) demo6 14 = Some rb' \<and> polar_ringbuf_free_size rb' > 14"
proof -
  have "14 + 1 < rb_size demo6" by code_simp
  from free_up_returns[OF ring_invD(1)[OF demo_inv(3)] demo_caught_up this, of "\<lambda>r. r"]
  show ?thesis by auto
qed

text \<open>A second packet is reserved; trimming to 5 bytes skips the first one only.\<close>

definition demo9 :: polar_ringbuf_data_t where "demo9 = snd (polar_ringbuf_pkt_reserve demo5 5)"

theorem ref_keep_data_returns_witness:
  "\<exists>rb'. polar_ringbuf_avail demo9 demo_ref = 12 \<and> polar_ringbuf_ref_keep_data demo9 demo_ref 5 = Some rb'
    \<and> polar_ringbuf_avail rb' demo_ref \<le> 5"
proof -
  let ?h = "[Ready 0x11 [0xAB, 0xCD], Reserved [0, 0, 0, 0]]"
  have f: "5 \<le> polar_ringbuf_free_size demo5" "polar_ringbuf_pkt_reserve demo5 5 = (7, demo9)"
    "[0, 0, 0, 0] = ring_copy_out demo9 ((7 + 1) mod rb_size demo9) (5 - 1)" "polar_ringbuf_avail demo9 demo_ref = 12"
    "RINGBUF_REF_MATCH demo9 demo_ref"
    by (code_simp, simp add: demo9_def prod_eq_iff, code_simp+)
  have "ring_step (demo5, [Ready 0x11 [0xAB, 0xCD]]) (demo9, [Ready 0x11 [0xAB, 0xCD]] @ [Reserved [0, 0, 0, 0]])"
    by (rule ring_step.reserve[OF _ _ _ f(2,3)]) (use f(1) in simp_all)
  then have inv: "ring_inv (demo9, ?h)" using ring_step_inv[OF _ demo_inv(2)] by simp
  have "recent ?h 5"
    unfolding recent_def
  proof (intro allI impI)
    fix c assume "c < length ?h"
    then show "is_ready (?h ! c) \<or> behind ?h c \<le> 5" by (cases c) (auto simp: behind_def)
  qed
  from ref_keep_data_returns[OF inv f(5) _ _ this] show ?thesis using f(4) demo_ref_facts(2) by auto
qed

theorem keep_data_overruns_writer_witness:
  "\<exists>rb'. polar_ringbuf_ref_keep_data demo4 demo_ref 3 = Some rb' \<and> 0 < unat (min_visit rb')"
proof -
  let ?h = "[Filling [0xAB, 0xCD]]"
  have inv: "ring_inv (demo4, ?h)" using ring_steps_inv[OF demo_run(2) demo_inv(1)] .
  have oc: "occupied demo4 = 1" "ref_index demo_ref = 0" "polar_ringbuf_avail demo4 demo_ref = 7" "cursor demo4 0 = 0" by code_simp+
  have "bit (occupied demo4) i \<longleftrightarrow> i = ref_index demo_ref" for i unfolding oc by (simp add: bit_1_iff)
  from keep_data_overruns_writer[OF ring_invD(1)[OF inv] this, of 3 "[0xAB, 0xCD]"] show ?thesis
    using oc by (auto simp: has_length_def)
qed

end
