(* ===== verification/Packet_Log.thy ===== *)
theory Packet_Log
  imports Polar_Ring_Log
begin

text \<open>
  The interface between the ring buffer and the WAL queue. The locale \<open>packet_log\<close> fixes the
  operations the queue calls and states what they promise about the packet log; the lemmas about
  whole sequences of calls (reserve, set the length, write in portions, publish; look, read,
  advance) are proved once inside it. It is interpreted on the ring buffer at the end.
\<close>

locale packet_log =
  fixes rep :: "'s \<Rightarrow> pkt list \<Rightarrow> bool"
    and pkt_at :: "'s \<Rightarrow> pkt list \<Rightarrow> nat \<Rightarrow> nat \<Rightarrow> bool"
    and reads :: "'s \<Rightarrow> 'r \<Rightarrow> nat \<Rightarrow> bool"
    and room :: "'s \<Rightarrow> int"
    and reserve :: "'s \<Rightarrow> nat \<Rightarrow> nat \<times> 's"
    and set_len :: "'s \<Rightarrow> nat \<Rightarrow> uint32 \<Rightarrow> 's"
    and put :: "'s \<Rightarrow> nat \<Rightarrow> nat \<Rightarrow> uint8 list \<Rightarrow> 's option"
    and set_flag :: "'s \<Rightarrow> nat \<Rightarrow> uint8 \<Rightarrow> 's"
    and avail :: "'s \<Rightarrow> 'r \<Rightarrow> int"
    and next_pkt :: "'s \<Rightarrow> 'r \<Rightarrow> uint8 \<times> uint32"
    and read_pkt :: "'s \<Rightarrow> 'r \<Rightarrow> nat \<Rightarrow> nat \<Rightarrow> uint8 list option"
    and advance :: "'s \<Rightarrow> 'r \<Rightarrow> 's"
  assumes rep_len: "rep s hist \<Longrightarrow> c < length hist \<Longrightarrow> hist ! c = Ready t p \<Longrightarrow> reads s r c \<Longrightarrow>
        length p < 2 ^ 32"
    and reserve_law: "rep s hist \<Longrightarrow> int n \<le> room s \<Longrightarrow> 5 \<le> n \<Longrightarrow> length hist + 1 < 2 ^ 64 - 1 \<Longrightarrow>
        reserve s n = (idx, s') \<Longrightarrow>
        (\<exists>raw. length raw = n - 1 \<and> rep s' (hist @ [Reserved raw]) \<and>
          pkt_at s' (hist @ [Reserved raw]) (length hist) idx) \<and> (\<forall>r c. reads s r c \<longrightarrow> reads s' r c)"
    and set_len_law: "rep s hist \<Longrightarrow> pkt_at s hist c idx \<Longrightarrow> hist ! c = Reserved raw \<Longrightarrow>
        length raw = unat len + 4 \<Longrightarrow>
        rep (set_len s idx len) (hist[c := Filling (drop 4 raw)]) \<and>
        pkt_at (set_len s idx len) (hist[c := Filling (drop 4 raw)]) c idx \<and>
        (\<forall>r c. reads s r c \<longrightarrow> reads (set_len s idx len) r c)"
    and write_law: "rep s hist \<Longrightarrow> pkt_at s hist c idx \<Longrightarrow> hist ! c = Filling p \<Longrightarrow>
        (if offset \<ge> length p \<or> offset + length buf > length p then put s idx offset buf = None
         else \<exists>s'. put s idx offset buf = Some s' \<and>
           rep s' (hist[c := Filling (mem_write p offset buf)]) \<and>
           pkt_at s' (hist[c := Filling (mem_write p offset buf)]) c idx \<and>
           (\<forall>r c. reads s r c \<longrightarrow> reads s' r c))"
    and set_flag_law: "rep s hist \<Longrightarrow> pkt_at s hist c idx \<Longrightarrow> hist ! c = Filling p \<Longrightarrow> t AND 1 = 1 \<Longrightarrow>
        rep (set_flag s idx t) (hist[c := Ready t p]) \<and> (\<forall>r c. reads s r c \<longrightarrow> reads (set_flag s idx t) r c)"
    and avail_law: "rep s hist \<Longrightarrow> reads s r c \<Longrightarrow> avail s r > 0 \<longleftrightarrow> c < length hist"
    and next_law: "rep s hist \<Longrightarrow> reads s r c \<Longrightarrow> c < length hist \<Longrightarrow>
        next_pkt s r = (case hist ! c of Ready t p \<Rightarrow> (t AND 0xF0, of_nat (length p)) | _ \<Rightarrow> (0, 0))"
    and read_law: "rep s hist \<Longrightarrow> reads s r c \<Longrightarrow> c < length hist \<Longrightarrow> hist ! c = Ready t p \<Longrightarrow>
        read_pkt s r offset n = (if offset \<ge> length p then None else Some (take n (drop offset p)))"
    and advance_law: "rep s hist \<Longrightarrow> reads s r c \<Longrightarrow> c < length hist \<Longrightarrow> hist ! c = Ready t p \<Longrightarrow>
        rep (advance s r) hist \<and> reads (advance s r) r (c + 1)"
begin

text \<open>Writing the next portion of a payload of which \<open>bs\<close> is already there.\<close>

lemma write_next:
  assumes "rep s hist" "pkt_at s hist c idx" "hist ! c = Filling (bs @ rest)" "length buf \<le> length rest"
    and "rest \<noteq> []"
  obtains s' where "put s idx (length bs) buf = Some s'"
    "rep s' (hist[c := Filling ((bs @ buf) @ drop (length buf) rest)])"
    "pkt_at s' (hist[c := Filling ((bs @ buf) @ drop (length buf) rest)]) c idx"
    "\<And>r c. reads s r c \<Longrightarrow> reads s' r c"
proof -
  have "mem_write (bs @ rest) (length bs) buf = (bs @ buf) @ drop (length buf) rest"
    using mem_write_shift[of bs rest 0 buf] by (simp add: mem_write_def)
  then show ?thesis
    using write_law[OF assms(1-3), of "length bs" buf] assms(4,5) that by auto
qed

text \<open>Reserving a packet and setting its length.\<close>

lemma open_packet:
  assumes "rep s hist" "int (n + 5) \<le> room s" "length hist + 1 < 2 ^ 64 - 1" "n < 2 ^ 32"
    and "reserve s (n + 5) = (idx, s1)"
  obtains p where "length p = n" "rep (set_len s1 idx (of_nat n)) (hist @ [Filling p])"
    "pkt_at (set_len s1 idx (of_nat n)) (hist @ [Filling p]) (length hist) idx"
    "\<And>r c. reads s r c \<Longrightarrow> reads (set_len s1 idx (of_nat n)) r c"
proof -
  obtain raw where raw: "length raw = n + 5 - 1" "rep s1 (hist @ [Reserved raw])"
      "pkt_at s1 (hist @ [Reserved raw]) (length hist) idx" and r: "\<And>r c. reads s r c \<Longrightarrow> reads s1 r c"
    using reserve_law[OF assms(1,2) _ assms(3,5)] by auto
  have "length raw = unat (of_nat n :: uint32) + 4"
    using raw(1) assms(4) by (simp add: unsigned_of_nat take_bit_nat_eq_self)
  from set_len_law[OF raw(2,3) _ this] show ?thesis
    using r raw(1) by (intro that[of "drop 4 raw"]) (auto simp: list_update_append)
qed

text \<open>The whole life of a packet that is written in one go.\<close>

lemma push_packet:
  assumes "rep s hist" "int (length p + 5) \<le> room s" "length hist + 1 < 2 ^ 64 - 1" "length p < 2 ^ 32"
    and "p \<noteq> []" "t AND 1 = 1" "reserve s (length p + 5) = (idx, s1)"
  obtains s2 where "put (set_len s1 idx (of_nat (length p))) idx 0 p = Some s2"
    "rep (set_flag s2 idx t) (hist @ [Ready t p])"
    "\<And>r c. reads s r c \<Longrightarrow> reads (set_flag s2 idx t) r c"
proof -
  from open_packet[OF assms(1-4,7)] obtain q where q: "length q = length p"
    "rep (set_len s1 idx (of_nat (length p))) (hist @ [Filling q])"
    "pkt_at (set_len s1 idx (of_nat (length p))) (hist @ [Filling q]) (length hist) idx"
    "\<And>r c. reads s r c \<Longrightarrow> reads (set_len s1 idx (of_nat (length p))) r c" by blast
  have ne: "q \<noteq> []" using q(1) assms(5) by auto
  from write_next[OF q(2,3), of "[]" q p] q(1) ne obtain s2 where
    s2: "put (set_len s1 idx (of_nat (length p))) idx 0 p = Some s2"
      "rep s2 ((hist @ [Filling q])[length hist := Filling p])"
      "pkt_at s2 ((hist @ [Filling q])[length hist := Filling p]) (length hist) idx"
      "\<And>r c. reads (set_len s1 idx (of_nat (length p))) r c \<Longrightarrow> reads s2 r c"
    by (metis append.right_neutral append_Nil drop_all length_greater_0_conv list.size(3) nth_append_length order.refl)
  from set_flag_law[OF s2(2,3) _ assms(6)] show ?thesis
    using q(4) s2(1,4) by (intro that[of s2]) (auto simp: list_update_append)
qed

lemma push_empty:
  assumes "rep s hist" "5 \<le> room s" "length hist + 1 < 2 ^ 64 - 1" "t AND 1 = 1" "reserve s 5 = (idx, s1)"
  shows "rep (set_flag (set_len s1 idx 0) idx t) (hist @ [Ready t []]) \<and>
    (\<forall>r c. reads s r c \<longrightarrow> reads (set_flag (set_len s1 idx 0) idx t) r c)"
proof -
  from open_packet[OF assms(1) _ assms(3), of 0 idx s1] assms(2,5) obtain q where q: "q = []"
    "rep (set_len s1 idx 0) (hist @ [Filling q])" "pkt_at (set_len s1 idx 0) (hist @ [Filling q]) (length hist) idx"
    "\<And>r c. reads s r c \<Longrightarrow> reads (set_len s1 idx 0) r c" by auto
  from set_flag_law[OF q(2,3) _ assms(4)] show ?thesis using q(1,4) by (auto simp: list_update_append)
qed

text \<open>A reader that finds a packet ready finds the published one.\<close>

lemma next_ready:
  assumes "rep s hist" "reads s r c" "avail s r > 0" "fst (next_pkt s r) \<noteq> 0"
  obtains t p where "c < length hist" "hist ! c = Ready t p" "t AND 0xF0 = fst (next_pkt s r)"
    "snd (next_pkt s r) = of_nat (length p)" "length p < 2 ^ 32"
proof -
  have c: "c < length hist" using avail_law assms by blast
  then obtain t p where tp: "hist ! c = Ready t p" "t AND 0xF0 = fst (next_pkt s r)"
      "snd (next_pkt s r) = of_nat (length p)"
    using next_law[OF assms(1,2)] assms(4) by (auto split: pkt.splits)
  then show ?thesis using that c rep_len[OF assms(1) c tp(1) assms(2)] by blast
qed

end

section \<open>The ring buffer is a packet log\<close>

definition rb_pkt_at :: "polar_ringbuf_data_t \<Rightarrow> pkt list \<Rightarrow> nat \<Rightarrow> nat \<Rightarrow> bool" where
  "rb_pkt_at rb hist c idx \<longleftrightarrow> unat (min_visit rb) \<le> c \<and> c < length hist \<and> idx = pkt_pos rb hist c"

definition rb_reads :: "polar_ringbuf_data_t \<Rightarrow> polar_ringbuf_ref_t \<Rightarrow> nat \<Rightarrow> bool" where
  "rb_reads rb ref c \<longleftrightarrow> bit (occupied rb) (ref_index ref) \<and> cursor rb (ref_index ref) = c"

lemma rb_reads_frame:
  "slot rb' = slot rb \<Longrightarrow> occupied rb' = occupied rb \<Longrightarrow> rb_reads rb' ref c = rb_reads rb ref c"
  by (simp add: rb_reads_def cursor_def)

lemma rb_reads_live: "rb_rep rb hist \<Longrightarrow> rb_reads rb ref c \<Longrightarrow> unat (min_visit rb) \<le> c"
  using slot_rep_cursor(2) by (auto simp: rb_reads_def)

lemma rb_reserve_law:
  assumes "rb_rep rb hist" "int n \<le> polar_ringbuf_free_size rb" "5 \<le> n" "length hist + 1 < 2 ^ 64 - 1"
    and res: "polar_ringbuf_pkt_reserve rb n = (idx, rb')"
  shows "(\<exists>raw. length raw = n - 1 \<and> rb_rep rb' (hist @ [Reserved raw]) \<and>
      rb_pkt_at rb' (hist @ [Reserved raw]) (length hist) idx) \<and>
    (\<forall>ref c. rb_reads rb ref c \<longrightarrow> rb_reads rb' ref c)"
proof -
  note r = reserve_step_rep[OF assms]
  have "unat (min_visit rb') \<le> length hist"
    using assms(1) reserve_frame(3)[OF res] by (simp add: rb_rep_def content_rep_def)
  then show ?thesis
    using r rb_reads_frame[OF reserve_frame(1,2)[OF res]] by (auto simp: rb_pkt_at_def)
qed

lemma rb_write_law:
  assumes rep: "rb_rep rb hist" and at: "rb_pkt_at rb hist c idx" and p: "hist ! c = Filling p"
  shows "if offset \<ge> length p \<or> offset + length buf > length p
    then polar_ringbuf_pkt_write rb idx offset buf = None
    else \<exists>rb'. polar_ringbuf_pkt_write rb idx offset buf = Some rb' \<and>
      rb_rep rb' (hist[c := Filling (mem_write p offset buf)]) \<and>
      rb_pkt_at rb' (hist[c := Filling (mem_write p offset buf)]) c idx \<and>
      (\<forall>ref c. rb_reads rb ref c \<longrightarrow> rb_reads rb' ref c)"
proof -
  have c: "unat (min_visit rb) \<le> c" "c < length hist" and idx: "idx = pkt_pos rb hist c"
    using at by (auto simp: rb_pkt_at_def)
  note w = pkt_write_rep[OF rep c p, of offset buf]
  show ?thesis
  proof (cases "polar_ringbuf_pkt_write rb (pkt_pos rb hist c) offset buf")
    case None
    then show ?thesis using w(1) idx by auto
  next
    case (Some rb')
    then have fit: "\<not> (offset \<ge> length p \<or> offset + length buf > length p)" using w(1) by auto
    have "pread rb' = pread rb" "rb_size rb' = rb_size rb" "min_visit rb' = min_visit rb"
      using Some by (auto simp: polar_ringbuf_pkt_write_def Let_def split: if_splits)
    then have "pkt_pos rb' (hist[c := Filling (mem_write p offset buf)]) c = idx"
      using pkt_pos_cong[of rb' rb] pkt_pos_update[OF c, of "Filling (mem_write p offset buf)"] p fit idx
      by simp
    then show ?thesis
      using Some fit w(2)[OF Some] c idx rb_reads_frame[OF pkt_write_frame(1,2)[OF Some]]
        pkt_write_frame(3)[OF Some] by (simp add: rb_pkt_at_def)
  qed
qed

lemma rb_set_len_law:
  assumes rep: "rb_rep rb hist" and at: "rb_pkt_at rb hist c idx" and r: "hist ! c = Reserved raw"
    "length raw = unat n + 4"
  shows "rb_rep (polar_ringbuf_set_pkt_length rb idx n) (hist[c := Filling (drop 4 raw)]) \<and>
    rb_pkt_at (polar_ringbuf_set_pkt_length rb idx n) (hist[c := Filling (drop 4 raw)]) c idx \<and>
    (\<forall>ref c. rb_reads rb ref c \<longrightarrow> rb_reads (polar_ringbuf_set_pkt_length rb idx n) ref c)"
proof -
  have c: "unat (min_visit rb) \<le> c" "c < length hist" and idx: "idx = pkt_pos rb hist c"
    using at by (auto simp: rb_pkt_at_def)
  let ?rb' = "polar_ringbuf_set_pkt_length rb idx n"
  have "pread ?rb' = pread rb" "rb_size ?rb' = rb_size rb" by (simp_all add: polar_ringbuf_set_pkt_length_def)
  then have "pkt_pos ?rb' (hist[c := Filling (drop 4 raw)]) c = idx"
    using pkt_pos_cong[of ?rb' rb] pkt_pos_update[OF c, of "Filling (drop 4 raw)"] r idx by simp
  then show ?thesis
    using set_length_rep[OF rep c r] c idx rb_reads_frame[of ?rb' rb] by (simp add: rb_pkt_at_def)
qed

interpretation rbq: packet_log rb_rep rb_pkt_at rb_reads polar_ringbuf_free_size
  polar_ringbuf_pkt_reserve polar_ringbuf_set_pkt_length polar_ringbuf_pkt_write
  polar_ringbuf_set_pkt_flag polar_ringbuf_avail polar_ringbuf_next_ready_pkt
  polar_ringbuf_read_next_pkt polar_ringbuf_update_ref
proof (unfold_locales, goal_cases)
  case (1 s hist c t p r)
  then show ?case using rep_wf_pkt[OF 1(1) rb_reads_live[OF 1(1,4)] 1(2)] by simp
next
  case (2 s hist n idx s')
  then show ?case by (rule rb_reserve_law)
next
  case (3 s hist c idx raw len)
  then show ?case by (rule rb_set_len_law)
next
  case (4 s hist c idx p offset buf)
  then show ?case by (rule rb_write_law)
next
  case (5 s hist c idx p t)
  then show ?case using set_flag_rep[of s hist c p t] rb_reads_frame[of "polar_ringbuf_set_pkt_flag s idx t" s]
    by (auto simp: rb_pkt_at_def)
next
  case (6 s hist r c)
  then show ?case using avail_pos_iff[of s hist r] by (simp add: rb_reads_def)
next
  case (7 s hist r c)
  then show ?case using next_ready_rep[of s hist r] by (auto simp: rb_reads_def split: pkt.splits)
next
  case (8 s hist r c t p offset n)
  then show ?case using read_next_rep[of s hist r t p] by (auto simp: rb_reads_def)
next
  case (9 s hist r c t p)
  then show ?case using update_ref_rep[of s hist r p t]
    by (auto simp: rb_reads_def polar_ringbuf_update_ref_def Let_def)
qed

end
