(* ===== verification/Polar_Queue.thy ===== *)
theory Polar_Queue
  imports Packet_Log
begin

text \<open>
  The streaming side of \<open>polar_queue_manager.c\<close>: the primary's walsender pops WAL metadata packets
  from its queue into a message (\<open>polar_xlog_send_queue_raw_data_pop\<close>) and the replica's walreceiver
  pushes the message into its own queue (\<open>polar_xlog_recv_queue_push\<close>). Both sides are clients of the
  locale \<open>packet_log\<close>; the main result is that the replica's queue receives exactly the packets that
  the primary's reference has passed, in order.
\<close>

section \<open>The receiving side\<close>

text \<open>
  Failures of the push: a PANIC report, or a read past the end of the received message, which the C
  code does not check for.
\<close>

datatype queue_error = Queue_panic | Queue_overread

text \<open>\<open>POLAR_RINGBUF_PKT_SIZE\<close> of a 32 bit length is computed with 32 bits.\<close>

definition POLAR_RINGBUF_PKT_SIZE32 :: "uint32 \<Rightarrow> uint32" where
  "POLAR_RINGBUF_PKT_SIZE32 pktlen = pktlen + 5"

abbreviation (input) PKT_WAL_META_READY :: uint8 where
  "PKT_WAL_META_READY \<equiv> POLAR_RINGBUF_PKT_WAL_META OR POLAR_RINGBUF_PKT_READY"

text \<open>\<open>while (polar_ringbuf_free_size(queue) < n) polar_ringbuf_free_up(queue, n, callback);\<close>\<close>

partial_function (option) make_room ::
    "(polar_ringbuf_data_t \<Rightarrow> polar_ringbuf_data_t) \<Rightarrow> polar_ringbuf_data_t \<Rightarrow> nat
      \<Rightarrow> polar_ringbuf_data_t option" where
  "make_room wait queue n =
    (if polar_ringbuf_free_size queue < int n
     then case polar_ringbuf_free_up wait queue n of
            None \<Rightarrow> None
          | Some queue \<Rightarrow> make_room wait queue n
     else Some queue)"

text \<open>
  One turn of the loop of \<open>polar_xlog_recv_queue_push\<close>: \<open>buf\<close> is what is left of the message, the result
  is the queue and the length of the packet pushed.
\<close>

definition recv_push_packet ::
    "(polar_ringbuf_data_t \<Rightarrow> polar_ringbuf_data_t) \<Rightarrow> polar_ringbuf_data_t \<Rightarrow> uint8 list
      \<Rightarrow> (queue_error + polar_ringbuf_data_t \<times> nat) option" where
  "recv_push_packet wait queue buf =
    (if length buf < 4 then Some (Inl Queue_overread)
     else let pktlen = le_word (take 4 buf) :: uint32;
              buf = drop 4 buf;
              n = unat (POLAR_RINGBUF_PKT_SIZE32 pktlen)
          in case make_room wait queue n of
               None \<Rightarrow> None
             | Some queue \<Rightarrow>
                let (idx, queue) = polar_ringbuf_pkt_reserve queue n
                in if idx \<ge> rb_size queue then Some (Inl Queue_panic)
                   else let queue = polar_ringbuf_set_pkt_length queue idx pktlen
                        in if length buf < unat pktlen then Some (Inl Queue_overread)
                           else case polar_ringbuf_pkt_write queue idx 0 (take (unat pktlen) buf) of
                                  None \<Rightarrow> Some (Inl Queue_panic)
                                | Some queue \<Rightarrow>
                                   Some (Inr (polar_ringbuf_set_pkt_flag queue idx PKT_WAL_META_READY,
                                              unat pktlen)))"

partial_function (option) recv_push_loop ::
    "(polar_ringbuf_data_t \<Rightarrow> polar_ringbuf_data_t) \<Rightarrow> polar_ringbuf_data_t \<Rightarrow> uint8 list \<Rightarrow> nat \<Rightarrow> nat
      \<Rightarrow> (queue_error + polar_ringbuf_data_t) option" where
  "recv_push_loop wait queue buf len copy_len =
    (case recv_push_packet wait queue buf of
       None \<Rightarrow> None
     | Some (Inl e) \<Rightarrow> Some (Inl e)
     | Some (Inr (queue, pktlen)) \<Rightarrow>
         let copy_len = copy_len + 4 + pktlen; buf = drop (4 + pktlen) buf
         in if copy_len < len then recv_push_loop wait queue buf len copy_len
            else if copy_len \<noteq> len then Some (Inl Queue_panic)
            else Some (Inr queue))"

definition polar_xlog_recv_queue_push ::
    "(polar_ringbuf_data_t \<Rightarrow> polar_ringbuf_data_t) \<Rightarrow> polar_ringbuf_data_t \<Rightarrow> uint8 list \<Rightarrow> nat
      \<Rightarrow> (queue_error + polar_ringbuf_data_t) option" where
  "polar_xlog_recv_queue_push wait queue buf len = recv_push_loop wait queue buf len 0"

definition polar_xlog_recv_queue_push_storage_begin ::
    "(polar_ringbuf_data_t \<Rightarrow> polar_ringbuf_data_t) \<Rightarrow> polar_ringbuf_data_t \<Rightarrow> polar_ringbuf_data_t option" where
  "polar_xlog_recv_queue_push_storage_begin wait queue =
    (case make_room wait queue POLAR_RINGBUF_PKTHDRSIZE of
       None \<Rightarrow> None
     | Some queue \<Rightarrow>
         let (idx, queue) = polar_ringbuf_pkt_reserve queue POLAR_RINGBUF_PKTHDRSIZE;
             queue = polar_ringbuf_set_pkt_length queue idx 0
         in Some (polar_ringbuf_set_pkt_flag queue idx
              (POLAR_RINGBUF_PKT_WAL_STORAGE_BEGIN OR POLAR_RINGBUF_PKT_READY)))"

section \<open>The sending side\<close>

text \<open>
  Reading an LSN into a variable that holds \<open>lsn\<close>: a packet shorter than 8 bytes overwrites only the
  low bytes, and an empty one nothing.
\<close>

definition read_lsn :: "polar_ringbuf_data_t \<Rightarrow> polar_ringbuf_ref_t \<Rightarrow> XLogRecPtr \<Rightarrow> XLogRecPtr" where
  "read_lsn queue ref lsn =
    (case polar_ringbuf_read_next_pkt queue ref 0 8 of
       None \<Rightarrow> lsn
     | Some bs \<Rightarrow> le_word (mem_write (le_bytes 8 lsn) 0 bs))"

definition polar_xlog_send_queue_next_lsn ::
    "polar_ringbuf_data_t \<Rightarrow> polar_ringbuf_ref_t \<Rightarrow> (XLogRecPtr \<times> uint32 option) result" where
  "polar_xlog_send_queue_next_lsn queue ref =
    (if polar_ringbuf_avail queue ref > 0 \<and>
        fst (polar_ringbuf_next_ready_pkt queue ref) \<noteq> POLAR_RINGBUF_PKT_INVALID_TYPE
     then let pktlen = snd (polar_ringbuf_next_ready_pkt queue ref)
          in rbind (POLAR_ASSERT_PANIC (unat pktlen > 8))
               (\<lambda>_. Inr (read_lsn queue ref InvalidXLogRecPtr, Some pktlen))
     else Inr (InvalidXLogRecPtr, None))"

text \<open>
  The loop of \<open>polar_xlog_send_queue_raw_data_pop\<close>. \<open>flushable\<close> is \<open>POLAR_LOGINDEX_FLUSHABLE_LSN()\<close>; the
  result is the bytes copied into the message, the queue and the last LSN copied.
\<close>

function raw_data_pop_loop ::
    "polar_ringbuf_data_t \<Rightarrow> polar_ringbuf_ref_t \<Rightarrow> nat \<Rightarrow> XLogRecPtr \<Rightarrow> XLogRecPtr \<Rightarrow> XLogRecPtr
      \<Rightarrow> uint8 list \<Rightarrow> (uint8 list \<times> polar_ringbuf_data_t \<times> XLogRecPtr) result" where
  "raw_data_pop_loop queue ref free_size flushable lsn max_lsn out =
    (if polar_ringbuf_avail queue ref > 0 \<and>
        fst (polar_ringbuf_next_ready_pkt queue ref) \<noteq> POLAR_RINGBUF_PKT_INVALID_TYPE
     then let pktlen = snd (polar_ringbuf_next_ready_pkt queue ref)
          in if unat pktlen + 4 > free_size then Inr (out, queue, max_lsn)
             else let lsn = read_lsn queue ref lsn
                  in if lsn > flushable then Inr (out, queue, max_lsn)
                     else case polar_ringbuf_read_next_pkt queue ref 0 (unat pktlen) of
                            None \<Rightarrow> Inl PANIC
                          | Some bs \<Rightarrow>
                              if length bs \<noteq> unat pktlen then Inl PANIC
                              else raw_data_pop_loop (polar_ringbuf_update_ref queue ref) ref
                                     (free_size - (unat pktlen + 4)) flushable lsn lsn
                                     (out @ le_bytes 4 pktlen @ bs)
     else Inr (out, queue, max_lsn))"
  by pat_completeness auto
termination
  by (relation "measure (\<lambda>(queue, ref, free_size, flushable, lsn, max_lsn, out). free_size)") auto

declare raw_data_pop_loop.simps [simp del]

definition polar_xlog_send_queue_raw_data_pop ::
    "polar_ringbuf_data_t \<Rightarrow> polar_ringbuf_ref_t \<Rightarrow> nat \<Rightarrow> XLogRecPtr \<Rightarrow> XLogRecPtr
      \<Rightarrow> (uint8 list \<times> polar_ringbuf_data_t \<times> XLogRecPtr) result" where
  "polar_xlog_send_queue_raw_data_pop queue ref size_limit flushable max_lsn =
     raw_data_pop_loop queue ref size_limit flushable InvalidXLogRecPtr max_lsn []"

section \<open>What a message contains\<close>

text \<open>A packet in a message: its length in 4 bytes, then its bytes.\<close>

definition frame :: "uint8 list \<Rightarrow> uint8 list" where
  "frame p = le_bytes 4 (of_nat (length p) :: uint32) @ p"

abbreviation frames :: "uint8 list list \<Rightarrow> uint8 list" where
  "frames ps \<equiv> concat (map frame ps)"

text \<open>The published packets from number \<open>c\<close> on have these payloads.\<close>

definition payloads_from :: "pkt list \<Rightarrow> nat \<Rightarrow> uint8 list list \<Rightarrow> bool" where
  "payloads_from hist c ps \<longleftrightarrow> list_all2 (\<lambda>q p. \<exists>t. q = Ready t p) (take (length ps) (drop c hist)) ps"

lemma payloads_from_Nil [simp]: "payloads_from hist c []"
  by (simp add: payloads_from_def)

lemma payloads_from_Cons:
  "c < length hist \<Longrightarrow> hist ! c = Ready t p \<Longrightarrow> payloads_from hist (c + 1) ps \<Longrightarrow> payloads_from hist c (p # ps)"
  by (simp add: payloads_from_def Cons_nth_drop_Suc[symmetric])

lemma length_frame [simp]: "length (frame p) = 4 + length p"
  by (simp add: frame_def)

text \<open>What one turn of the pop loop does, in terms of the log.\<close>

lemma raw_data_pop_turn:
  assumes rep: "rb_rep queue hist" and rd: "rb_reads queue ref c"
    and nx: "polar_ringbuf_avail queue ref > 0" "fst (polar_ringbuf_next_ready_pkt queue ref) \<noteq> 0"
  obtains t p where "c < length hist" "hist ! c = Ready t p"
    "snd (polar_ringbuf_next_ready_pkt queue ref) = of_nat (length p)"
    "unat (of_nat (length p) :: uint32) = length p"
    "polar_ringbuf_read_next_pkt queue ref 0 (length p) = (if p = [] then None else Some p)"
    "8 \<le> length p \<Longrightarrow> read_lsn queue ref lsn = le_word (take 8 p)"
proof -
  from rbq.next_ready[OF rep rd nx] obtain t p where p: "c < length hist" "hist ! c = Ready t p"
    "snd (polar_ringbuf_next_ready_pkt queue ref) = of_nat (length p)" "length p < 2 ^ 32" by metis
  note r = rbq.read_law[OF rep rd p(1,2), of 0]
  have "mem_write (le_bytes 8 lsn) 0 (take 8 p) = take 8 p" if "8 \<le> length p"
    using that by (simp add: mem_write_def)
  then have "8 \<le> length p \<Longrightarrow> read_lsn queue ref lsn = le_word (take 8 p)"
    using r[of 8] by (auto simp: read_lsn_def)
  then show ?thesis
    using that[OF p(1-3)] p(4) r[of "length p"] by (auto simp: unsigned_of_nat take_bit_nat_eq_self)
qed

lemma raw_data_pop_sound:
  assumes "raw_data_pop_loop queue ref free flushable lsn ml out = Inr (msg, queue', ml')"
    and "rb_rep queue hist" "rb_reads queue ref c"
  shows "\<exists>ps. payloads_from hist c ps \<and> msg = out @ frames ps \<and> length (frames ps) \<le> free \<and>
    (\<forall>p \<in> set ps. p \<noteq> [] \<and> length p < 2 ^ 32 \<and> (8 \<le> length p \<longrightarrow> le_word (take 8 p) \<le> flushable)) \<and>
    rb_rep queue' hist \<and> rb_reads queue' ref (c + length ps)"
  using assms
proof (induction queue ref free flushable lsn ml out arbitrary: c rule: raw_data_pop_loop.induct)
  case (1 queue ref free flushable lsn ml out)
  note rep = "1.prems"(2) and rd = "1.prems"(3)
  let ?pl = "snd (polar_ringbuf_next_ready_pkt queue ref)"
  let ?more = "polar_ringbuf_avail queue ref > 0 \<and> fst (polar_ringbuf_next_ready_pkt queue ref) \<noteq> 0 \<and>
    \<not> unat ?pl + 4 > free \<and> \<not> read_lsn queue ref lsn > flushable"
  show ?case
  proof (cases ?more)
    case True
    from raw_data_pop_turn[OF rep rd, of lsn] True obtain t p where
      p: "c < length hist" "hist ! c = Ready t p" "?pl = of_nat (length p)"
        "unat (of_nat (length p) :: uint32) = length p"
        "polar_ringbuf_read_next_pkt queue ref 0 (length p) = (if p = [] then None else Some p)"
        "8 \<le> length p \<Longrightarrow> read_lsn queue ref lsn = le_word (take 8 p)" by metis
    have eq: "raw_data_pop_loop queue ref free flushable lsn ml out =
      (if p = [] then Inl PANIC else raw_data_pop_loop (polar_ringbuf_update_ref queue ref) ref
        (free - (length p + 4)) flushable (read_lsn queue ref lsn) (read_lsn queue ref lsn)
        (out @ le_bytes 4 ?pl @ p))"
      using True p by (subst raw_data_pop_loop.simps) (simp add: Let_def)
    then have ne: "p \<noteq> []" using "1.prems"(1) by (auto split: if_splits)
    note ad = rbq.advance_law[OF rep rd p(1,2)]
    have "\<exists>ps. payloads_from hist (c + 1) ps \<and> msg = (out @ le_bytes 4 ?pl @ p) @ frames ps \<and>
        length (frames ps) \<le> free - (unat ?pl + 4) \<and>
        (\<forall>p \<in> set ps. p \<noteq> [] \<and> length p < 2 ^ 32 \<and> (8 \<le> length p \<longrightarrow> le_word (take 8 p) \<le> flushable)) \<and>
        rb_rep queue' hist \<and> rb_reads queue' ref (c + 1 + length ps)"
      by (rule "1.IH"[OF _ refl _ refl]) (use True p ne eq "1.prems"(1) ad in auto)
    then obtain ps where ps: "payloads_from hist (c + 1) ps" "msg = (out @ le_bytes 4 ?pl @ p) @ frames ps"
        "length (frames ps) \<le> free - (unat ?pl + 4)"
        "\<forall>p \<in> set ps. p \<noteq> [] \<and> length p < 2 ^ 32 \<and> (8 \<le> length p \<longrightarrow> le_word (take 8 p) \<le> flushable)"
        "rb_rep queue' hist" "rb_reads queue' ref (c + 1 + length ps)" by blast
    have "length p < 2 ^ 32" using rbq.rep_len[OF rep p(1,2) rd] .
    moreover have "length (frames (p # ps)) \<le> free" using ps(3) True p(3,4) by auto
    moreover have "8 \<le> length p \<longrightarrow> le_word (take 8 p) \<le> flushable" using p(6) True by auto
    moreover have "msg = out @ frames (p # ps)" using ps(2) p(3) by (simp add: frame_def)
    ultimately show ?thesis
      using payloads_from_Cons[OF p(1,2) ps(1)] ps(4-6) ne
      by (intro exI[of _ "p # ps"]) (auto simp: add.commute add.left_commute)
  next
    case False
    then have "msg = out" "queue' = queue"
      using "1.prems"(1) by (subst (asm) raw_data_pop_loop.simps; auto simp: Let_def split: if_splits)+
    then show ?thesis using rep rd by (intro exI[of _ "[]"]) simp
  qed
qed

section \<open>Pushing a message\<close>

lemma make_room_enough: "int n \<le> polar_ringbuf_free_size queue \<Longrightarrow> make_room wait queue n = Some queue"
  by (subst make_room.simps) simp

text \<open>Neither reserving nor writing changes the size and what is recycled.\<close>

lemma pushed_free_size:
  assumes "rb_rep queue hist" "rb_rep queue' (hist @ [q])" "rb_size queue' = rb_size queue"
    "min_visit queue' = min_visit queue"
  shows "polar_ringbuf_free_size queue' = polar_ringbuf_free_size queue - int (length (enc q))"
proof -
  have "unat (min_visit queue) \<le> length hist" using assms(1) by (simp add: rb_rep_def content_rep_def)
  then have "live queue' (hist @ [q]) = live queue hist @ [q]" using assms(4) by (simp add: live_def)
  then show ?thesis
    using free_size_eq[of queue hist] free_size_eq[of queue' "hist @ [q]"] assms by (simp add: rb_rep_def)
qed

lemma reserve_idx_less:
  "rb_rep queue hist \<Longrightarrow> polar_ringbuf_pkt_reserve queue n = (idx, queue') \<Longrightarrow> idx < rb_size queue'"
  using phys_less[of queue] by (auto simp: polar_ringbuf_pkt_reserve_def Let_def rb_rep_def content_rep_def)

lemma pkt_write_size: "polar_ringbuf_pkt_write rb idx offset buf = Some rb' \<Longrightarrow> rb_size rb' = rb_size rb"
  by (auto simp: polar_ringbuf_pkt_write_def Let_def split: if_splits)

lemma recv_push_packet_frame:
  assumes rep: "rb_rep queue hist" and room: "int (length p + 5) \<le> polar_ringbuf_free_size queue"
    and "length hist + 1 < 2 ^ 64 - 1" and p: "p \<noteq> []" "length p + 5 < 2 ^ 32"
  obtains queue' where "recv_push_packet wait queue (frame p @ rest) = Some (Inr (queue', length p))"
    "rb_rep queue' (hist @ [Ready PKT_WAL_META_READY p])"
    "polar_ringbuf_free_size queue' = polar_ringbuf_free_size queue - int (length p + 5)"
    "\<And>ref c. rb_reads queue ref c \<Longrightarrow> rb_reads queue' ref c"
proof -
  have len: "unat (of_nat (length p) :: uint32) = length p"
    "unat (POLAR_RINGBUF_PKT_SIZE32 (of_nat (length p))) = length p + 5"
    using p(2) by (simp_all add: POLAR_RINGBUF_PKT_SIZE32_def unat_word_ariths unsigned_of_nat take_bit_nat_eq_self)
  obtain idx q1 where res: "polar_ringbuf_pkt_reserve queue (length p + 5) = (idx, q1)" by (rule prod.exhaust)
  have "length p < 2 ^ 32" "(PKT_WAL_META_READY :: uint8) AND 1 = 1" using p(2) by simp_all
  from rbq.push_packet[OF rep room assms(3) this(1) p(1) this(2) res] obtain q2 where
    q2: "polar_ringbuf_pkt_write (polar_ringbuf_set_pkt_length q1 idx (of_nat (length p))) idx 0 p = Some q2"
      "rb_rep (polar_ringbuf_set_pkt_flag q2 idx PKT_WAL_META_READY) (hist @ [Ready PKT_WAL_META_READY p])"
      "\<And>ref c. rb_reads queue ref c \<Longrightarrow> rb_reads (polar_ringbuf_set_pkt_flag q2 idx PKT_WAL_META_READY) ref c"
    by blast
  let ?q3 = "polar_ringbuf_set_pkt_flag q2 idx PKT_WAL_META_READY"
  have fr: "rb_size ?q3 = rb_size queue" "min_visit ?q3 = min_visit queue"
    using reserve_frame[OF res] pkt_write_frame(3)[OF q2(1)] pkt_write_size[OF q2(1)]
    by (simp_all add: polar_ringbuf_set_pkt_flag_def polar_ringbuf_set_pkt_length_def)
  have "recv_push_packet wait queue (frame p @ rest) = Some (Inr (?q3, length p))"
    using make_room_enough[OF room] res q2(1) reserve_idx_less[OF rep res]
    by (simp add: recv_push_packet_def frame_def len Let_def)
  moreover have "polar_ringbuf_free_size ?q3 = polar_ringbuf_free_size queue - int (length p + 5)"
    using pushed_free_size[OF rep q2(2) fr] by simp
  ultimately show ?thesis using q2(2,3) that by blast
qed

lemma recv_push_loop_frames:
  assumes "ps \<noteq> []" "rb_rep queue hist" "length hist + length ps < 2 ^ 64 - 1"
    and "(\<Sum>p\<leftarrow>ps. int (length p + 5)) \<le> polar_ringbuf_free_size queue"
    and "\<forall>p \<in> set ps. p \<noteq> [] \<and> length p + 5 < 2 ^ 32"
  shows "\<exists>queue'. recv_push_loop wait queue (frames ps) (copied + length (frames ps)) copied = Some (Inr queue') \<and>
    rb_rep queue' (hist @ map (Ready PKT_WAL_META_READY) ps) \<and>
    (\<forall>ref c. rb_reads queue ref c \<longrightarrow> rb_reads queue' ref c)"
  using assms
proof (induction ps arbitrary: queue hist copied)
  case (Cons p ps)
  have nonneg: "0 \<le> (\<Sum>p\<leftarrow>ps. int (length p + 5))" by (rule sum_list_nonneg) auto
  then have room: "int (length p + 5) \<le> polar_ringbuf_free_size queue" using Cons.prems(4) by simp
  have one: "length hist + 1 < 2 ^ 64 - 1" "p \<noteq> []" "length p + 5 < 2 ^ 32" using Cons.prems by auto
  from recv_push_packet_frame[OF Cons.prems(2) room one, of wait "frames ps"] obtain q1 where
    q1: "recv_push_packet wait queue (frame p @ frames ps) = Some (Inr (q1, length p))"
      "rb_rep q1 (hist @ [Ready PKT_WAL_META_READY p])"
      "polar_ringbuf_free_size q1 = polar_ringbuf_free_size queue - int (length p + 5)"
      "\<And>ref c. rb_reads queue ref c \<Longrightarrow> rb_reads q1 ref c" by blast
  show ?case
  proof (cases "ps = []")
    case True
    then show ?thesis using q1 by (subst recv_push_loop.simps) auto
  next
    case False
    then have pos: "0 < length (frames ps)" by (cases ps) auto
    have "\<exists>queue'. recv_push_loop wait q1 (frames ps)
        ((copied + 4 + length p) + length (frames ps)) (copied + 4 + length p) = Some (Inr queue') \<and>
      rb_rep queue' ((hist @ [Ready PKT_WAL_META_READY p]) @ map (Ready PKT_WAL_META_READY) ps) \<and>
      (\<forall>ref c. rb_reads q1 ref c \<longrightarrow> rb_reads queue' ref c)"
      using Cons.prems q1(3) by (intro Cons.IH[OF False q1(2)]) auto
    moreover have "recv_push_loop wait queue (frames (p # ps)) (copied + length (frames (p # ps))) copied
        = recv_push_loop wait q1 (frames ps) ((copied + 4 + length p) + length (frames ps)) (copied + 4 + length p)"
      using q1(1) pos by (subst recv_push_loop.simps) (simp add: add.assoc)
    ultimately show ?thesis using q1(4) by auto
  qed
qed simp

lemma frames_bound:
  "(\<Sum>p\<leftarrow>ps. int (length p + 5)) \<le> 2 * int (length (frames ps))"
  by (induction ps) auto

lemma length_ps_frames: "length ps \<le> length (frames ps)"
  by (induction ps) auto

lemma in_frames_length: "p \<in> set ps \<Longrightarrow> length p + 4 \<le> length (frames ps)"
  by (induction ps) auto

lemma raw_data_pop_no_panic:
  assumes "rb_rep queue hist" "rb_reads queue ref c" "\<forall>t. Ready t [] \<notin> set hist"
  shows "\<exists>r. raw_data_pop_loop queue ref free flushable lsn ml out = Inr r"
  using assms
proof (induction queue ref free flushable lsn ml out arbitrary: c rule: raw_data_pop_loop.induct)
  case (1 queue ref free flushable lsn ml out)
  let ?pl = "snd (polar_ringbuf_next_ready_pkt queue ref)"
  let ?more = "polar_ringbuf_avail queue ref > 0 \<and> fst (polar_ringbuf_next_ready_pkt queue ref) \<noteq> 0 \<and>
    \<not> unat ?pl + 4 > free \<and> \<not> read_lsn queue ref lsn > flushable"
  show ?case
  proof (cases ?more)
    case True
    from raw_data_pop_turn[OF "1.prems"(1,2), of lsn] True obtain t p where
      p: "c < length hist" "hist ! c = Ready t p" "?pl = of_nat (length p)"
        "unat (of_nat (length p) :: uint32) = length p"
        "polar_ringbuf_read_next_pkt queue ref 0 (length p) = (if p = [] then None else Some p)" by metis
    have ne: "p \<noteq> []" using "1.prems"(3) p(1,2) nth_mem by metis
    have "\<exists>r. raw_data_pop_loop (polar_ringbuf_update_ref queue ref) ref (free - (unat ?pl + 4)) flushable
        (read_lsn queue ref lsn) (read_lsn queue ref lsn) (out @ le_bytes 4 ?pl @ p) = Inr r"
      by (rule "1.IH"[OF _ refl _ refl])
        (use True p ne rbq.advance_law[OF "1.prems"(1,2) p(1,2)] "1.prems"(3) in auto)
    then show ?thesis using True p ne by (subst raw_data_pop_loop.simps) (simp add: Let_def)
  next
    case False
    then show ?thesis by (subst raw_data_pop_loop.simps) (auto simp: Let_def)
  qed
qed

section \<open>Properties\<close>

text \<open>
  C13. Streaming: the message the primary's walsender pops, pushed on a replica's queue that has room
  for it, appends to the replica's queue exactly the packets the primary's reference has passed, in
  order, and moves no reference of the replica; every record popped ends at or before the flushed
  LSN, so a replica never gets WAL that the primary could lose.
\<close>

theorem queue_stream_roundtrip:
  assumes "rb_rep queue hist" "rb_reads queue ref c"
    and "polar_xlog_send_queue_raw_data_pop queue ref limit flushable max_lsn = Inr (msg, queue', max_lsn')"
    and "msg \<noteq> []" "length msg + 1 < 2 ^ 32"
    and "rb_rep replica rhist" "length rhist + length msg < 2 ^ 64 - 1"
    and "2 * int (length msg) \<le> polar_ringbuf_free_size replica"
  shows "\<exists>ps replica'. payloads_from hist c ps \<and> rb_rep queue' hist \<and> rb_reads queue' ref (c + length ps) \<and>
    length msg \<le> limit \<and>
    (\<forall>p \<in> set ps. 8 \<le> length p \<longrightarrow> le_word (take 8 p) \<le> flushable) \<and>
    polar_xlog_recv_queue_push wait replica msg (length msg) = Some (Inr replica') \<and>
    rb_rep replica' (rhist @ map (Ready PKT_WAL_META_READY) ps) \<and>
    (\<forall>r k. rb_reads replica r k \<longrightarrow> rb_reads replica' r k)"
proof -
  obtain ps where ps: "payloads_from hist c ps" "msg = frames ps" "length (frames ps) \<le> limit"
      "\<forall>p \<in> set ps. p \<noteq> [] \<and> length p < 2 ^ 32 \<and> (8 \<le> length p \<longrightarrow> le_word (take 8 p) \<le> flushable)"
      "rb_rep queue' hist" "rb_reads queue' ref (c + length ps)"
    using raw_data_pop_sound[OF assms(3)[unfolded polar_xlog_send_queue_raw_data_pop_def] assms(1,2)] by auto
  have a: "ps \<noteq> []" using assms(4) ps(2) by auto
  have b: "\<forall>p \<in> set ps. p \<noteq> [] \<and> length p + 5 < 2 ^ 32"
    using ps(2,4) in_frames_length[of _ ps] assms(5) by fastforce
  have c: "length rhist + length ps < 2 ^ 64 - 1"
    using length_ps_frames[of ps] assms(7)[unfolded ps(2)] by linarith
  have d: "(\<Sum>p\<leftarrow>ps. int (length p + 5)) \<le> polar_ringbuf_free_size replica"
    using frames_bound[of ps] assms(8)[unfolded ps(2)] by linarith
  from recv_push_loop_frames[OF a assms(6) c d b, of wait 0] obtain replica' where
    "recv_push_loop wait replica (frames ps) (length (frames ps)) 0 = Some (Inr replica')"
    "rb_rep replica' (rhist @ map (Ready PKT_WAL_META_READY) ps)"
    "\<forall>r k. rb_reads replica r k \<longrightarrow> rb_reads replica' r k" by auto
  then show ?thesis using ps by (intro exI[of _ ps] exI[of _ replica']) (auto simp: polar_xlog_recv_queue_push_def)
qed

theorem queue_stream_roundtrip_witness:
  "\<exists>replica'. polar_xlog_recv_queue_push (\<lambda>q. q) demo1 [2, 0, 0, 0, 0xAB, 0xCD] 6 = Some (Inr replica') \<and>
     rb_rep replica' [Ready 0x11 [0xAB, 0xCD]]"
proof -
  have rd: "rb_reads demo5 demo_ref 0" using demo_ref_facts(3,6) by (simp add: rb_reads_def)
  have "ring_inv (demo1, [])"
    using ring_step_inv[OF demo_steps_reserved(1)] ring_inv_init[OF demo_zeroed] by (simp add: demo0_def)
  then have rep: "rb_rep demo1 []" by (rule ring_invD)
  let ?pop = "polar_xlog_send_queue_raw_data_pop demo5 demo_ref 10 0xFFFFFF 0"
  have "\<not> isl ?pop \<and> fst (projr ?pop) = [2, 0, 0, 0, 0xAB, 0xCD]" by code_simp
  then obtain q l where pop: "?pop = Inr ([2, 0, 0, 0, 0xAB, 0xCD], q, l)" by (cases ?pop) auto
  have six: "Suc (Suc (Suc (Suc (Suc (Suc 0))))) = 6" by simp
  have "12 \<le> polar_ringbuf_free_size demo1" by code_simp
  then obtain ps replica' where ps: "payloads_from [Ready 0x11 [0xAB, 0xCD]] 0 ps"
      "polar_xlog_recv_queue_push (\<lambda>q. q) demo1 [2, 0, 0, 0, 0xAB, 0xCD] 6 = Some (Inr replica')"
      "rb_rep replica' (map (Ready 0x11) ps)" "rb_reads q demo_ref (length ps)" "rb_rep q [Ready 0x11 [0xAB, 0xCD]]"
    using queue_stream_roundtrip[OF ring_invD(1)[OF demo_inv(2)] rd pop _ _ rep, of "\<lambda>q. q"]
    by (auto simp: six)
  have "cursor q (ref_index demo_ref) = 1"
  proof -
    have "cursor (fst (snd (projr ?pop))) (ref_index demo_ref) = 1" by code_simp
    then show ?thesis by (simp add: pop)
  qed
  then have "length ps = 1" using ps(4) by (simp add: rb_reads_def)
  then have "ps = [[0xAB, 0xCD]]" using ps(1) by (cases ps) (auto simp: payloads_from_def)
  then show ?thesis using ps(2,3) by auto
qed

end
