(* ===== verification/Mini_Trans.thy ===== *)
theory Mini_Trans
  imports Polar_Bitpos
begin

text \<open>
  Mini transactions, from \<open>polar_mini_transaction.c\<close>: while one WAL record is added to the logindex, the
  pages it changes are locked in a small hash table in shared memory with coalesced chains. The
  lightweight lock of the transaction makes each access to the table atomic; waiting for the lock of
  a page is a step of its own in \<open>Mini_Trans_Steps\<close>.
\<close>

section \<open>Data\<close>

definition MINI_TRANSACTION_HASH_SIZE :: nat where "MINI_TRANSACTION_HASH_SIZE = 31"

definition MINI_TRANSACTION_TABLE_SIZE :: nat where
  "MINI_TRANSACTION_TABLE_SIZE = MINI_TRANSACTION_HASH_SIZE + MINI_TRANSACTION_HASH_SIZE div 5"

abbreviation (input) POLAR_INVALID_PAGE_LOCK :: nat where "POLAR_INVALID_PAGE_LOCK \<equiv> 0"

record mini_trans_info_t =
  mt_tag :: BufferTag
  mt_refcount :: uint32
  mt_next :: nat
  mt_added :: bool

record mini_trans_data_t =
  mt_started :: bool
  mt_lsn :: XLogRecPtr
  mt_occupied :: uint64
  mt_info :: "nat \<Rightarrow> mini_trans_info_t"

definition zero_info :: mini_trans_info_t where
  "zero_info = \<lparr>mt_tag = \<lparr>rnode = \<lparr>spcNode = 0, dbNode = 0, relNode = 0\<rparr>, forkNum = 0, blockNum = 0\<rparr>,
     mt_refcount = 0, mt_next = 0, mt_added = False\<rparr>"

text \<open>The page locks a process holds; there is one mini transaction in shared memory, \<open>pr_trans\<close> tells
  whether the pointer of the process to it is set.\<close>

record proc_occupied_mini_trans_t =
  pr_trans :: bool
  acquired_lock :: "nat \<Rightarrow> bool"

abbreviation put_info :: "mini_trans_data_t \<Rightarrow> nat \<Rightarrow> mini_trans_info_t \<Rightarrow> mini_trans_data_t" where
  "put_info tr i x \<equiv> tr\<lparr>mt_info := (mt_info tr)(i := x)\<rparr>"

section \<open>Operations\<close>

definition MINI_TRANS_IS_OCCUPIED :: "mini_trans_data_t \<Rightarrow> nat \<Rightarrow> bool" where
  "MINI_TRANS_IS_OCCUPIED tr key = POLAR_BIT_IS_OCCUPIED (mt_occupied tr) key"

definition MINI_TRANS_OCCUPY :: "mini_trans_data_t \<Rightarrow> nat \<Rightarrow> mini_trans_data_t" where
  "MINI_TRANS_OCCUPY tr key = tr\<lparr>mt_occupied := POLAR_BIT_OCCUPY (mt_occupied tr) key\<rparr>"

definition mini_trans_init :: mini_trans_data_t where
  "mini_trans_init = \<lparr>mt_started = False, mt_lsn = InvalidXLogRecPtr, mt_occupied = 0, mt_info = (\<lambda>_. zero_info)\<rparr>"

definition polar_logindex_mini_trans_start :: "mini_trans_data_t \<Rightarrow> XLogRecPtr \<Rightarrow> mini_trans_data_t result" where
  "polar_logindex_mini_trans_start tr lsn =
    (if mt_lsn tr \<noteq> InvalidXLogRecPtr \<or> mt_started tr then Inl PANIC
     else Inr (tr\<lparr>mt_started := True, mt_lsn := lsn\<rparr>))"

definition mini_trans_set_info :: "mini_trans_info_t \<Rightarrow> BufferTag \<Rightarrow> mini_trans_info_t" where
  "mini_trans_set_info info tag = info\<lparr>mt_tag := tag, mt_refcount := 1, mt_next := 0\<rparr>"

text \<open>The search for an empty bucket from the end of the table; 0 if there is none.\<close>

fun find_empty :: "mini_trans_data_t \<Rightarrow> nat \<Rightarrow> nat" where
  "find_empty tr 0 = 0"
| "find_empty tr (Suc i) = (if \<not> MINI_TRANS_IS_OCCUPIED tr (Suc i) then Suc i else find_empty tr i)"

text \<open>The loop to the last node of a chain, from the node at index \<open>i\<close>.\<close>

partial_function (option) last_node :: "mini_trans_data_t \<Rightarrow> nat \<Rightarrow> nat option" where
  "last_node tr i =
    (if mt_next (mt_info tr i) \<noteq> 0 then last_node tr (mt_next (mt_info tr i) - 1) else Some i)"

definition mini_trans_insert_tag ::
    "mini_trans_data_t \<Rightarrow> BufferTag \<Rightarrow> nat \<Rightarrow> (nat \<times> mini_trans_data_t) result option" where
  "mini_trans_insert_tag tr tag key =
    (if mt_lsn tr = InvalidXLogRecPtr \<or> \<not> mt_started tr then Some (Inl PANIC)
     else if key \<ge> MINI_TRANSACTION_TABLE_SIZE then Some (Inl PANIC)
     else if \<not> MINI_TRANS_IS_OCCUPIED tr (key + 1) then
       let tr = MINI_TRANS_OCCUPY tr (key + 1)
       in Some (Inr (key + 1, put_info tr key (mini_trans_set_info (mt_info tr key) tag)))
     else
       let i = find_empty tr MINI_TRANSACTION_TABLE_SIZE
       in if i = 0 then Some (Inr (i, tr))
          else
            let tr = MINI_TRANS_OCCUPY tr i;
                tr = put_info tr (i - 1) (mini_trans_set_info (mt_info tr (i - 1)) tag)
            in case last_node tr key of
                 None \<Rightarrow> None
               | Some it \<Rightarrow> Some (Inr (i, put_info tr it ((mt_info tr it)\<lparr>mt_next := i\<rparr>))))"

partial_function (option) find_loop :: "mini_trans_data_t \<Rightarrow> BufferTag \<Rightarrow> nat \<Rightarrow> nat result option" where
  "find_loop tr tag i =
    (if i = 0 then Some (Inr POLAR_INVALID_PAGE_LOCK)
     else if \<not> MINI_TRANS_IS_OCCUPIED tr i then Some (Inl PANIC)
     else if BUFFERTAGS_EQUAL tag (mt_tag (mt_info tr (i - 1))) then Some (Inr i)
     else find_loop tr tag (mt_next (mt_info tr (i - 1))))"

definition mini_trans_find :: "mini_trans_data_t \<Rightarrow> BufferTag \<Rightarrow> nat \<Rightarrow> nat result option" where
  "mini_trans_find tr tag key =
    (if mt_lsn tr = InvalidXLogRecPtr \<or> \<not> mt_started tr then Some (Inl PANIC)
     else if MINI_TRANS_IS_OCCUPIED tr (key + 1) then find_loop tr tag (key + 1)
     else Some (Inr POLAR_INVALID_PAGE_LOCK))"

definition mini_trans_increase_ref ::
    "mini_trans_data_t \<Rightarrow> BufferTag \<Rightarrow> nat \<Rightarrow> (nat \<times> mini_trans_data_t) result option" where
  "mini_trans_increase_ref tr tag key =
    (case mini_trans_find tr tag key of
       None \<Rightarrow> None
     | Some (Inl e) \<Rightarrow> Some (Inl e)
     | Some (Inr i) \<Rightarrow>
         if i \<noteq> POLAR_INVALID_PAGE_LOCK then
           let it = mt_info tr (i - 1)
           in Some (Inr (i, put_info tr (i - 1) (it\<lparr>mt_refcount := mt_refcount it + 1\<rparr>)))
         else Some (Inr (i, tr)))"

text \<open>
  The part of \<open>polar_logindex_mini_trans_cond_key_lock\<close> under the lock of the transaction. The result has
  the page lock, 0 if the page is not in the table, and the LSN the code stores through its pointer.
\<close>

definition polar_logindex_mini_trans_cond_key_lock ::
    "mini_trans_data_t \<Rightarrow> BufferTag \<Rightarrow> nat \<Rightarrow> (nat \<times> XLogRecPtr option \<times> mini_trans_data_t) result option" where
  "polar_logindex_mini_trans_cond_key_lock tr tag key =
    (if mt_started tr \<and> mt_lsn tr \<noteq> InvalidXLogRecPtr then
       case mini_trans_increase_ref tr tag key of
         None \<Rightarrow> None
       | Some (Inl e) \<Rightarrow> Some (Inl e)
       | Some (Inr (l, tr)) \<Rightarrow>
           Some (Inr (l, if l \<noteq> POLAR_INVALID_PAGE_LOCK then Some (mt_lsn tr) else None, tr))
     else Some (Inr (POLAR_INVALID_PAGE_LOCK, None, tr)))"

definition polar_logindex_mini_trans_key_find :: "mini_trans_data_t \<Rightarrow> BufferTag \<Rightarrow> nat \<Rightarrow> XLogRecPtr result option" where
  "polar_logindex_mini_trans_key_find tr tag key =
    (if mt_started tr \<and> mt_lsn tr \<noteq> InvalidXLogRecPtr then
       case mini_trans_find tr tag key of
         None \<Rightarrow> None
       | Some (Inl e) \<Rightarrow> Some (Inl e)
       | Some (Inr i) \<Rightarrow> Some (Inr (if i \<noteq> POLAR_INVALID_PAGE_LOCK then mt_lsn tr else InvalidXLogRecPtr))
     else Some (Inr InvalidXLogRecPtr))"

text \<open>The part of \<open>polar_logindex_mini_trans_key_lock\<close> under the lock of the transaction.\<close>

definition polar_logindex_mini_trans_key_lock ::
    "mini_trans_data_t \<Rightarrow> BufferTag \<Rightarrow> nat \<Rightarrow> (nat \<times> XLogRecPtr option \<times> mini_trans_data_t) result option" where
  "polar_logindex_mini_trans_key_lock tr tag key =
    (case mini_trans_increase_ref tr tag key of
       None \<Rightarrow> None
     | Some (Inl e) \<Rightarrow> Some (Inl e)
     | Some (Inr (l, tr)) \<Rightarrow>
         if l \<noteq> POLAR_INVALID_PAGE_LOCK then Some (Inr (l, Some (mt_lsn tr), tr))
         else
           case mini_trans_insert_tag tr tag key of
             None \<Rightarrow> None
           | Some (Inl e) \<Rightarrow> Some (Inl e)
           | Some (Inr (l, tr)) \<Rightarrow>
               Some (Inr (l, if l \<noteq> POLAR_INVALID_PAGE_LOCK then Some (mt_lsn tr) else None, tr)))"

text \<open>What both locking functions do after the lock of the page was acquired.\<close>

definition note_acquired :: "proc_occupied_mini_trans_t \<Rightarrow> nat \<Rightarrow> proc_occupied_mini_trans_t" where
  "note_acquired p l = p\<lparr>pr_trans := True, acquired_lock := (acquired_lock p)(l - 1 := True)\<rparr>"

text \<open>A full table is an error for the callers that compute the key themselves.\<close>

definition polar_logindex_mini_trans_lock ::
    "(BufferTag \<Rightarrow> uint32) \<Rightarrow> mini_trans_data_t \<Rightarrow> BufferTag \<Rightarrow> (nat \<times> XLogRecPtr option \<times> mini_trans_data_t) result option" where
  "polar_logindex_mini_trans_lock hash tr tag =
    (case polar_logindex_mini_trans_key_lock tr tag (unat (hash tag) mod MINI_TRANSACTION_HASH_SIZE) of
       None \<Rightarrow> None
     | Some (Inl e) \<Rightarrow> Some (Inl e)
     | Some (Inr (l, lsn, tr)) \<Rightarrow>
         if l = POLAR_INVALID_PAGE_LOCK then Some (Inl PANIC) else Some (Inr (l, lsn, tr)))"

text \<open>
  \<open>polar_logindex_mini_trans_unlock\<close>: the checks before the lock of the page is released, and giving up
  the reference under the lock of the transaction afterwards.
\<close>

definition unlock_check :: "proc_occupied_mini_trans_t \<Rightarrow> nat \<Rightarrow> unit result" where
  "unlock_check p l =
    (if l = POLAR_INVALID_PAGE_LOCK \<or> l > MINI_TRANSACTION_TABLE_SIZE then Inl PANIC
     else if \<not> pr_trans p \<or> \<not> acquired_lock p (l - 1) then Inl PANIC
     else Inr ())"

definition unlock_drop_ref :: "mini_trans_data_t \<Rightarrow> nat \<Rightarrow> mini_trans_data_t result" where
  "unlock_drop_ref tr l =
    (let it = mt_info tr (l - 1)
     in if \<not> MINI_TRANS_IS_OCCUPIED tr l \<or> mt_refcount it = 0 then Inl PANIC
        else Inr (put_info tr (l - 1) (it\<lparr>mt_refcount := mt_refcount it - 1\<rparr>)))"

definition note_released :: "proc_occupied_mini_trans_t \<Rightarrow> nat \<Rightarrow> proc_occupied_mini_trans_t" where
  "note_released p l = p\<lparr>acquired_lock := (acquired_lock p)(l - 1 := False)\<rparr>"

definition polar_logindex_mini_trans_unlock ::
    "mini_trans_data_t \<Rightarrow> proc_occupied_mini_trans_t \<Rightarrow> nat \<Rightarrow> (mini_trans_data_t \<times> proc_occupied_mini_trans_t) result" where
  "polar_logindex_mini_trans_unlock tr p l =
    rbind (unlock_check p l) (\<lambda>_. rbind (unlock_drop_ref tr l) (\<lambda>tr. Inr (tr, note_released p l)))"

fun abort_loop :: "mini_trans_data_t \<Rightarrow> proc_occupied_mini_trans_t \<Rightarrow> nat list
    \<Rightarrow> (mini_trans_data_t \<times> proc_occupied_mini_trans_t) result" where
  "abort_loop tr p [] = Inr (tr, p)"
| "abort_loop tr p (l # ls) =
    (if acquired_lock p (l - 1) then
       rbind (polar_logindex_mini_trans_unlock tr p l) (\<lambda>(tr, p). abort_loop tr p ls)
     else abort_loop tr p ls)"

definition polar_logindex_abort_mini_transaction ::
    "mini_trans_data_t \<Rightarrow> proc_occupied_mini_trans_t \<Rightarrow> (mini_trans_data_t \<times> proc_occupied_mini_trans_t) result" where
  "polar_logindex_abort_mini_transaction tr p =
    (if \<not> pr_trans p then Inr (tr, p)
     else rbind (abort_loop tr p [1..<MINI_TRANSACTION_TABLE_SIZE + 1]) (\<lambda>(tr, p). Inr (tr, p\<lparr>pr_trans := False\<rparr>)))"

text \<open>
  \<open>polar_logindex_mini_trans_end\<close> first stops the transaction, so that no more locks are given out. Then
  it goes through the occupied slots, again and again from the start, until it sees no reference, and
  clears the slots one after the other without any lock. Other processes run in between: one turn
  reads the bitmap, reads one counter, clears one slot or resets the LSN. \<open>Ends_scan\<close> has the part of the
  bitmap that is left.
\<close>

definition mini_trans_stop :: "mini_trans_data_t \<Rightarrow> XLogRecPtr \<Rightarrow> mini_trans_data_t result" where
  "mini_trans_stop tr lsn = (if mt_lsn tr \<noteq> lsn then Inl PANIC else Inr (tr\<lparr>mt_started := False\<rparr>))"

datatype end_phase = Ends_not | Ends_wait | Ends_scan uint64 | Ends_clear

fun mini_trans_end_turn :: "mini_trans_data_t \<times> end_phase \<Rightarrow> mini_trans_data_t \<times> end_phase" where
  "mini_trans_end_turn (tr, Ends_not) = (tr, Ends_not)"
| "mini_trans_end_turn (tr, Ends_wait) = (tr, Ends_scan (mt_occupied tr))"
| "mini_trans_end_turn (tr, Ends_scan occupied) =
    (if occupied = 0 then (tr, Ends_clear)
     else if mt_refcount (mt_info tr (POLAR_BIT_LEAST_POS occupied - 1)) > 0 then (tr, Ends_wait)
     else (tr, Ends_scan (POLAR_BIT_CLEAR_LEAST occupied)))"
| "mini_trans_end_turn (tr, Ends_clear) =
    (if mt_occupied tr = 0 then (tr\<lparr>mt_lsn := InvalidXLogRecPtr\<rparr>, Ends_not)
     else (tr\<lparr>mt_info := (mt_info tr)(POLAR_BIT_LEAST_POS (mt_occupied tr) - 1 := zero_info),
              mt_occupied := POLAR_BIT_CLEAR_LEAST (mt_occupied tr)\<rparr>, Ends_clear))"

definition polar_logindex_mini_trans_set_page_added :: "mini_trans_data_t \<Rightarrow> nat \<Rightarrow> mini_trans_data_t result" where
  "polar_logindex_mini_trans_set_page_added tr l =
    (if l = POLAR_INVALID_PAGE_LOCK \<or> l > MINI_TRANSACTION_TABLE_SIZE \<or> \<not> MINI_TRANS_IS_OCCUPIED tr l then Inl PANIC
     else
       let it = mt_info tr (l - 1)
       in rbind (POLAR_ASSERT_PANIC (\<not> mt_added it)) (\<lambda>_. Inr (put_info tr (l - 1) (it\<lparr>mt_added := True\<rparr>))))"

definition polar_logindex_mini_trans_get_page_added :: "mini_trans_data_t \<Rightarrow> nat \<Rightarrow> bool result" where
  "polar_logindex_mini_trans_get_page_added tr l =
    (if l = POLAR_INVALID_PAGE_LOCK \<or> l > MINI_TRANSACTION_TABLE_SIZE \<or> \<not> MINI_TRANS_IS_OCCUPIED tr l then Inl PANIC
     else Inr (mt_added (mt_info tr (l - 1))))"

definition polar_logindex_mini_trans_cond_lock ::
    "(BufferTag \<Rightarrow> uint32) \<Rightarrow> mini_trans_data_t \<Rightarrow> BufferTag \<Rightarrow> (nat \<times> XLogRecPtr option \<times> mini_trans_data_t) result option" where
  "polar_logindex_mini_trans_cond_lock hash tr tag =
    polar_logindex_mini_trans_cond_key_lock tr tag (unat (hash tag) mod MINI_TRANSACTION_HASH_SIZE)"

definition polar_logindex_mini_trans_find ::
    "(BufferTag \<Rightarrow> uint32) \<Rightarrow> mini_trans_data_t \<Rightarrow> BufferTag \<Rightarrow> XLogRecPtr result option" where
  "polar_logindex_mini_trans_find hash tr tag =
    polar_logindex_mini_trans_key_find tr tag (unat (hash tag) mod MINI_TRANSACTION_HASH_SIZE)"

section \<open>Chains\<close>

text \<open>The slots of the table are counted from 1. The list is the chain that starts at the slot \<open>i\<close>.\<close>

definition occ :: "mini_trans_data_t \<Rightarrow> nat \<Rightarrow> bool" where
  "occ tr s \<longleftrightarrow> 0 < s \<and> bit (mt_occupied tr) (s - 1)"

fun mt_chain :: "(nat \<Rightarrow> mini_trans_info_t) \<Rightarrow> nat \<Rightarrow> nat list \<Rightarrow> bool" where
  "mt_chain I i [] \<longleftrightarrow> i = 0"
| "mt_chain I i (j # js) \<longleftrightarrow> i = j \<and> j \<noteq> 0 \<and> mt_chain I (mt_next (I (j - 1))) js"

lemma table_size [simp]: "MINI_TRANSACTION_TABLE_SIZE = 37"
  by (simp add: MINI_TRANSACTION_TABLE_SIZE_def MINI_TRANSACTION_HASH_SIZE_def)

lemma IS_OCCUPIED_occ: "0 < s \<Longrightarrow> s \<le> 37 \<Longrightarrow> MINI_TRANS_IS_OCCUPIED tr s \<longleftrightarrow> occ tr s"
  by (simp add: MINI_TRANS_IS_OCCUPIED_def occ_def)

lemma occ_OCCUPY: "0 < i \<Longrightarrow> i \<le> 37 \<Longrightarrow> occ (MINI_TRANS_OCCUPY tr i) s \<longleftrightarrow> occ tr s \<or> s = i"
  by (cases s; cases i) (auto simp: MINI_TRANS_OCCUPY_def occ_def)

lemma occ_simps [simp]:
  "occ (tr\<lparr>mt_info := x\<rparr>) s = occ tr s" "occ (tr\<lparr>mt_started := b\<rparr>) s = occ tr s" "occ (tr\<lparr>mt_lsn := l\<rparr>) s = occ tr s"
  by (simp_all add: occ_def)

lemma OCCUPY_simps [simp]:
  "mt_info (MINI_TRANS_OCCUPY tr i) = mt_info tr" "mt_started (MINI_TRANS_OCCUPY tr i) = mt_started tr"
  "mt_lsn (MINI_TRANS_OCCUPY tr i) = mt_lsn tr"
  by (simp_all add: MINI_TRANS_OCCUPY_def)

lemma next_update_same [simp]: "\<exists>n. x = x\<lparr>mt_next := n\<rparr>"
  by (rule exI[of _ "mt_next x"]) simp

lemma last_node_chain: "mt_chain (mt_info tr) i js \<Longrightarrow> js \<noteq> [] \<Longrightarrow> last_node tr (i - 1) = Some (last js - 1)"
proof (induction js arbitrary: i)
  case (Cons j js)
  then show ?case by (subst last_node.simps) (cases js; auto)
qed simp

lemma mt_chain_last: "mt_chain I i js \<Longrightarrow> js \<noteq> [] \<Longrightarrow> mt_next (I (last js - 1)) = 0 \<and> last js \<noteq> 0"
proof (induction js arbitrary: i)
  case (Cons j js)
  then show ?case by (cases js) auto
qed simp

lemma mt_chain_unique: "mt_chain I i js \<Longrightarrow> mt_chain I i ks \<Longrightarrow> js = ks"
proof (induction js arbitrary: i ks)
  case Nil
  then show ?case by (cases ks) auto
next
  case (Cons j js)
  then show ?case by (cases ks) auto
qed

lemma mt_chain_cong:
  "mt_chain I i js \<Longrightarrow> (\<And>j. j \<in> set js \<Longrightarrow> mt_next (I' (j - 1)) = mt_next (I (j - 1))) \<Longrightarrow> mt_chain I' i js"
  by (induction js arbitrary: i) auto

text \<open>Appending the slot \<open>n\<close> to the node \<open>z\<close> at the end of a chain extends all chains through it.\<close>

lemma mt_chain_extend:
  assumes z: "mt_next (I (z - 1)) = 0" "mt_next (I' (z - 1)) = n" "0 < n" "mt_next (I' (n - 1)) = 0"
    and same: "\<And>j. j \<noteq> z \<Longrightarrow> j \<noteq> n \<Longrightarrow> j \<noteq> 0 \<Longrightarrow> mt_next (I' (j - 1)) = mt_next (I (j - 1))"
  shows "mt_chain I i js \<Longrightarrow> n \<notin> set js \<Longrightarrow>
    \<exists>ks. mt_chain I' i ks \<and> set js \<subseteq> set ks \<and> set ks \<subseteq> insert n (set js) \<and> (z \<in> set js \<longrightarrow> n \<in> set ks)"
proof (induction js arbitrary: i)
  case (Cons j js)
  show ?case
  proof (cases "j = z")
    case True
    then have "js = []" using Cons.prems z(1) by (cases js) auto
    then show ?thesis using True Cons.prems z by (intro exI[of _ "[z, n]"]) auto
  next
    case False
    then have "mt_chain I (mt_next (I' (j - 1))) js" using Cons.prems same[of j] by auto
    from Cons.IH[OF this] Cons.prems obtain ks where
      "mt_chain I' (mt_next (I' (j - 1))) ks" "set js \<subseteq> set ks" "set ks \<subseteq> insert n (set js)" "z \<in> set js \<longrightarrow> n \<in> set ks"
      by auto
    then show ?thesis using Cons.prems False by (intro exI[of _ "j # ks"]) auto
  qed
qed (auto intro: exI[of _ "[]"])

lemma find_loop_chain:
  "mt_chain (mt_info tr) i js \<Longrightarrow> (\<And>j. j \<in> set js \<Longrightarrow> occ tr j \<and> j \<le> 37) \<Longrightarrow>
    find_loop tr tag i = Some (Inr (case find (\<lambda>j. tag = mt_tag (mt_info tr (j - 1))) js of None \<Rightarrow> 0 | Some j \<Rightarrow> j))"
proof (induction js arbitrary: i)
  case Nil
  then show ?case by (simp add: find_loop.simps)
next
  case (Cons j js)
  then have "MINI_TRANS_IS_OCCUPIED tr j" by (auto simp: IS_OCCUPIED_occ)
  then show ?case using Cons by (subst find_loop.simps) auto
qed

lemma find_empty_spec:
  "n \<le> 37 \<Longrightarrow> (find_empty tr n = 0 \<and> (\<forall>s. 0 < s \<and> s \<le> n \<longrightarrow> occ tr s))
     \<or> (0 < find_empty tr n \<and> find_empty tr n \<le> n \<and> \<not> occ tr (find_empty tr n))"
proof (induction n)
  case (Suc n)
  then show ?case by (cases "occ tr (Suc n)") (auto simp: IS_OCCUPIED_occ le_Suc_eq)
qed simp

section \<open>The invariant\<close>

text \<open>
  \<open>h\<close> gives the key of a page. Every occupied slot is on the chain that starts at the slot of the key
  of its page, chains stay within the occupied slots, no page has two slots, and slots that are not
  occupied are zero.
\<close>

definition mt_ok :: "(BufferTag \<Rightarrow> nat) \<Rightarrow> mini_trans_data_t \<Rightarrow> bool" where
  "mt_ok h tr \<longleftrightarrow> (\<forall>s. occ tr s \<longrightarrow> s \<le> 37)
     \<and> (\<forall>s. occ tr s \<longrightarrow> (\<exists>js. mt_chain (mt_info tr) s js \<and> (\<forall>j\<in>set js. occ tr j)))
     \<and> (\<forall>s. occ tr s \<longrightarrow> occ tr (Suc (h (mt_tag (mt_info tr (s - 1)))))
          \<and> (\<exists>js. mt_chain (mt_info tr) (Suc (h (mt_tag (mt_info tr (s - 1))))) js \<and> s \<in> set js))
     \<and> (\<forall>s s'. occ tr s \<and> occ tr s' \<and> mt_tag (mt_info tr (s - 1)) = mt_tag (mt_info tr (s' - 1)) \<longrightarrow> s = s')
     \<and> (\<forall>s. 0 < s \<and> \<not> occ tr s \<longrightarrow> mt_info tr (s - 1) = zero_info)"

lemma mt_okD:
  assumes "mt_ok h tr"
  shows "\<And>s. occ tr s \<Longrightarrow> s \<le> 37"
    and "\<And>s. occ tr s \<Longrightarrow> \<exists>js. mt_chain (mt_info tr) s js \<and> (\<forall>j\<in>set js. occ tr j)"
    and "\<And>s. occ tr s \<Longrightarrow> occ tr (Suc (h (mt_tag (mt_info tr (s - 1)))))"
    and "\<And>s. occ tr s \<Longrightarrow> \<exists>js. mt_chain (mt_info tr) (Suc (h (mt_tag (mt_info tr (s - 1))))) js \<and> s \<in> set js"
    and "\<And>s s'. occ tr s \<Longrightarrow> occ tr s' \<Longrightarrow> mt_tag (mt_info tr (s - 1)) = mt_tag (mt_info tr (s' - 1)) \<Longrightarrow> s = s'"
    and "\<And>s. 0 < s \<Longrightarrow> \<not> occ tr s \<Longrightarrow> mt_info tr (s - 1) = zero_info"
  using assms unfolding mt_ok_def by blast+

text \<open>The table as a map: the slot of a page, 0 if it has none.\<close>

definition is_slot :: "mini_trans_data_t \<Rightarrow> BufferTag \<Rightarrow> nat \<Rightarrow> bool" where
  "is_slot tr tag l \<longleftrightarrow> (if l = 0 then \<forall>s. occ tr s \<longrightarrow> mt_tag (mt_info tr (s - 1)) \<noteq> tag
     else occ tr l \<and> mt_tag (mt_info tr (l - 1)) = tag)"

lemma mini_trans_find_ok:
  assumes inv: "mt_ok h tr" and st: "mt_started tr" "mt_lsn tr \<noteq> 0" and key: "h tag < 37"
  shows "\<exists>l. mini_trans_find tr tag (h tag) = Some (Inr l) \<and> is_slot tr tag l"
proof (cases "occ tr (Suc (h tag))")
  case True
  then obtain js where js: "mt_chain (mt_info tr) (Suc (h tag)) js" "\<forall>j\<in>set js. occ tr j" using mt_okD(2)[OF inv] by blast
  let ?f = "find (\<lambda>j. tag = mt_tag (mt_info tr (j - 1))) js"
  have f: "mini_trans_find tr tag (h tag) = Some (Inr (case ?f of None \<Rightarrow> 0 | Some j \<Rightarrow> j))"
    using find_loop_chain[OF js(1), of tag] js(2) True st key mt_okD(1)[OF inv]
    by (simp add: mini_trans_find_def IS_OCCUPIED_occ)
  show ?thesis
  proof (cases ?f)
    case None
    have "mt_tag (mt_info tr (s - 1)) \<noteq> tag" if s: "occ tr s" for s
    proof
      assume t: "mt_tag (mt_info tr (s - 1)) = tag"
      then have "s \<in> set js" using mt_okD(4)[OF inv s] js(1) mt_chain_unique by metis
      then show False using None t by (auto simp: find_None_iff)
    qed
    then show ?thesis using f None by (simp add: is_slot_def)
  next
    case (Some j)
    then have "j \<in> set js" "tag = mt_tag (mt_info tr (j - 1))" by (auto simp: find_Some_iff)
    then show ?thesis using f Some js(2) by (auto simp: is_slot_def occ_def)
  qed
next
  case False
  then have "\<forall>s. occ tr s \<longrightarrow> mt_tag (mt_info tr (s - 1)) \<noteq> tag" using mt_okD(3)[OF inv] by metis
  then show ?thesis using False st key by (simp add: mini_trans_find_def IS_OCCUPIED_occ is_slot_def)
qed

section \<open>Inserting a page\<close>

text \<open>What an insertion changes: the slot \<open>l\<close> is new and belongs to the page; of the other slots at
  most the link to the next one changes.\<close>

definition slot_added :: "mini_trans_data_t \<Rightarrow> BufferTag \<Rightarrow> nat \<Rightarrow> mini_trans_data_t \<Rightarrow> bool" where
  "slot_added tr tag l tr' \<longleftrightarrow> 0 < l \<and> l \<le> 37 \<and> \<not> occ tr l \<and> (\<forall>s. occ tr' s \<longleftrightarrow> occ tr s \<or> s = l)
     \<and> mt_info tr' (l - 1) = zero_info\<lparr>mt_tag := tag, mt_refcount := 1\<rparr>
     \<and> (\<forall>s. 0 < s \<and> s \<noteq> l \<longrightarrow> (\<exists>n. mt_info tr' (s - 1) = (mt_info tr (s - 1))\<lparr>mt_next := n\<rparr>))
     \<and> mt_started tr' = mt_started tr \<and> mt_lsn tr' = mt_lsn tr"

lemma slot_added_other:
  assumes "slot_added tr tag l tr'" "0 < s" "s \<noteq> l"
  obtains n where "mt_info tr' (s - 1) = (mt_info tr (s - 1))\<lparr>mt_next := n\<rparr>"
  using assms unfolding slot_added_def by blast

lemma slot_added_tag:
  assumes "slot_added tr tag l tr'" "0 < s"
  shows "mt_tag (mt_info tr' (s - 1)) = (if s = l then tag else mt_tag (mt_info tr (s - 1)))"
proof (cases "s = l")
  case False
  obtain n where "mt_info tr' (s - 1) = (mt_info tr (s - 1))\<lparr>mt_next := n\<rparr>"
    by (rule slot_added_other[OF assms False])
  then show ?thesis using False by simp
qed (use assms(1) in \<open>simp add: slot_added_def\<close>)

lemma mt_ok_slot_added:
  assumes inv: "mt_ok h tr" and add: "slot_added tr tag l tr'" and new: "is_slot tr tag 0"
    and links: "\<And>s. 0 < s \<Longrightarrow> \<not> occ tr s \<Longrightarrow> s \<noteq> l \<Longrightarrow> mt_info tr' (s - 1) = mt_info tr (s - 1)"
    and grow: "\<And>s js. mt_chain (mt_info tr) s js \<Longrightarrow> \<forall>j\<in>set js. occ tr j \<Longrightarrow>
       \<exists>ks. mt_chain (mt_info tr') s ks \<and> set js \<subseteq> set ks \<and> set ks \<subseteq> insert l (set js)"
    and reach: "occ tr' (Suc (h tag))" "\<exists>js. mt_chain (mt_info tr') (Suc (h tag)) js \<and> l \<in> set js"
  shows "mt_ok h tr'"
proof -
  note sa = add[unfolded slot_added_def]
  have o: "\<And>s. occ tr' s \<longleftrightarrow> occ tr s \<or> s = l" and l: "0 < l" "l \<le> 37" "\<not> occ tr l" using sa by auto
  have pos: "0 < s" if "occ tr s" for s using that by (simp add: occ_def)
  have tg: "mt_tag (mt_info tr' (s - 1)) = (if s = l then tag else mt_tag (mt_info tr (s - 1)))" if "occ tr' s" for s
    using slot_added_tag[OF add, of s] that by (simp add: occ_def)
  have c1: "s \<le> 37" if "occ tr' s" for s using that o l(2) mt_okD(1)[OF inv] by auto
  have c2: "\<exists>js. mt_chain (mt_info tr') s js \<and> (\<forall>j\<in>set js. occ tr' j)" if "occ tr' s" for s
  proof (cases "s = l")
    case True
    then show ?thesis using sa o by (intro exI[of _ "[l]"]) (simp add: zero_info_def)
  next
    case False
    then have "occ tr s" using that o by simp
    from mt_okD(2)[OF inv this] obtain js where js: "mt_chain (mt_info tr) s js" "\<forall>j\<in>set js. occ tr j" by blast
    from grow[OF js] obtain ks where "mt_chain (mt_info tr') s ks" "set ks \<subseteq> insert l (set js)" by blast
    then show ?thesis using js(2) o by (intro exI[of _ ks]) auto
  qed
  have c3: "occ tr' (Suc (h (mt_tag (mt_info tr' (s - 1)))))
      \<and> (\<exists>js. mt_chain (mt_info tr') (Suc (h (mt_tag (mt_info tr' (s - 1))))) js \<and> s \<in> set js)" if s: "occ tr' s" for s
  proof (cases "s = l")
    case True
    then show ?thesis using reach tg[OF s] by simp
  next
    case False
    then have s': "occ tr s" using s o by auto
    let ?k = "Suc (h (mt_tag (mt_info tr (s - 1))))"
    obtain js where js: "mt_chain (mt_info tr) ?k js" "s \<in> set js" using mt_okD(4)[OF inv s'] by blast
    obtain ks where "mt_chain (mt_info tr) ?k ks" "\<forall>j\<in>set ks. occ tr j" using mt_okD(2)[OF inv mt_okD(3)[OF inv s']] by blast
    then have "\<forall>j\<in>set js. occ tr j" using mt_chain_unique js(1) by blast
    from grow[OF js(1) this] obtain ks where "mt_chain (mt_info tr') ?k ks" "s \<in> set ks" using js(2) by blast
    then show ?thesis using mt_okD(3)[OF inv s'] o tg[OF s] False by auto
  qed
  have c4: "s = s'" if "occ tr' s" "occ tr' s'" "mt_tag (mt_info tr' (s - 1)) = mt_tag (mt_info tr' (s' - 1))" for s s'
  proof (cases "s = l \<or> s' = l")
    case True
    then show ?thesis using that new o tg[OF that(1)] tg[OF that(2)] by (auto simp: is_slot_def split: if_splits)
  next
    case False
    then show ?thesis using that o tg[OF that(1)] tg[OF that(2)] mt_okD(5)[OF inv, of s s'] by auto
  qed
  have c5: "mt_info tr' (s - 1) = zero_info" if "0 < s" "\<not> occ tr' s" for s
    using links[of s] that o mt_okD(6)[OF inv, of s] by auto
  show ?thesis unfolding mt_ok_def
    by (intro conjI allI impI; (elim conjE)?) (erule c1 c2 conjunct1[OF c3] conjunct2[OF c3] | rule c4 c5; assumption)+
qed

lemma insert_free_ok:
  assumes inv: "mt_ok h tr" and new: "is_slot tr tag 0" and k: "h tag < 37" "\<not> occ tr (Suc (h tag))"
    and tr': "tr' = put_info (MINI_TRANS_OCCUPY tr (Suc (h tag))) (h tag) (mini_trans_set_info (mt_info tr (h tag)) tag)"
  shows "slot_added tr tag (Suc (h tag)) tr'" "mt_ok h tr'"
proof -
  have z: "mt_info tr (h tag) = zero_info" using mt_okD(6)[OF inv, of "Suc (h tag)"] k(2) by simp
  show add: "slot_added tr tag (Suc (h tag)) tr'"
    using k z by (auto simp: slot_added_def tr' occ_OCCUPY mini_trans_set_info_def zero_info_def)
  have info: "mt_info tr' = (mt_info tr)(h tag := mini_trans_set_info (mt_info tr (h tag)) tag)"
    by (simp add: tr')
  show "mt_ok h tr'"
  proof (rule mt_ok_slot_added[OF inv add new])
    fix s js assume c: "mt_chain (mt_info tr) s js" "\<forall>j\<in>set js. occ tr j"
    have "mt_chain (mt_info tr') s js"
    proof (rule mt_chain_cong[OF c(1)])
      fix j assume "j \<in> set js"
      then have "occ tr j" using c(2) by blast
      then have "j - 1 \<noteq> h tag" using k(2) by (cases j) (auto simp: occ_def)
      then show "mt_next (mt_info tr' (j - 1)) = mt_next (mt_info tr (j - 1))" by (simp add: info)
    qed
    then show "\<exists>ks. mt_chain (mt_info tr') s ks \<and> set js \<subseteq> set ks \<and> set ks \<subseteq> insert (Suc (h tag)) (set js)" by blast
  next
    show "\<exists>js. mt_chain (mt_info tr') (Suc (h tag)) js \<and> Suc (h tag) \<in> set js"
      by (rule exI[of _ "[Suc (h tag)]"]) (simp add: info mini_trans_set_info_def)
    show "occ tr' (Suc (h tag))" using add by (simp add: slot_added_def)
  next
    show "mt_info tr' (s - 1) = mt_info tr (s - 1)" if "0 < s" "s \<noteq> Suc (h tag)" for s using that by (simp add: info)
  qed
qed

lemma insert_chain_ok:
  assumes inv: "mt_ok h tr" and new: "is_slot tr tag 0" and k: "occ tr (Suc (h tag))"
    and n: "0 < n" "n \<le> 37" "\<not> occ tr n"
    and tr1: "tr1 = put_info (MINI_TRANS_OCCUPY tr n) (n - 1) (mini_trans_set_info (mt_info tr (n - 1)) tag)"
  obtains z where "last_node tr1 (h tag) = Some z"
    "slot_added tr tag n (put_info tr1 z ((mt_info tr1 z)\<lparr>mt_next := n\<rparr>))"
    "mt_ok h (put_info tr1 z ((mt_info tr1 z)\<lparr>mt_next := n\<rparr>))"
proof -
  have zi: "mt_info tr (n - 1) = zero_info" using mt_okD(6)[OF inv n(1,3)] .
  have info1: "mt_info tr1 = (mt_info tr)(n - 1 := mini_trans_set_info (mt_info tr (n - 1)) tag)" by (simp add: tr1)
  obtain js where js: "mt_chain (mt_info tr) (Suc (h tag)) js" "\<forall>j\<in>set js. occ tr j" using mt_okD(2)[OF inv k] by blast
  have ne: "j - 1 \<noteq> n - 1" if "occ tr j" for j using that n by (cases j; cases n) (auto simp: occ_def)
  have "mt_chain (mt_info tr1) (Suc (h tag)) js"
    by (rule mt_chain_cong[OF js(1)]) (use js(2) ne in \<open>auto simp: info1\<close>)
  moreover have jn: "js \<noteq> []" using js(1) by auto
  ultimately have last: "last_node tr1 (h tag) = Some (last js - 1)" using last_node_chain by fastforce
  let ?z = "last js" and ?tr = "put_info tr1 (last js - 1) ((mt_info tr1 (last js - 1))\<lparr>mt_next := n\<rparr>)"
  have z: "occ tr ?z" "mt_next (mt_info tr (?z - 1)) = 0" "?z \<noteq> 0" "?z \<in> set js"
    using js(2) jn mt_chain_last[OF js(1) jn] by auto
  note zn = ne[OF z(1)]
  have o: "occ ?tr s \<longleftrightarrow> occ tr s \<or> s = n" for s using n by (simp add: tr1 occ_OCCUPY)
  have info: "mt_info ?tr = (mt_info tr)(n - 1 := zero_info\<lparr>mt_tag := tag, mt_refcount := 1\<rparr>,
      ?z - 1 := (mt_info tr (?z - 1))\<lparr>mt_next := n\<rparr>)"
    using zn by (simp add: info1 zi[unfolded One_nat_def] mini_trans_set_info_def zero_info_def)
  have pred: "s - 1 \<noteq> n - 1" if "0 < s" "s \<noteq> n" for s using that n(1) by auto
  have add: "slot_added tr tag n ?tr"
    unfolding slot_added_def info using n o zn pred by (auto simp: tr1)
  have next1: "mt_next (mt_info ?tr (j - 1)) = mt_next (mt_info tr (j - 1))" if "j \<noteq> ?z" "j \<noteq> n" "j \<noteq> 0" for j
  proof -
    have "j - 1 \<noteq> ?z - 1" "j - 1 \<noteq> n - 1" using that z(3) n(1) by auto
    then show ?thesis unfolding info by simp
  qed
  have next2: "mt_next (mt_info ?tr (?z - 1)) = n" "mt_next (mt_info ?tr (n - 1)) = 0"
    unfolding info using zn[symmetric] by (simp_all add: zero_info_def)
  note ext = mt_chain_extend[OF z(2) next2(1) n(1) next2(2) next1]
  have "mt_ok h ?tr"
  proof (rule mt_ok_slot_added[OF inv add new])
    show "mt_info ?tr (s - 1) = mt_info tr (s - 1)" if "0 < s" "\<not> occ tr s" "s \<noteq> n" for s
    proof -
      have "s \<noteq> ?z" using that(2) z(1) by blast
      then have "s - 1 \<noteq> ?z - 1" "s - 1 \<noteq> n - 1" using that z(3) n(1) by auto
      then show ?thesis unfolding info by simp
    qed
    show "\<exists>ks. mt_chain (mt_info ?tr) s ks \<and> set is \<subseteq> set ks \<and> set ks \<subseteq> insert n (set is)"
      if "mt_chain (mt_info tr) s is" "\<forall>j\<in>set is. occ tr j" for s "is"
      using ext[OF _ _ _ that(1)] that(2) n(3) by blast
    show "occ ?tr (Suc (h tag))" using o k by simp
    show "\<exists>ks. mt_chain (mt_info ?tr) (Suc (h tag)) ks \<and> n \<in> set ks"
      using ext[OF _ _ _ js(1)] js(2) n(3) z(4) by blast
  qed
  then show thesis using that[OF last add] by simp
qed

lemma insert_tag_ok:
  assumes inv: "mt_ok h tr" and st: "mt_started tr" "mt_lsn tr \<noteq> 0" and new: "is_slot tr tag 0" and key: "h tag < 37"
  shows "\<exists>l tr'. mini_trans_insert_tag tr tag (h tag) = Some (Inr (l, tr'))
    \<and> (if l = 0 then tr' = tr \<and> (\<forall>s. 0 < s \<and> s \<le> 37 \<longrightarrow> occ tr s) else slot_added tr tag l tr' \<and> mt_ok h tr')"
proof (cases "occ tr (Suc (h tag))")
  case False
  then show ?thesis using insert_free_ok[OF inv new key False refl] st key
    by (simp add: mini_trans_insert_tag_def IS_OCCUPIED_occ Let_def)
next
  case True
  consider "find_empty tr 37 = 0" "\<forall>s. 0 < s \<and> s \<le> 37 \<longrightarrow> occ tr s"
    | (free) "0 < find_empty tr 37" "find_empty tr 37 \<le> 37" "\<not> occ tr (find_empty tr 37)"
    using find_empty_spec[of 37 tr] by auto
  then show ?thesis
  proof cases
    case 1
    then show ?thesis using True st key by (simp add: mini_trans_insert_tag_def IS_OCCUPIED_occ)
  next
    case free
    define n tr1 where "n = find_empty tr 37"
      and "tr1 = put_info (MINI_TRANS_OCCUPY tr n) (n - 1) (mini_trans_set_info (mt_info tr (n - 1)) tag)"
    obtain z where z: "last_node tr1 (h tag) = Some z" "slot_added tr tag n (put_info tr1 z ((mt_info tr1 z)\<lparr>mt_next := n\<rparr>))"
      "mt_ok h (put_info tr1 z ((mt_info tr1 z)\<lparr>mt_next := n\<rparr>))"
      by (rule insert_chain_ok[OF inv new True free[folded n_def] tr1_def])
    have "mini_trans_insert_tag tr tag (h tag) = Some (Inr (n, put_info tr1 z ((mt_info tr1 z)\<lparr>mt_next := n\<rparr>)))"
      using True st key free(1) z(1) unfolding tr1_def
      by (simp add: mini_trans_insert_tag_def IS_OCCUPIED_occ Let_def n_def[symmetric])
    then show ?thesis using z(2,3) free(1) by (simp add: n_def[symmetric])
  qed
qed

section \<open>References\<close>

abbreviation refs :: "mini_trans_data_t \<Rightarrow> nat \<Rightarrow> uint32" where
  "refs tr s \<equiv> mt_refcount (mt_info tr (s - 1))"

abbreviation set_refs :: "mini_trans_data_t \<Rightarrow> nat \<Rightarrow> uint32 \<Rightarrow> mini_trans_data_t" where
  "set_refs tr s r \<equiv> put_info tr (s - 1) ((mt_info tr (s - 1))\<lparr>mt_refcount := r\<rparr>)"

lemma mt_chain_refs [simp]: "mt_chain ((mt_info tr)(i := (mt_info tr i)\<lparr>mt_refcount := r\<rparr>)) s js = mt_chain (mt_info tr) s js"
  by (induction js arbitrary: s) auto

lemma tag_refs [simp]: "mt_tag (((mt_info tr)(i := (mt_info tr i)\<lparr>mt_refcount := r\<rparr>)) j) = mt_tag (mt_info tr j)"
  by simp

lemma mt_ok_refs:
  assumes "mt_ok h tr" "occ tr s"
  shows "mt_ok h (set_refs tr s r)"
proof -
  have "mt_info (set_refs tr s r) (s' - 1) = zero_info" if "0 < s'" "\<not> occ tr s'" for s'
  proof -
    have "s' - 1 \<noteq> s - 1" using that assms(2) by (cases s; cases s') (auto simp: occ_def)
    then show ?thesis using mt_okD(6)[OF assms(1) that] by simp
  qed
  then show ?thesis using assms(1) unfolding mt_ok_def by (simp del: fun_upd_apply)
qed

lemma is_slot_refs: "is_slot (set_refs tr s r) tag l = is_slot tr tag l"
  by (simp add: is_slot_def del: fun_upd_apply)

text \<open>What taking a reference does to the table.\<close>

definition ref_taken :: "mini_trans_data_t \<Rightarrow> BufferTag \<Rightarrow> nat \<Rightarrow> mini_trans_data_t \<Rightarrow> bool" where
  "ref_taken tr tag l tr' \<longleftrightarrow> is_slot tr' tag l \<and> refs tr' l = refs tr l + 1
     \<and> (\<forall>s. 0 < s \<and> s \<noteq> l \<longrightarrow> refs tr' s = refs tr s) \<and> (\<forall>s. occ tr' s \<longleftrightarrow> occ tr s \<or> s = l)
     \<and> (\<forall>t k. t \<noteq> tag \<longrightarrow> is_slot tr' t k = is_slot tr t k)
     \<and> mt_started tr' = mt_started tr \<and> mt_lsn tr' = mt_lsn tr"

lemma increase_ref_ok:
  assumes inv: "mt_ok h tr" and st: "mt_started tr" "mt_lsn tr \<noteq> 0" and key: "h tag < 37"
  shows "\<exists>l tr'. mini_trans_increase_ref tr tag (h tag) = Some (Inr (l, tr')) \<and> mt_ok h tr'
    \<and> (if l = 0 then tr' = tr \<and> is_slot tr tag 0 else ref_taken tr tag l tr')"
proof -
  obtain l where l: "mini_trans_find tr tag (h tag) = Some (Inr l)" "is_slot tr tag l"
    using mini_trans_find_ok[OF inv st key] by blast
  show ?thesis
  proof (cases "l = 0")
    case True
    then show ?thesis using l inv by (simp add: mini_trans_increase_ref_def)
  next
    case False
    then have o: "occ tr l" using l(2) by (simp add: is_slot_def)
    let ?tr = "set_refs tr l (refs tr l + 1)"
    have "refs ?tr s = refs tr s" if "0 < s" "s \<noteq> l" for s
    proof -
      have "s - 1 \<noteq> l - 1" using that False by auto
      then show ?thesis by simp
    qed
    moreover have "is_slot ?tr tag l" unfolding is_slot_refs by (rule l(2))
    ultimately have "ref_taken tr tag l ?tr" using o False
      unfolding ref_taken_def is_slot_refs by auto
    then show ?thesis using l(1) False mt_ok_refs[OF inv o] by (simp add: mini_trans_increase_ref_def Let_def)
  qed
qed

lemma slot_added_ref:
  assumes inv: "mt_ok h tr" and add: "slot_added tr tag l tr'" and new: "is_slot tr tag 0"
  shows "ref_taken tr tag l tr'"
proof -
  note sa = add[unfolded slot_added_def]
  have z: "mt_info tr (l - 1) = zero_info" using mt_okD(6)[OF inv, of l] sa by blast
  have r: "refs tr' s = refs tr s" if s: "0 < s" "s \<noteq> l" for s
  proof -
    obtain n where "mt_info tr' (s - 1) = (mt_info tr (s - 1))\<lparr>mt_next := n\<rparr>"
      by (rule slot_added_other[OF add s])
    then show ?thesis by simp
  qed
  have "is_slot tr' t k = is_slot tr t k" if "t \<noteq> tag" for t k
  proof -
    have o: "occ tr' s \<longleftrightarrow> occ tr s \<or> s = l" for s using sa by blast
    have "occ tr' s \<and> mt_tag (mt_info tr' (s - 1)) = t \<longleftrightarrow> occ tr s \<and> mt_tag (mt_info tr (s - 1)) = t" for s
    proof (cases "occ tr' s")
      case True
      then have "0 < s" by (simp add: occ_def)
      then show ?thesis using slot_added_tag[OF add, of s] o[of s] True that sa by (cases "s = l") auto
    next
      case False
      then show ?thesis using o by blast
    qed
    then show ?thesis by (auto simp: is_slot_def)
  qed
  then show ?thesis using sa z r by (simp add: ref_taken_def is_slot_def zero_info_def)
qed

lemma key_lock_ok:
  assumes inv: "mt_ok h tr" and st: "mt_started tr" "mt_lsn tr \<noteq> 0" and key: "h tag < 37"
  shows "\<exists>l lsn tr'. polar_logindex_mini_trans_key_lock tr tag (h tag) = Some (Inr (l, lsn, tr')) \<and> mt_ok h tr'
    \<and> (if l = 0 then tr' = tr \<and> lsn = None \<and> is_slot tr tag 0 \<and> (\<forall>s. 0 < s \<and> s \<le> 37 \<longrightarrow> occ tr s)
       else lsn = Some (mt_lsn tr) \<and> ref_taken tr tag l tr')"
proof -
  obtain l tr1 where i: "mini_trans_increase_ref tr tag (h tag) = Some (Inr (l, tr1))" "mt_ok h tr1"
    "if l = 0 then tr1 = tr \<and> is_slot tr tag 0 else ref_taken tr tag l tr1"
    using increase_ref_ok[OF assms] by blast
  show ?thesis
  proof (cases "l = 0")
    case False
    then show ?thesis using i by (simp add: polar_logindex_mini_trans_key_lock_def ref_taken_def)
  next
    case True
    then have tr1: "tr1 = tr" "is_slot tr tag 0" using i(3) by auto
    obtain k tr2 where k: "mini_trans_insert_tag tr tag (h tag) = Some (Inr (k, tr2))"
      "if k = 0 then tr2 = tr \<and> (\<forall>s. 0 < s \<and> s \<le> 37 \<longrightarrow> occ tr s) else slot_added tr tag k tr2 \<and> mt_ok h tr2"
      using insert_tag_ok[OF inv st tr1(2) key] by blast
    have "ref_taken tr tag k tr2" if "k \<noteq> 0" using slot_added_ref[OF inv _ tr1(2)] k(2) that by auto
    then show ?thesis using i(1) True tr1 k inv
      by (auto simp: polar_logindex_mini_trans_key_lock_def ref_taken_def)
  qed
qed

lemma ref_taken_tag:
  assumes "ref_taken tr tag l tr'" "occ tr k"
  shows "mt_tag (mt_info tr' (k - 1)) = mt_tag (mt_info tr (k - 1))"
proof -
  have k: "k \<noteq> 0" "occ tr' k" using assms by (auto simp: occ_def ref_taken_def)
  have same: "is_slot tr' t k = is_slot tr t k" if "t \<noteq> tag" for t using assms(1) that by (simp add: ref_taken_def)
  have "is_slot tr t k \<longleftrightarrow> mt_tag (mt_info tr (k - 1)) = t" "is_slot tr' t k \<longleftrightarrow> mt_tag (mt_info tr' (k - 1)) = t" for t
    using k assms(2) by (simp_all add: is_slot_def)
  with same show ?thesis by metis
qed

section \<open>Ending a transaction\<close>

lemma turn_Suc: "(mini_trans_end_turn ^^ k) (mini_trans_end_turn x) = y \<Longrightarrow> \<exists>k. (mini_trans_end_turn ^^ k) x = y"
  by (rule exI[of _ "Suc k"]) (simp add: funpow_Suc_right del: funpow.simps)

lemma clear_turns:
  "\<exists>k. (mini_trans_end_turn ^^ k) (tr, Ends_clear) =
    (tr\<lparr>mt_info := (\<lambda>i. if bit (mt_occupied tr) i then zero_info else mt_info tr i), mt_occupied := 0, mt_lsn := 0\<rparr>, Ends_not)"
proof (induction "unat (mt_occupied tr)" arbitrary: tr rule: less_induct)
  case less
  show ?case
  proof (cases "set_bits_of (mt_occupied tr)")
    case Nil
    then have "mt_occupied tr = 0" by simp
    then show ?thesis by (intro exI[of _ 1]) (auto intro!: mini_trans_data_t.equality)
  next
    case (Cons i js)
    then have nz: "mt_occupied tr \<noteq> 0" by auto
    have pos: "POLAR_BIT_LEAST_POS (mt_occupied tr) = Suc i" using Cons by (simp add: LEAST_POS_set_bits)
    let ?tr = "tr\<lparr>mt_info := (mt_info tr)(i := zero_info), mt_occupied := POLAR_BIT_CLEAR_LEAST (mt_occupied tr)\<rparr>"
    have "unat (mt_occupied ?tr) < unat (mt_occupied tr)" using CLEAR_LEAST_less[OF nz] by (simp add: unat_mono)
    from less[OF this] obtain k where k: "(mini_trans_end_turn ^^ k) (?tr, Ends_clear) =
        (?tr\<lparr>mt_info := (\<lambda>j. if bit (mt_occupied ?tr) j then zero_info else mt_info ?tr j), mt_occupied := 0, mt_lsn := 0\<rparr>, Ends_not)"
      by blast
    have "(\<lambda>j. if bit (mt_occupied ?tr) j then zero_info else mt_info ?tr j)
        = (\<lambda>j. if bit (mt_occupied tr) j then zero_info else mt_info tr j)"
      using set_bits_of_ConsD(1)[OF Cons] by (auto simp: bit_CLEAR_LEAST[OF Cons] fun_eq_iff)
    then show ?thesis using k nz pos by (intro turn_Suc[of k]) simp
  qed
qed

lemma scan_turns:
  "(\<And>n. bit x n \<Longrightarrow> mt_refcount (mt_info tr n) = 0) \<Longrightarrow> \<exists>k. (mini_trans_end_turn ^^ k) (tr, Ends_scan x) = (tr, Ends_clear)"
proof (induction "unat x" arbitrary: x rule: less_induct)
  case less
  show ?case
  proof (cases "set_bits_of x")
    case Nil
    then have "x = 0" by simp
    then show ?thesis by (intro exI[of _ 1]) simp
  next
    case (Cons i js)
    then have nz: "x \<noteq> 0" by auto
    have pos: "POLAR_BIT_LEAST_POS x = Suc i" using Cons by (simp add: LEAST_POS_set_bits)
    have "unat (POLAR_BIT_CLEAR_LEAST x) < unat x" using CLEAR_LEAST_less[OF nz] by (simp add: unat_mono)
    from less.hyps[OF this] less.prems obtain k where
      k: "(mini_trans_end_turn ^^ k) (tr, Ends_scan (POLAR_BIT_CLEAR_LEAST x)) = (tr, Ends_clear)"
      by (auto simp: bit_CLEAR_LEAST[OF Cons])
    have "mt_refcount (mt_info tr i) = 0" using less.prems set_bits_of_ConsD(1)[OF Cons] by blast
    then show ?thesis using k nz pos by (intro turn_Suc[of k]) simp
  qed
qed

lemma turns_trans:
  "\<exists>k. (mini_trans_end_turn ^^ k) x = y \<Longrightarrow> \<exists>k. (mini_trans_end_turn ^^ k) y = z \<Longrightarrow> \<exists>k. (mini_trans_end_turn ^^ k) x = z"
  by (metis comp_apply funpow_add)

text \<open>Without references the end of the transaction is reached, and the table is as it was created.\<close>

lemma end_turns:
  assumes zero: "\<And>s. 0 < s \<Longrightarrow> \<not> occ tr s \<Longrightarrow> mt_info tr (s - 1) = zero_info" and st: "\<not> mt_started tr"
    and refs: "\<And>n. mt_refcount (mt_info tr n) = 0" and e: "e \<noteq> Ends_not"
  shows "\<exists>k. (mini_trans_end_turn ^^ k) (tr, e) = (mini_trans_init, Ends_not)"
proof -
  have "mt_info tr i = zero_info" if "\<not> bit (mt_occupied tr) i" for i using zero[of "Suc i"] that by (simp add: occ_def)
  then have "tr\<lparr>mt_info := (\<lambda>i. if bit (mt_occupied tr) i then zero_info else mt_info tr i), mt_occupied := 0, mt_lsn := 0\<rparr>
      = mini_trans_init"
    using st by (intro mini_trans_data_t.equality) (auto simp: mini_trans_init_def fun_eq_iff)
  then have c: "\<exists>k. (mini_trans_end_turn ^^ k) (tr, Ends_clear) = (mini_trans_init, Ends_not)" using clear_turns[of tr] by simp
  have s: "\<exists>k. (mini_trans_end_turn ^^ k) (tr, Ends_scan x) = (mini_trans_init, Ends_not)" for x
    by (rule turns_trans[OF scan_turns c]) (rule refs)
  from s obtain k where "(mini_trans_end_turn ^^ k) (mini_trans_end_turn (tr, Ends_wait)) = (mini_trans_init, Ends_not)" by auto
  then have "\<exists>k. (mini_trans_end_turn ^^ k) (tr, Ends_wait) = (mini_trans_init, Ends_not)" by (rule turn_Suc)
  then show ?thesis using c s e by (cases e) auto
qed

lemma mt_ok_init [simp]: "mt_ok h mini_trans_init"
  by (simp add: mt_ok_def mini_trans_init_def occ_def)

end
