(* ===== verification/Mini_Trans_Steps.thy ===== *)
theory Mini_Trans_Steps
  imports Mini_Trans
begin

text \<open>
  Mini transactions with several processes. A process first takes a reference to the slot of a page
  under the lock of the transaction, then waits for the lock of the page, which is a lightweight lock
  with shared and exclusive holders; it releases the lock of the page, and only then gives up the
  reference under the lock of the transaction. The process that ends the transaction stops it, reads
  the counters one after the other until it has seen no reference, and clears the slots one after the
  other without the lock of the transaction.
\<close>

section \<open>Steps\<close>

datatype LWLockMode = LW_EXCLUSIVE | LW_SHARED

text \<open>\<open>ms_wait\<close> is the page lock a process waits for, \<open>ms_held\<close> the mode in which a process holds a page
  lock, \<open>ms_drop\<close> the page lock it has released without having given up the reference yet, and \<open>ms_end\<close>
  how far the end of the transaction is. \<open>ms_page\<close> is the page a process has asked the page lock for; it
  is not part of the program.\<close>

record mini_sys =
  ms_tr :: mini_trans_data_t
  ms_proc :: "nat \<Rightarrow> proc_occupied_mini_trans_t"
  ms_wait :: "nat \<Rightarrow> (nat \<times> LWLockMode) option"
  ms_held :: "nat \<Rightarrow> nat \<Rightarrow> LWLockMode option"
  ms_drop :: "nat \<Rightarrow> nat option"
  ms_end :: end_phase
  ms_page :: "nat \<Rightarrow> nat \<Rightarrow> BufferTag"

definition ms_init :: mini_sys where
  "ms_init = \<lparr>ms_tr = mini_trans_init, ms_proc = (\<lambda>_. \<lparr>pr_trans = False, acquired_lock = (\<lambda>_. False)\<rparr>),
     ms_wait = (\<lambda>_. None), ms_held = (\<lambda>_ _. None), ms_drop = (\<lambda>_. None), ms_end = Ends_not,
     ms_page = (\<lambda>_ _. mt_tag zero_info)\<rparr>"

definition compatible :: "mini_sys \<Rightarrow> nat \<Rightarrow> LWLockMode \<Rightarrow> bool" where
  "compatible S l mode \<longleftrightarrow> (\<forall>q. ms_held S l q = None \<or> mode = LW_SHARED \<and> ms_held S l q = Some LW_SHARED)"

abbreviation idle :: "mini_sys \<Rightarrow> nat \<Rightarrow> bool" where
  "idle S p \<equiv> ms_wait S p = None \<and> ms_drop S p = None"

text \<open>The process \<open>p\<close> has a reference to the slot \<open>l\<close> of the page \<open>tag\<close> and waits for its lock.\<close>

abbreviation ms_ref :: "mini_sys \<Rightarrow> nat \<Rightarrow> BufferTag \<Rightarrow> nat \<Rightarrow> LWLockMode \<Rightarrow> mini_trans_data_t \<Rightarrow> mini_sys" where
  "ms_ref S p tag l mode tr' \<equiv> S\<lparr>ms_tr := tr', ms_wait := (ms_wait S)(p := Some (l, mode)),
     ms_page := (ms_page S)(l := (ms_page S l)(p := tag))\<rparr>"

text \<open>\<open>h\<close> is the key of a page and \<open>n\<close> the number of processes. A process does not lock a page again that
  it has locked, does nothing else while it waits or unlocks, and marks a page only while it holds its
  lock. One process ends the transaction. Aborting is unlocking all page locks one by one, then
  \<open>abort_end\<close>.\<close>

inductive ms_step :: "(BufferTag \<Rightarrow> nat) \<Rightarrow> nat \<Rightarrow> mini_sys \<Rightarrow> mini_sys \<Rightarrow> bool" for h n where
  start: "polar_logindex_mini_trans_start (ms_tr S) lsn = Inr tr' \<Longrightarrow> lsn \<noteq> InvalidXLogRecPtr \<Longrightarrow>
    ms_step h n S (S\<lparr>ms_tr := tr'\<rparr>)"
| lock: "p < n \<Longrightarrow> idle S p \<Longrightarrow> polar_logindex_mini_trans_key_lock (ms_tr S) tag (h tag) = Some (Inr (l, x, tr')) \<Longrightarrow>
    l \<noteq> 0 \<Longrightarrow> \<not> acquired_lock (ms_proc S p) (l - 1) \<Longrightarrow> ms_step h n S (ms_ref S p tag l mode tr')"
| cond_lock: "p < n \<Longrightarrow> idle S p \<Longrightarrow> polar_logindex_mini_trans_cond_key_lock (ms_tr S) tag (h tag) = Some (Inr (l, x, tr')) \<Longrightarrow>
    l \<noteq> 0 \<Longrightarrow> \<not> acquired_lock (ms_proc S p) (l - 1) \<Longrightarrow> ms_step h n S (ms_ref S p tag l mode tr')"
| acquire: "p < n \<Longrightarrow> ms_wait S p = Some (l, mode) \<Longrightarrow> compatible S l mode \<Longrightarrow>
    ms_step h n S (S\<lparr>ms_wait := (ms_wait S)(p := None), ms_held := (ms_held S)(l := (ms_held S l)(p := Some mode)),
      ms_proc := (ms_proc S)(p := note_acquired (ms_proc S p) l)\<rparr>)"
| unlock_release: "p < n \<Longrightarrow> idle S p \<Longrightarrow> unlock_check (ms_proc S p) l = Inr () \<Longrightarrow>
    ms_step h n S (S\<lparr>ms_held := (ms_held S)(l := (ms_held S l)(p := None)), ms_drop := (ms_drop S)(p := Some l)\<rparr>)"
| unlock_drop: "p < n \<Longrightarrow> ms_drop S p = Some l \<Longrightarrow> unlock_drop_ref (ms_tr S) l = Inr tr' \<Longrightarrow>
    ms_step h n S (S\<lparr>ms_tr := tr', ms_drop := (ms_drop S)(p := None), ms_proc := (ms_proc S)(p := note_released (ms_proc S p) l)\<rparr>)"
| abort_end: "p < n \<Longrightarrow> idle S p \<Longrightarrow> (\<And>i. \<not> acquired_lock (ms_proc S p) i) \<Longrightarrow>
    ms_step h n S (S\<lparr>ms_proc := (ms_proc S)(p := (ms_proc S p)\<lparr>pr_trans := False\<rparr>)\<rparr>)"
| set_added: "ms_held S l p \<noteq> None \<Longrightarrow> polar_logindex_mini_trans_set_page_added (ms_tr S) l = Inr tr' \<Longrightarrow>
    ms_step h n S (S\<lparr>ms_tr := tr'\<rparr>)"
| stop: "ms_end S = Ends_not \<Longrightarrow> mini_trans_stop (ms_tr S) lsn = Inr tr' \<Longrightarrow> lsn \<noteq> InvalidXLogRecPtr \<Longrightarrow>
    ms_step h n S (S\<lparr>ms_tr := tr', ms_end := Ends_wait\<rparr>)"
| end_turn: "ms_end S \<noteq> Ends_not \<Longrightarrow> mini_trans_end_turn (ms_tr S, ms_end S) = (tr', e') \<Longrightarrow>
    ms_step h n S (S\<lparr>ms_tr := tr', ms_end := e'\<rparr>)"

abbreviation ms_reachable :: "(BufferTag \<Rightarrow> nat) \<Rightarrow> nat \<Rightarrow> mini_sys \<Rightarrow> bool" where
  "ms_reachable h n \<equiv> (ms_step h n)\<^sup>*\<^sup>* ms_init"

section \<open>The table and the end of the transaction\<close>

text \<open>While the slots are cleared the chains are broken, but there are no references. During the
  scan the slots that were passed have none.\<close>

definition phase_ok :: "(BufferTag \<Rightarrow> nat) \<Rightarrow> mini_trans_data_t \<Rightarrow> end_phase \<Rightarrow> bool" where
  "phase_ok h tr e \<longleftrightarrow> (e \<noteq> Ends_clear \<longrightarrow> mt_ok h tr) \<and> (\<forall>s. 0 < s \<and> \<not> occ tr s \<longrightarrow> mt_info tr (s - 1) = zero_info)
     \<and> (\<forall>s. occ tr s \<longrightarrow> s \<le> 37)
     \<and> (mt_started tr \<longrightarrow> mt_lsn tr \<noteq> InvalidXLogRecPtr \<and> e = Ends_not) \<and> (e \<noteq> Ends_not \<longrightarrow> mt_lsn tr \<noteq> InvalidXLogRecPtr)
     \<and> (e = Ends_not \<and> \<not> mt_started tr \<longrightarrow> tr = mini_trans_init)
     \<and> (\<forall>x s. e = Ends_scan x \<and> occ tr s \<and> \<not> bit x (s - 1) \<longrightarrow> refs tr s = 0)
     \<and> (\<forall>i. e = Ends_clear \<longrightarrow> mt_refcount (mt_info tr i) = 0)"

lemma phase_okD:
  assumes "phase_ok h tr e"
  shows "e \<noteq> Ends_clear \<Longrightarrow> mt_ok h tr" "\<And>s. 0 < s \<Longrightarrow> \<not> occ tr s \<Longrightarrow> mt_info tr (s - 1) = zero_info"
    "\<And>s. occ tr s \<Longrightarrow> s \<le> 37"
    "mt_started tr \<Longrightarrow> mt_lsn tr \<noteq> InvalidXLogRecPtr \<and> e = Ends_not" "e \<noteq> Ends_not \<Longrightarrow> mt_lsn tr \<noteq> InvalidXLogRecPtr"
    "e = Ends_not \<Longrightarrow> \<not> mt_started tr \<Longrightarrow> tr = mini_trans_init"
    "\<And>x s. e = Ends_scan x \<Longrightarrow> occ tr s \<Longrightarrow> \<not> bit x (s - 1) \<Longrightarrow> refs tr s = 0"
    "\<And>i. e = Ends_clear \<Longrightarrow> mt_refcount (mt_info tr i) = 0"
  using assms unfolding phase_ok_def by blast+

text \<open>In a running transaction the table only has to be well formed.\<close>

lemma phase_ok_started:
  assumes "mt_started tr" "mt_lsn tr \<noteq> InvalidXLogRecPtr" "mt_ok h tr"
  shows "phase_ok h tr Ends_not"
  using mt_okD(1,6)[OF assms(3)] assms by (simp add: phase_ok_def)

lemma turn_cases:
  assumes t: "mini_trans_end_turn (tr, e) = (tr', e')" and e: "e \<noteq> Ends_not"
  obtains (wait) "e = Ends_wait" "tr' = tr" "e' = Ends_scan (mt_occupied tr)"
  | (seen) "e = Ends_scan 0" "tr' = tr" "e' = Ends_clear"
  | (again) x where "e = Ends_scan x" "tr' = tr" "e' = Ends_wait"
  | (next_bit) x i js where "e = Ends_scan x" "set_bits_of x = i # js" "mt_refcount (mt_info tr i) = 0" "tr' = tr"
      "e' = Ends_scan (POLAR_BIT_CLEAR_LEAST x)"
  | (done_all) "e = Ends_clear" "mt_occupied tr = 0" "tr' = tr\<lparr>mt_lsn := InvalidXLogRecPtr\<rparr>" "e' = Ends_not"
  | (clear) i js where "e = Ends_clear" "set_bits_of (mt_occupied tr) = i # js"
      "tr' = tr\<lparr>mt_info := (mt_info tr)(i := zero_info), mt_occupied := POLAR_BIT_CLEAR_LEAST (mt_occupied tr)\<rparr>" "e' = Ends_clear"
proof (cases e)
  case (Ends_scan x)
  show thesis
  proof (cases "set_bits_of x")
    case Nil
    then have "x = 0" by simp
    then show thesis using seen t Ends_scan by simp
  next
    case (Cons i js)
    then have "x \<noteq> 0" "POLAR_BIT_LEAST_POS x = Suc i" by (auto simp: LEAST_POS_set_bits)
    then show thesis using again next_bit[OF Ends_scan Cons] t Ends_scan
      by (cases "mt_refcount (mt_info tr i) = 0") (auto simp: word_gt_0)
  qed
next
  case Ends_clear
  show thesis
  proof (cases "set_bits_of (mt_occupied tr)")
    case Nil
    then have "mt_occupied tr = 0" by simp
    then show thesis using done_all t Ends_clear by simp
  next
    case (Cons i js)
    then have "mt_occupied tr \<noteq> 0" "POLAR_BIT_LEAST_POS (mt_occupied tr) = Suc i" by (auto simp: LEAST_POS_set_bits)
    then show thesis using clear[OF Ends_clear Cons] t Ends_clear by simp
  qed
qed (use wait t e in auto)

text \<open>What one turn of the end keeps: the invariant, all counters, and the slots that are referenced.\<close>

lemma phase_turn:
  assumes ph: "phase_ok h tr e" and e: "e \<noteq> Ends_not" and t: "mini_trans_end_turn (tr, e) = (tr', e')"
  shows "phase_ok h tr' e' \<and> (\<forall>i. mt_refcount (mt_info tr' i) = mt_refcount (mt_info tr i))
    \<and> (\<forall>s. mt_refcount (mt_info tr (s - 1)) \<noteq> 0 \<longrightarrow> tr' = tr)"
proof -
  note pd = phase_okD[OF ph]
  have st: "\<not> mt_started tr" "mt_lsn tr \<noteq> 0" using pd(4,5) e by auto
  from t e show ?thesis
  proof (cases rule: turn_cases)
    case wait
    then show ?thesis using pd st by (auto simp: phase_ok_def occ_def)
  next
    case seen
    have "mt_refcount (mt_info tr i) = 0" for i
      using pd(7)[of 0 "Suc i"] pd(2)[of "Suc i"] seen(1) by (cases "occ tr (Suc i)") (auto simp: zero_info_def)
    then show ?thesis using seen pd(2,3) st by (simp add: phase_ok_def)
  next
    case (again x)
    then show ?thesis using pd st by (auto simp: phase_ok_def)
  next
    case (next_bit x i js)
    have "refs tr s = 0" if "occ tr s" "\<not> bit (POLAR_BIT_CLEAR_LEAST x) (s - 1)" for s
      using pd(7)[OF next_bit(1) that(1)] that next_bit(3) by (auto simp: bit_CLEAR_LEAST[OF next_bit(2)])
    then show ?thesis using next_bit(1,4,5) pd(1-3) st by (simp add: phase_ok_def)
  next
    case done_all
    have "mt_info tr i = zero_info" for i using pd(2)[of "Suc i"] done_all(2) by (simp add: occ_def)
    then have "tr' = mini_trans_init"
      using done_all(2,3) st(1) by (intro mini_trans_data_t.equality) (auto simp: mini_trans_init_def fun_eq_iff)
    then show ?thesis using done_all(1,4) pd(8) by (auto simp: phase_ok_def mini_trans_init_def zero_info_def occ_def
        mt_ok_init[unfolded mini_trans_init_def zero_info_def])
  next
    case (clear i js)
    have o: "occ tr' s \<longleftrightarrow> occ tr s \<and> s \<noteq> Suc i" for s
      by (cases s) (auto simp: clear(3) occ_def bit_CLEAR_LEAST[OF clear(2)])
    have "mt_info tr' (s - 1) = zero_info" if "0 < s" "\<not> occ tr' s" for s
      using pd(2)[OF that(1)] that o by (cases s) (auto simp: clear(3))
    moreover have "mt_refcount (mt_info tr' k) = 0" for k using pd(8)[OF clear(1)] by (simp add: clear(3) zero_info_def)
    ultimately show ?thesis using clear(1,4) pd(8)[OF clear(1)] pd(3) st o by (simp add: phase_ok_def clear(3))
  qed
qed

section \<open>The processes\<close>

definition procs_ok :: "nat \<Rightarrow> mini_sys \<Rightarrow> bool" where
  "procs_ok n S \<longleftrightarrow>
     (\<forall>l p. ms_held S l p \<noteq> None \<longrightarrow> p < n \<and> 0 < l \<and> acquired_lock (ms_proc S p) (l - 1) \<and> ms_drop S p \<noteq> Some l)
     \<and> (\<forall>i p. acquired_lock (ms_proc S p) i \<longrightarrow>
          pr_trans (ms_proc S p) \<and> (ms_held S (Suc i) p \<noteq> None \<or> ms_drop S p = Some (Suc i)))
     \<and> (\<forall>l p m. ms_wait S p = Some (l, m) \<longrightarrow> p < n \<and> 0 < l \<and> ms_held S l p = None \<and> ms_drop S p = None)
     \<and> (\<forall>l p. ms_drop S p = Some l \<longrightarrow> p < n \<and> 0 < l \<and> acquired_lock (ms_proc S p) (l - 1))
     \<and> (\<forall>l p q. ms_held S l p = Some LW_EXCLUSIVE \<and> ms_held S l q \<noteq> None \<longrightarrow> q = p)"

lemma procs_okD:
  assumes "procs_ok n S"
  shows "\<And>l p. ms_held S l p \<noteq> None \<Longrightarrow> p < n \<and> 0 < l \<and> acquired_lock (ms_proc S p) (l - 1) \<and> ms_drop S p \<noteq> Some l"
    and "\<And>i p. acquired_lock (ms_proc S p) i \<Longrightarrow>
      pr_trans (ms_proc S p) \<and> (ms_held S (Suc i) p \<noteq> None \<or> ms_drop S p = Some (Suc i))"
    and "\<And>l p m. ms_wait S p = Some (l, m) \<Longrightarrow> p < n \<and> 0 < l \<and> ms_held S l p = None \<and> ms_drop S p = None"
    and "\<And>l p. ms_drop S p = Some l \<Longrightarrow> p < n \<and> 0 < l \<and> acquired_lock (ms_proc S p) (l - 1)"
    and "\<And>l p q. ms_held S l p = Some LW_EXCLUSIVE \<Longrightarrow> ms_held S l q \<noteq> None \<Longrightarrow> q = p"
  using assms unfolding procs_ok_def by blast+

lemma procs_okI:
  assumes "\<And>l p. ms_held S l p \<noteq> None \<Longrightarrow> p < n \<and> 0 < l \<and> acquired_lock (ms_proc S p) (l - 1) \<and> ms_drop S p \<noteq> Some l"
    and "\<And>i p. acquired_lock (ms_proc S p) i \<Longrightarrow>
      pr_trans (ms_proc S p) \<and> (ms_held S (Suc i) p \<noteq> None \<or> ms_drop S p = Some (Suc i))"
    and "\<And>l p m. ms_wait S p = Some (l, m) \<Longrightarrow> p < n \<and> 0 < l \<and> ms_held S l p = None \<and> ms_drop S p = None"
    and "\<And>l p. ms_drop S p = Some l \<Longrightarrow> p < n \<and> 0 < l \<and> acquired_lock (ms_proc S p) (l - 1)"
    and "\<And>l p q. ms_held S l p = Some LW_EXCLUSIVE \<Longrightarrow> ms_held S l q \<noteq> None \<Longrightarrow> q = p"
  shows "procs_ok n S"
  using assms unfolding procs_ok_def by blast

lemma procs_tr [simp]: "procs_ok n (S\<lparr>ms_tr := tr'\<rparr>) = procs_ok n S" "procs_ok n (S\<lparr>ms_tr := tr', ms_end := e'\<rparr>) = procs_ok n S"
  by (simp_all add: procs_ok_def)

lemma procs_ref:
  assumes pr: "procs_ok n S" and p: "p < n" "idle S p" "l \<noteq> 0" "\<not> acquired_lock (ms_proc S p) (l - 1)"
  shows "procs_ok n (ms_ref S p tag l mode tr')"
proof -
  have "ms_held S l p = None" using procs_okD(1)[OF pr, of l p] p(4) by blast
  then show ?thesis using procs_okD[OF pr] p by (intro procs_okI) (auto split: if_splits)
qed

lemma procs_acquire:
  assumes pr: "procs_ok n S" and p: "p < n" "ms_wait S p = Some (l, mode)" "compatible S l mode"
  shows "procs_ok n (S\<lparr>ms_wait := (ms_wait S)(p := None), ms_held := (ms_held S)(l := (ms_held S l)(p := Some mode)),
      ms_proc := (ms_proc S)(p := note_acquired (ms_proc S p) l)\<rparr>)" (is "procs_ok n ?S")
proof -
  note pd = procs_okD[OF pr]
  have l: "0 < l" "ms_drop S p = None" using pd(3)[OF p(2)] by auto
  have comp: "ms_held S l q = None \<or> mode = LW_SHARED \<and> ms_held S l q = Some LW_SHARED" for q
    using p(3) by (simp add: compatible_def)
  have c1: "a < n \<and> 0 < k \<and> acquired_lock (ms_proc ?S a) (k - 1) \<and> ms_drop ?S a \<noteq> Some k" if "ms_held ?S k a \<noteq> None" for k a
    using that pd(1)[of k a] p(1) l by (auto simp: note_acquired_def split: if_splits)
  have c2: "pr_trans (ms_proc ?S a) \<and> (ms_held ?S (Suc i) a \<noteq> None \<or> ms_drop ?S a = Some (Suc i))"
    if "acquired_lock (ms_proc ?S a) i" for i a
    using that pd(2)[of a i] l(1) by (auto simp: note_acquired_def split: if_splits)
  have c3: "a < n \<and> 0 < k \<and> ms_held ?S k a = None \<and> ms_drop ?S a = None" if "ms_wait ?S a = Some (k, m)" for k a m
    using that pd(3)[of a k m] p(2) by (auto split: if_splits)
  have c4: "a < n \<and> 0 < k \<and> acquired_lock (ms_proc ?S a) (k - 1)" if "ms_drop ?S a = Some k" for k a
    using that pd(4)[of a k] by (auto simp: note_acquired_def)
  have c5: "b = a" if "ms_held ?S k a = Some LW_EXCLUSIVE" "ms_held ?S k b \<noteq> None" for k a b
    using that pd(5)[of k a b] comp[of a] comp[of b] by (auto split: if_splits)
  show ?thesis by (rule procs_okI; (erule c1 c2 c3 c4 | (rule c5; assumption)))
qed

lemma procs_release:
  assumes pr: "procs_ok n S" and p: "p < n" "idle S p" "unlock_check (ms_proc S p) l = Inr ()"
  shows "procs_ok n (S\<lparr>ms_held := (ms_held S)(l := (ms_held S l)(p := None)), ms_drop := (ms_drop S)(p := Some l)\<rparr>)"
    (is "procs_ok n ?S") and "ms_held S l p \<noteq> None" "0 < l"
proof -
  note pd = procs_okD[OF pr]
  have l: "0 < l" "acquired_lock (ms_proc S p) (l - 1)" using p(3) by (auto simp: unlock_check_def split: if_splits)
  then show h: "ms_held S l p \<noteq> None" "0 < l" using pd(2)[OF l(2)] p(2) by auto
  have c1: "a < n \<and> 0 < k \<and> acquired_lock (ms_proc ?S a) (k - 1) \<and> ms_drop ?S a \<noteq> Some k" if "ms_held ?S k a \<noteq> None" for k a
    using that pd(1)[of k a] by (auto split: if_splits)
  have c2: "pr_trans (ms_proc ?S a) \<and> (ms_held ?S (Suc i) a \<noteq> None \<or> ms_drop ?S a = Some (Suc i))"
    if "acquired_lock (ms_proc ?S a) i" for i a
    using that pd(2)[of a i] p(2) by (auto split: if_splits)
  have c3: "a < n \<and> 0 < k \<and> ms_held ?S k a = None \<and> ms_drop ?S a = None" if "ms_wait ?S a = Some (k, m)" for k a m
    using that pd(3)[of a k m] p(2) by (auto split: if_splits)
  have c4: "a < n \<and> 0 < k \<and> acquired_lock (ms_proc ?S a) (k - 1)" if "ms_drop ?S a = Some k" for k a
    using that pd(4)[of a k] l p(1) by (auto split: if_splits)
  have c5: "b = a" if "ms_held ?S k a = Some LW_EXCLUSIVE" "ms_held ?S k b \<noteq> None" for k a b
    using that pd(5)[of k a b] by (auto split: if_splits)
  show "procs_ok n ?S" by (rule procs_okI; (erule c1 c2 c3 c4 | (rule c5; assumption)))
qed

lemma procs_drop:
  assumes pr: "procs_ok n S" and p: "ms_drop S p = Some l"
  shows "procs_ok n (S\<lparr>ms_tr := tr', ms_drop := (ms_drop S)(p := None), ms_proc := (ms_proc S)(p := note_released (ms_proc S p) l)\<rparr>)"
    (is "procs_ok n ?S")
proof -
  note pd = procs_okD[OF pr]
  have l: "0 < l" using pd(4)[OF p] by simp
  have c1: "a < n \<and> 0 < k \<and> acquired_lock (ms_proc ?S a) (k - 1) \<and> ms_drop ?S a \<noteq> Some k" if "ms_held ?S k a \<noteq> None" for k a
    using that pd(1)[of k a] p l by (auto simp: note_released_def)
  have c2: "pr_trans (ms_proc ?S a) \<and> (ms_held ?S (Suc i) a \<noteq> None \<or> ms_drop ?S a = Some (Suc i))"
    if "acquired_lock (ms_proc ?S a) i" for i a
    using that pd(2)[of a i] p l by (auto simp: note_released_def split: if_splits)
  have c3: "a < n \<and> 0 < k \<and> ms_held ?S k a = None \<and> ms_drop ?S a = None" if "ms_wait ?S a = Some (k, m)" for k a m
    using that pd(3)[of a k m] by auto
  have c4: "a < n \<and> 0 < k \<and> acquired_lock (ms_proc ?S a) (k - 1)" if "ms_drop ?S a = Some k" for k a
    using that pd(4)[of a k] by (auto split: if_splits)
  have c5: "b = a" if "ms_held ?S k a = Some LW_EXCLUSIVE" "ms_held ?S k b \<noteq> None" for k a b
    using that pd(5)[of k a b] by simp
  show ?thesis by (rule procs_okI; (erule c1 c2 c3 c4 | (rule c5; assumption)))
qed

lemma procs_abort:
  assumes pr: "procs_ok n S" and p: "\<And>i. \<not> acquired_lock (ms_proc S p) i"
  shows "procs_ok n (S\<lparr>ms_proc := (ms_proc S)(p := (ms_proc S p)\<lparr>pr_trans := False\<rparr>)\<rparr>)"
proof -
  note pd = procs_okD[OF pr]
  have "ms_held S l p = None" for l using pd(1)[of l p] p by blast
  moreover have "ms_drop S p = None" using pd(4)[of p] p by (cases "ms_drop S p") auto
  ultimately show ?thesis using pd p by (intro procs_okI) (auto split: if_splits)
qed

section \<open>The counters\<close>

text \<open>Who has a reference to a slot.\<close>

definition users :: "nat \<Rightarrow> mini_sys \<Rightarrow> nat \<Rightarrow> nat set" where
  "users n S l = {p. p < n \<and> (ms_held S l p \<noteq> None \<or> (\<exists>m. ms_wait S p = Some (l, m)) \<or> ms_drop S p = Some l)}"

text \<open>The counter of a slot is the number of its users, and the slot belongs to the page they asked for.\<close>

definition counts_ok :: "nat \<Rightarrow> mini_sys \<Rightarrow> bool" where
  "counts_ok n S \<longleftrightarrow> (\<forall>l. 0 < l \<longrightarrow> unat (refs (ms_tr S) l) = card (users n S l)
     \<and> (\<forall>p\<in>users n S l. occ (ms_tr S) l \<and> mt_tag (mt_info (ms_tr S) (l - 1)) = ms_page S l p))"

definition ms_inv :: "(BufferTag \<Rightarrow> nat) \<Rightarrow> nat \<Rightarrow> mini_sys \<Rightarrow> bool" where
  "ms_inv h n S \<longleftrightarrow> phase_ok h (ms_tr S) (ms_end S) \<and> procs_ok n S \<and> counts_ok n S"

lemma counts_okD:
  assumes "counts_ok n S" "0 < l"
  shows "unat (refs (ms_tr S) l) = card (users n S l)"
    "p \<in> users n S l \<Longrightarrow> occ (ms_tr S) l" "p \<in> users n S l \<Longrightarrow> mt_tag (mt_info (ms_tr S) (l - 1)) = ms_page S l p"
  using assms unfolding counts_ok_def by blast+

lemma finite_users [simp]: "finite (users n S l)"
  by (simp add: users_def)

lemma users_le: "card (users n S l) \<le> n"
  using card_mono[of "{..<n}" "users n S l"] by (auto simp: users_def)

lemma user_refs:
  assumes "counts_ok n S" "0 < l" "p \<in> users n S l"
  shows "refs (ms_tr S) l \<noteq> 0"
proof -
  have "card (users n S l) \<noteq> 0" using assms(3) by (auto simp: card_eq_0_iff)
  then show ?thesis using counts_okD(1)[OF assms(1,2)] by auto
qed

lemma users_tr [simp]: "users n (S\<lparr>ms_tr := tr'\<rparr>) l = users n S l" "users n (S\<lparr>ms_tr := tr', ms_end := e'\<rparr>) l = users n S l"
  by (simp_all add: users_def)

text \<open>A change of the table that keeps the counters and what is referenced.\<close>

lemma counts_tr:
  assumes c: "counts_ok n S" and r: "\<And>l. 0 < l \<Longrightarrow> refs tr' l = refs (ms_tr S) l"
    and t: "\<And>l. 0 < l \<Longrightarrow> refs (ms_tr S) l \<noteq> 0 \<Longrightarrow> occ (ms_tr S) l \<Longrightarrow> occ tr' l \<and> mt_tag (mt_info tr' (l - 1)) = mt_tag (mt_info (ms_tr S) (l - 1))"
  shows "counts_ok n (S\<lparr>ms_tr := tr'\<rparr>)" "counts_ok n (S\<lparr>ms_tr := tr', ms_end := e'\<rparr>)"
  using counts_okD[OF c] r t user_refs[OF c] by (auto simp: counts_ok_def)

lemma counts_ref:
  assumes c: "counts_ok n S" and n: "n < 2 ^ 32" and p: "p < n" "idle S p" "l \<noteq> 0" "ms_held S l p = None"
    and ref: "ref_taken (ms_tr S) tag l tr'"
  shows "counts_ok n (ms_ref S p tag l mode tr')" (is "counts_ok n ?S")
proof -
  note cd = counts_okD[OF c]
  have u: "users n ?S l = insert p (users n S l)" "p \<notin> users n S l" using p by (auto simp: users_def)
  have uk: "users n ?S k = users n S k" if "k \<noteq> l" for k using that p by (auto simp: users_def)
  have cc: "card (users n ?S l) = Suc (card (users n S l))" using u by simp
  have "unat (refs (ms_tr S) l) < 2 ^ 32 - 1" using cd(1)[of l] p(3) cc users_le[of n ?S l] n by simp
  then have "unat (refs tr' l) = Suc (unat (refs (ms_tr S) l))"
    using ref unat_add_lem[of "refs (ms_tr S) l" 1] by (simp add: ref_taken_def)
  then have c1: "unat (refs tr' k) = card (users n ?S k)" if "0 < k" for k
    using cd(1)[OF that] cc uk[of k] ref that by (cases "k = l") (simp_all add: ref_taken_def)
  have c2: "occ tr' k \<and> mt_tag (mt_info tr' (k - 1)) = ms_page ?S k q" if k: "0 < k" "q \<in> users n ?S k" for k q
  proof (cases "k = l \<and> q = p")
    case True
    then show ?thesis using ref p(3) by (simp add: ref_taken_def is_slot_def)
  next
    case False
    then have "q \<in> users n S k" using u uk[of k] k(2) by (cases "k = l") auto
    then show ?thesis using cd(2,3)[OF k(1)] ref_taken_tag[OF ref] ref False by (auto simp: ref_taken_def)
  qed
  show ?thesis using c1 c2 unfolding counts_ok_def by simp
qed

lemma drop_result:
  assumes "unlock_drop_ref tr l = Inr tr'" "0 < l"
  shows "refs tr l \<noteq> 0" "tr' = set_refs tr l (refs tr l - 1)"
  using assms by (auto simp: unlock_drop_ref_def Let_def split: if_splits)

lemma refs_set_refs: "0 < l \<Longrightarrow> 0 < k \<Longrightarrow> refs (set_refs tr l r) k = (if k = l then r else refs tr k)"
  by (cases k; cases l) auto

lemma counts_drop:
  assumes c: "counts_ok n S" and pr: "procs_ok n S" and p: "ms_drop S p = Some l" and d: "unlock_drop_ref (ms_tr S) l = Inr tr'"
  shows "counts_ok n (S\<lparr>ms_tr := tr', ms_drop := (ms_drop S)(p := None), ms_proc := (ms_proc S)(p := note_released (ms_proc S p) l)\<rparr>)"
    (is "counts_ok n ?S")
proof -
  note cd = counts_okD[OF c] and pd = procs_okD[OF pr]
  have l: "p < n" "0 < l" using pd(4)[OF p] by auto
  note dr = drop_result[OF d l(2)]
  have "ms_held S l p = None" "ms_wait S p = None"
    using pd(1)[of l p] pd(3)[of p] p by (blast, cases "ms_wait S p") auto
  then have u: "users n ?S l = users n S l - {p}" "p \<in> users n S l" using p l by (auto simp: users_def)
  have uk: "users n ?S k = users n S k" if "k \<noteq> l" for k using that p by (auto simp: users_def)
  have cc: "Suc (card (users n ?S l)) = card (users n S l)" using u by (simp only: card_Suc_Diff1 finite_users)
  have r: "refs tr' k = (if k = l then refs (ms_tr S) l - 1 else refs (ms_tr S) k)" if "0 < k" for k
    unfolding dr(2) by (rule refs_set_refs[OF l(2) that])
  have "unat (refs (ms_tr S) l - 1) = unat (refs (ms_tr S) l) - 1" using dr(1) by (metis unat_minus_one)
  then have c1: "unat (refs tr' k) = card (users n ?S k)" if "0 < k" for k
    using cd(1)[OF that] cc uk[of k] r[OF that] by (cases "k = l") simp_all
  have "occ tr' k \<and> mt_tag (mt_info tr' (k - 1)) = ms_page ?S k q" if "0 < k" "q \<in> users n ?S k" for k q
  proof -
    have "q \<in> users n S k" using u(1) uk[of k] that(2) by (cases "k = l") auto
    then show ?thesis using cd(2,3)[OF that(1)] unfolding dr(2) by (simp del: fun_upd_apply)
  qed
  then show ?thesis using c1 unfolding counts_ok_def by simp
qed

section \<open>Steps keep the invariant\<close>

lemma mt_ok_added:
  assumes "polar_logindex_mini_trans_set_page_added tr l = Inr tr'" "mt_ok h tr"
  shows "mt_ok h tr'" "mt_started tr' = mt_started tr" "mt_lsn tr' = mt_lsn tr" "\<And>k. refs tr' k = refs tr k"
    "occ tr' = occ tr" "\<And>k. mt_tag (mt_info tr' k) = mt_tag (mt_info tr k)"
proof -
  let ?x = "(mt_info tr (l - 1))\<lparr>mt_added := True\<rparr>"
  have l: "occ tr l" and tr': "tr' = put_info tr (l - 1) ?x"
    using assms(1) by (auto simp: polar_logindex_mini_trans_set_page_added_def IS_OCCUPIED_occ Let_def POLAR_ASSERT_PANIC_def
        split: if_splits)
  show "mt_started tr' = mt_started tr" "mt_lsn tr' = mt_lsn tr" "\<And>k. refs tr' k = refs tr k"
    "occ tr' = occ tr" "\<And>k. mt_tag (mt_info tr' k) = mt_tag (mt_info tr k)" by (simp_all add: tr' fun_eq_iff)
  have "mt_chain (mt_info tr') = mt_chain (mt_info tr)"
  proof (intro ext)
    show "mt_chain (mt_info tr') i js = mt_chain (mt_info tr) i js" for i js by (induction js arbitrary: i) (auto simp: tr')
  qed
  moreover have "mt_tag (mt_info tr' i) = mt_tag (mt_info tr i)" for i by (simp add: tr')
  moreover have "mt_info tr' (s - 1) = zero_info" if "0 < s" "\<not> occ tr s" for s
  proof -
    have "s - 1 \<noteq> l - 1" using that l by (cases s; cases l) (auto simp: occ_def)
    then show ?thesis using mt_okD(6)[OF assms(2) that] by (simp add: tr')
  qed
  moreover have "occ tr' = occ tr" by (simp add: tr' fun_eq_iff)
  ultimately show "mt_ok h tr'" using assms(2) unfolding mt_ok_def by simp
qed

lemma lock_result:
  assumes ph: "phase_ok h (ms_tr S) (ms_end S)" and "\<And>tag. h tag < 37" "l \<noteq> 0"
    and "polar_logindex_mini_trans_key_lock (ms_tr S) tag (h tag) = Some (Inr (l, x, tr'))
      \<or> polar_logindex_mini_trans_cond_key_lock (ms_tr S) tag (h tag) = Some (Inr (l, x, tr'))"
  shows "ref_taken (ms_tr S) tag l tr'" "phase_ok h tr' (ms_end S)"
proof -
  have st: "mt_started (ms_tr S)" "mt_lsn (ms_tr S) \<noteq> 0"
    using assms(3,4) by (auto simp: polar_logindex_mini_trans_key_lock_def polar_logindex_mini_trans_cond_key_lock_def
        mini_trans_increase_ref_def mini_trans_find_def split: if_splits)
  have e: "ms_end S = Ends_not" using phase_okD(4)[OF ph st(1)] by simp
  then have inv: "mt_ok h (ms_tr S)" using phase_okD(1)[OF ph] by simp
  have r: "ref_taken (ms_tr S) tag l tr'" "mt_ok h tr'"
    using key_lock_ok[OF inv st assms(2), of tag] increase_ref_ok[OF inv st assms(2), of tag] assms(3,4) st
    by (auto simp: polar_logindex_mini_trans_cond_key_lock_def)
  then show "ref_taken (ms_tr S) tag l tr'" "phase_ok h tr' (ms_end S)"
    using phase_ok_started[of tr' h] st e by (simp_all add: ref_taken_def)
qed

lemma ref_step:
  assumes inv: "ms_inv h n S" and h: "\<And>tag. h tag < 37" and n: "n < 2 ^ 32"
    and p: "p < n" "idle S p" "l \<noteq> 0" "\<not> acquired_lock (ms_proc S p) (l - 1)"
    and lk: "polar_logindex_mini_trans_key_lock (ms_tr S) tag (h tag) = Some (Inr (l, x, tr'))
      \<or> polar_logindex_mini_trans_cond_key_lock (ms_tr S) tag (h tag) = Some (Inr (l, x, tr'))"
  shows "ms_inv h n (ms_ref S p tag l mode tr')"
proof -
  have iv: "phase_ok h (ms_tr S) (ms_end S)" "procs_ok n S" "counts_ok n S" using inv by (simp_all add: ms_inv_def)
  note r = lock_result[OF iv(1) h p(3) lk]
  have "ms_held S l p = None" using procs_okD(1)[OF iv(2), of l p] p(4) by blast
  then show ?thesis using procs_ref[OF iv(2) p] counts_ref[OF iv(3) n p(1-3) _ r(1)] r(2) by (simp add: ms_inv_def)
qed

text \<open>Giving up a reference.\<close>

lemma phase_drop:
  assumes ph: "phase_ok h tr e" and l: "0 < l" "occ tr l" and d: "unlock_drop_ref tr l = Inr tr'"
  shows "phase_ok h tr' e"
proof -
  note dr = drop_result[OF d l(1)] and pd = phase_okD[OF ph]
  have e: "e \<noteq> Ends_clear" using pd(8)[of "l - 1"] dr(1) by auto
  have ok: "mt_ok h tr'" unfolding dr(2) by (rule mt_ok_refs[OF pd(1)[OF e] l(2)])
  have same: "occ tr' = occ tr" "mt_started tr' = mt_started tr" "mt_lsn tr' = mt_lsn tr" by (simp_all add: dr(2) fun_eq_iff)
  have "refs tr' s = 0" if "e = Ends_scan x" "occ tr s" "\<not> bit x (s - 1)" for x s
  proof -
    have z: "refs tr s = 0" and s: "0 < s" using pd(7)[OF that] that(2) by (auto simp: occ_def)
    then have "s \<noteq> l" using dr(1) by auto
    then show ?thesis using z unfolding dr(2) refs_set_refs[OF l(1) s] by simp
  qed
  moreover have "tr \<noteq> mini_trans_init" using l(2) by (auto simp: occ_def mini_trans_init_def)
  ultimately show ?thesis using ok e pd(4-6) mt_okD(1,6)[OF ok] unfolding phase_ok_def same by blast
qed

lemma ms_step_inv:
  assumes "ms_step h n S S'" "ms_inv h n S" "\<And>tag. h tag < 37" "n < 2 ^ 32"
  shows "ms_inv h n S'"
proof -
  have iv: "phase_ok h (ms_tr S) (ms_end S)" "procs_ok n S" "counts_ok n S" using assms(2) by (simp_all add: ms_inv_def)
  note pd = phase_okD[OF iv(1)]
  from assms(1) show ?thesis
  proof cases
    case (start lsn tr')
    then have i: "mt_lsn (ms_tr S) = 0" "\<not> mt_started (ms_tr S)" "tr' = (ms_tr S)\<lparr>mt_started := True, mt_lsn := lsn\<rparr>"
      by (auto simp: polar_logindex_mini_trans_start_def split: if_splits)
    have e: "ms_end S = Ends_not" using pd(5) i(1) by auto
    have "mt_ok h tr'" using pd(1) e by (simp add: i(3) mt_ok_def)
    then have "phase_ok h tr' (ms_end S)" using phase_ok_started[of tr' h] start(3) e i(3) by simp
    then show ?thesis using iv(2) counts_tr(1)[OF iv(3), of tr'] by (simp add: start(1) ms_inv_def i(3))
  next
    case (lock p tag l x tr' mode)
    show ?thesis unfolding lock(1) by (rule ref_step[OF assms(2,3,4) lock(2,3,5,6) disjI1[OF lock(4)]])
  next
    case (cond_lock p tag l x tr' mode)
    show ?thesis unfolding cond_lock(1) by (rule ref_step[OF assms(2,3,4) cond_lock(2,3,5,6) disjI2[OF cond_lock(4)]])
  next
    case (acquire p l mode)
    have "users n S' k = users n S k" for k using acquire(2,3) unfolding acquire(1) by (auto simp: users_def)
    then have "counts_ok n S'" using iv(3) by (simp add: acquire(1) counts_ok_def)
    then show ?thesis using iv(1) procs_acquire[OF iv(2) acquire(2-4)] by (simp add: acquire(1) ms_inv_def)
  next
    case (unlock_release p l)
    note pr = procs_release[OF iv(2) unlock_release(2-4)]
    have "users n S' k = users n S k" for k using unlock_release(2,3) pr(2) unfolding unlock_release(1) by (auto simp: users_def)
    then have "counts_ok n S'" using iv(3) by (simp add: unlock_release(1) counts_ok_def)
    then show ?thesis using iv(1) pr(1) by (simp add: unlock_release(1) ms_inv_def)
  next
    case (unlock_drop p l tr')
    have l: "0 < l" "p \<in> users n S l" using procs_okD(4)[OF iv(2) unlock_drop(3)] unlock_drop(3) by (auto simp: users_def)
    have "phase_ok h tr' (ms_end S)" by (rule phase_drop[OF iv(1) l(1) counts_okD(2)[OF iv(3) l] unlock_drop(4)])
    then show ?thesis using procs_drop[OF iv(2) unlock_drop(3)] counts_drop[OF iv(3,2) unlock_drop(3,4)]
      by (simp add: unlock_drop(1) ms_inv_def)
  next
    case (abort_end p)
    have "users n S' k = users n S k" for k unfolding abort_end(1) by (simp add: users_def)
    then have "counts_ok n S'" using iv(3) by (simp add: abort_end(1) counts_ok_def)
    then show ?thesis using iv(1) procs_abort[OF iv(2) abort_end(4)] by (simp add: abort_end(1) ms_inv_def)
  next
    case (set_added l p tr')
    have l: "0 < l" "p \<in> users n S l" using procs_okD(1)[OF iv(2) set_added(2)] set_added(2) by (auto simp: users_def)
    have "ms_end S \<noteq> Ends_clear" using pd(8)[of "l - 1"] user_refs[OF iv(3) l] by auto
    note ok = mt_ok_added[OF set_added(3) pd(1)[OF this]]
    have "ms_tr S \<noteq> mini_trans_init" using counts_okD(2)[OF iv(3) l] by (auto simp: occ_def mini_trans_init_def)
    then have "phase_ok h tr' (ms_end S)"
      using ok(1) \<open>ms_end S \<noteq> Ends_clear\<close> pd(4-7) mt_okD(1,6)[OF ok(1)] unfolding phase_ok_def ok(2-5) by blast
    then show ?thesis using iv(2) counts_tr(1)[OF iv(3), of tr'] ok(4-6) by (simp add: set_added(1) ms_inv_def)
  next
    case (stop lsn tr')
    then have i: "tr' = (ms_tr S)\<lparr>mt_started := False\<rparr>" "mt_lsn (ms_tr S) \<noteq> 0"
      by (auto simp: mini_trans_stop_def split: if_splits)
    have "mt_ok h tr'" using pd(1) stop(2) by (simp add: i(1) mt_ok_def)
    then have "phase_ok h tr' Ends_wait" using i(2) pd(2,3) by (simp add: phase_ok_def i(1))
    then show ?thesis using iv(2) counts_tr(2)[OF iv(3), of tr'] by (simp add: stop(1) ms_inv_def i(1))
  next
    case (end_turn tr' e')
    note t = phase_turn[OF iv(1) end_turn(2,3)]
    have "counts_ok n S'" unfolding end_turn(1)
      by (rule counts_tr(2)[OF iv(3)]) (use t in \<open>simp, metis\<close>)
    then show ?thesis using iv(2) t by (simp add: end_turn(1) ms_inv_def)
  qed
qed

lemma ms_reachable_inv:
  assumes "ms_reachable h n S" "\<And>tag. h tag < 37" "n < 2 ^ 32"
  shows "ms_inv h n S"
  using assms(1)
proof (induction rule: rtranclp_induct)
  case base
  show ?case by (simp add: ms_inv_def ms_init_def phase_ok_def procs_ok_def counts_ok_def users_def)
      (simp add: mini_trans_init_def occ_def zero_info_def)
next
  case (step S S')
  then show ?case using ms_step_inv assms(2,3) by blast
qed

section \<open>Results\<close>

text \<open>Nobody uses a page lock exactly if there is no reference.\<close>

lemma no_users:
  assumes "procs_ok n S" "\<And>l. 0 < l \<Longrightarrow> users n S l = {}"
  shows "idle S p" "ms_held S l p = None"
proof -
  note pd = procs_okD[OF assms(1)]
  show "ms_held S l p = None"
  proof (rule ccontr)
    assume "ms_held S l p \<noteq> None"
    then show False using pd(1)[of l p] assms(2)[of l] by (auto simp: users_def)
  qed
  have "ms_wait S p = None"
  proof (cases "ms_wait S p")
    case (Some x)
    then show ?thesis using pd(3)[of p "fst x" "snd x"] assms(2)[of "fst x"] by (cases x) (auto simp: users_def)
  qed
  moreover have "ms_drop S p = None"
  proof (cases "ms_drop S p")
    case (Some k)
    then show ?thesis using pd(4)[OF Some] assms(2)[of k] by (auto simp: users_def)
  qed
  ultimately show "idle S p" by simp
qed

lemma drop_ok:
  assumes inv: "ms_inv h n S" and l: "0 < l" "p \<in> users n S l"
  shows "l \<le> 37" "\<exists>tr'. unlock_drop_ref (ms_tr S) l = Inr tr'"
proof -
  have iv: "phase_ok h (ms_tr S) (ms_end S)" "counts_ok n S" using inv by (simp_all add: ms_inv_def)
  note o = counts_okD(2)[OF iv(2) l]
  show "l \<le> 37" by (rule phase_okD(3)[OF iv(1) o])
  then show "\<exists>tr'. unlock_drop_ref (ms_tr S) l = Inr tr'"
    using o l(1) user_refs[OF iv(2) l] by (simp add: unlock_drop_ref_def IS_OCCUPIED_occ Let_def)
qed

lemma page_exclusive:
  assumes inv: "ms_inv h n S" and x: "ms_held S l p = Some LW_EXCLUSIVE" "ms_held S l' q \<noteq> None" "ms_page S l p = ms_page S l' q"
  shows "q = p \<and> l' = l"
proof -
  have iv: "phase_ok h (ms_tr S) (ms_end S)" "procs_ok n S" "counts_ok n S" using inv by (simp_all add: ms_inv_def)
  have l: "0 < l" "p \<in> users n S l" "0 < l'" "q \<in> users n S l'"
    using procs_okD(1)[OF iv(2), of l p] procs_okD(1)[OF iv(2) x(2)] x(1,2) by (auto simp: users_def)
  have "ms_end S \<noteq> Ends_clear" using phase_okD(8)[OF iv(1), of "l - 1"] user_refs[OF iv(3) l(1,2)] by auto
  then have "mt_ok h (ms_tr S)" by (rule phase_okD(1)[OF iv(1)])
  then have "l' = l" using mt_okD(5)[of h "ms_tr S" l' l] counts_okD(2,3)[OF iv(3) l(1,2)] counts_okD(2,3)[OF iv(3) l(3,4)] x(3) by simp
  then show ?thesis using procs_okD(5)[OF iv(2) x(1)] x(2) by blast
qed

text \<open>C19. Mini transactions are safe for any interleaving of the processes. In every reachable state a
  process that has acquired a page lock passes the checks of unlocking it, and once it has released
  the lock it can give up its reference without an error, even if the transaction is ending. If a
  process holds the lock it asked for a page in exclusive mode, no other process holds a lock for the
  same page, and the process itself no second one. While the process that ends the transaction
  clears the slots without a lock, no process holds a page lock, waits for one or has a reference
  left. When nobody uses page locks any more the end of the transaction is reached after finitely
  many turns, and between two transactions the table is as it was when it was created.\<close>

theorem mini_trans_safe:
  assumes "ms_reachable h n S" "\<And>tag. h tag < MINI_TRANSACTION_TABLE_SIZE" "n < 2 ^ 32"
  shows "(\<forall>p i. acquired_lock (ms_proc S p) i \<longrightarrow> unlock_check (ms_proc S p) (Suc i) = Inr ())
    \<and> (\<forall>p l. ms_drop S p = Some l \<longrightarrow> (\<exists>tr'. unlock_drop_ref (ms_tr S) l = Inr tr'))
    \<and> (\<forall>l l' p q. ms_held S l p = Some LW_EXCLUSIVE \<and> ms_held S l' q \<noteq> None \<and> ms_page S l p = ms_page S l' q
         \<longrightarrow> q = p \<and> l' = l)
    \<and> (ms_end S = Ends_clear \<longrightarrow> (\<forall>p. idle S p \<and> (\<forall>l. ms_held S l p = None)))
    \<and> (ms_end S \<noteq> Ends_not \<and> (\<forall>p. idle S p \<and> (\<forall>l. ms_held S l p = None)) \<longrightarrow>
         (\<exists>k. (mini_trans_end_turn ^^ k) (ms_tr S, ms_end S) = (mini_trans_init, Ends_not)))
    \<and> (ms_end S = Ends_not \<and> \<not> mt_started (ms_tr S) \<longrightarrow> ms_tr S = mini_trans_init)"
proof -
  have inv: "ms_inv h n S" using ms_reachable_inv[OF assms(1) _ assms(3)] assms(2) by simp
  then have iv: "phase_ok h (ms_tr S) (ms_end S)" "procs_ok n S" "counts_ok n S" by (simp_all add: ms_inv_def)
  note pd = phase_okD[OF iv(1)] and cd = counts_okD[OF iv(3)] and prd = procs_okD[OF iv(2)]
  have chk: "unlock_check (ms_proc S p) (Suc i) = Inr ()" if a: "acquired_lock (ms_proc S p) i" for p i
  proof -
    have "p \<in> users n S (Suc i)" using prd(2)[OF a] prd(1)[of "Suc i" p] prd(4)[of p "Suc i"] by (auto simp: users_def)
    then show ?thesis using drop_ok(1)[OF inv, of "Suc i" p] prd(2)[OF a] a by (simp add: unlock_check_def)
  qed
  have drp: "\<exists>tr'. unlock_drop_ref (ms_tr S) l = Inr tr'" if "ms_drop S p = Some l" for p l
    using drop_ok(2)[OF inv, of l p] prd(4)[OF that] that by (simp add: users_def)
  have clr: "idle S p \<and> (\<forall>l. ms_held S l p = None)" if "ms_end S = Ends_clear" for p
  proof -
    have "users n S l = {}" if "0 < l" for l using cd(1)[OF that] pd(8)[OF \<open>ms_end S = Ends_clear\<close>] by simp
    then show ?thesis using no_users[OF iv(2)] by blast
  qed
  have fin: "\<exists>k. (mini_trans_end_turn ^^ k) (ms_tr S, ms_end S) = (mini_trans_init, Ends_not)"
    if e: "ms_end S \<noteq> Ends_not" and none: "\<forall>p. idle S p \<and> (\<forall>l. ms_held S l p = None)"
  proof (rule end_turns[OF pd(2)])
    show "mt_refcount (mt_info (ms_tr S) i) = 0" for i
      using cd(1)[of "Suc i"] none by (simp add: users_def unat_eq_zero)
  qed (use pd(4) e in auto)
  show ?thesis using chk drp page_exclusive[OF inv] clr fin pd(6) by blast
qed

text \<open>C20. The table of a mini transaction is a map from pages to page locks with reference counts.
  While a transaction runs, \<open>polar_logindex_mini_trans_key_lock\<close> always returns: its searches in the
  coalesced chains end. It yields no lock only if the page has none and all slots are taken, and then
  changes nothing. Otherwise the lock belongs to the page afterwards, its reference count is one
  higher, and no other page gains, loses or changes its lock or its count.\<close>

theorem mini_trans_lock_map:
  assumes "mt_ok h tr" "mt_started tr" "mt_lsn tr \<noteq> InvalidXLogRecPtr" "h tag < MINI_TRANSACTION_TABLE_SIZE"
  shows "\<exists>l lsn tr'. polar_logindex_mini_trans_key_lock tr tag (h tag) = Some (Inr (l, lsn, tr')) \<and> mt_ok h tr'
    \<and> (if l = POLAR_INVALID_PAGE_LOCK
       then tr' = tr \<and> is_slot tr tag 0 \<and> (\<forall>s. 0 < s \<and> s \<le> MINI_TRANSACTION_TABLE_SIZE \<longrightarrow> occ tr s)
       else lsn = Some (mt_lsn tr) \<and> is_slot tr' tag l \<and> refs tr' l = refs tr l + 1
         \<and> (\<forall>t k. t \<noteq> tag \<longrightarrow> is_slot tr' t k = is_slot tr t k)
         \<and> (\<forall>s. 0 < s \<and> s \<noteq> l \<longrightarrow> refs tr' s = refs tr s))"
proof -
  obtain l lsn tr' where r: "polar_logindex_mini_trans_key_lock tr tag (h tag) = Some (Inr (l, lsn, tr'))" "mt_ok h tr'"
    "if l = 0 then tr' = tr \<and> lsn = None \<and> is_slot tr tag 0 \<and> (\<forall>s. 0 < s \<and> s \<le> 37 \<longrightarrow> occ tr s)
     else lsn = Some (mt_lsn tr) \<and> ref_taken tr tag l tr'"
    using key_lock_ok[OF assms(1-3), of tag] assms(4) by auto
  show ?thesis using r by (intro exI conjI) (auto simp: ref_taken_def)
qed

section \<open>Samples\<close>

definition sample_tag :: BufferTag where
  "sample_tag = \<lparr>rnode = \<lparr>spcNode = 1663, dbNode = 13000, relNode = 16384\<rparr>, forkNum = 0, blockNum = 7\<rparr>"

definition sample_trans :: mini_trans_data_t where
  "sample_trans = mini_trans_init\<lparr>mt_started := True, mt_lsn := 16\<rparr>"

lemma sample_trans_ok: "mt_ok (\<lambda>_. 5) sample_trans" "mt_started sample_trans" "mt_lsn sample_trans \<noteq> 0" "\<not> occ sample_trans 1"
  by (simp_all add: sample_trans_def mt_ok_def mini_trans_init_def occ_def)

theorem mini_trans_lock_map_witness:
  "\<exists>l tr'. polar_logindex_mini_trans_key_lock sample_trans sample_tag 5 = Some (Inr (l, Some 16, tr')) \<and> is_slot tr' sample_tag l"
proof -
  have "MINI_TRANSACTION_TABLE_SIZE = 37" "\<not> (\<forall>s. 0 < s \<and> s \<le> (37::nat) \<longrightarrow> occ sample_trans s)"
    using sample_trans_ok(4) by auto
  moreover have "mt_lsn sample_trans = 16" by (simp add: sample_trans_def)
  ultimately show ?thesis
    using mini_trans_lock_map[OF sample_trans_ok(1,2,3), of sample_tag] by (auto split: if_splits)
qed

lemma sample_reach:
  obtains S l where "ms_reachable (\<lambda>_. 5) 2 S" "0 < l" "ms_held S l 0 = Some LW_EXCLUSIVE" "acquired_lock (ms_proc S 0) (l - 1)"
    "idle S 0" "ms_end S = Ends_wait"
proof -
  define S1 where "S1 = ms_init\<lparr>ms_tr := sample_trans\<rparr>"
  have s1: "ms_step (\<lambda>_. 5) 2 ms_init S1" unfolding S1_def
    by (rule ms_step.start[where lsn = 16])
      (simp_all add: polar_logindex_mini_trans_start_def ms_init_def mini_trans_init_def sample_trans_def)
  obtain l x tr' where k: "polar_logindex_mini_trans_key_lock sample_trans sample_tag 5 = Some (Inr (l, x, tr'))" "l \<noteq> 0"
    and rt: "ref_taken sample_trans sample_tag l tr'"
    using key_lock_ok[OF sample_trans_ok(1,2,3), of sample_tag] sample_trans_ok(4)
    by (auto split: if_splits dest: spec[of _ 1])
  define S2 where "S2 = ms_ref S1 0 sample_tag l LW_EXCLUSIVE tr'"
  have s2: "ms_step (\<lambda>_. 5) 2 S1 S2" unfolding S2_def
    by (rule ms_step.lock[where tag = sample_tag and x = x]) (use k in \<open>simp_all add: S1_def ms_init_def\<close>)
  have w: "ms_wait S2 0 = Some (l, LW_EXCLUSIVE)" "compatible S2 l LW_EXCLUSIVE"
    by (simp_all add: S2_def S1_def ms_init_def compatible_def)
  define S3 where "S3 = S2\<lparr>ms_wait := (ms_wait S2)(0 := None), ms_held := (ms_held S2)(l := (ms_held S2 l)(0 := Some LW_EXCLUSIVE)),
      ms_proc := (ms_proc S2)(0 := note_acquired (ms_proc S2 0) l)\<rparr>"
  have s3: "ms_step (\<lambda>_. 5) 2 S2 S3" unfolding S3_def by (rule ms_step.acquire[OF _ w]) simp
  define S4 where "S4 = S3\<lparr>ms_tr := tr'\<lparr>mt_started := False\<rparr>, ms_end := Ends_wait\<rparr>"
  have "mt_lsn tr' = 16" using rt by (simp add: ref_taken_def sample_trans_def)
  then have s4: "ms_step (\<lambda>_. 5) 2 S3 S4" unfolding S4_def
    by (intro ms_step.stop[where lsn = 16]) (simp_all add: S3_def S2_def S1_def ms_init_def mini_trans_stop_def)
  have "ms_reachable (\<lambda>_. 5) 2 S4" using s1 s2 s3 s4 by (meson rtranclp.rtrancl_into_rtrancl rtranclp.rtrancl_refl)
  then show thesis using that[of S4 l] k(2) by (simp add: S4_def S3_def S2_def S1_def ms_init_def note_acquired_def)
qed

text \<open>A process holds a page lock while the transaction ends; it unlocks it, and the end goes on.\<close>

theorem mini_trans_safe_witness:
  "\<exists>S l S' tr'. ms_reachable (\<lambda>_. 5) 2 S \<and> ms_end S = Ends_wait \<and> ms_held S l 0 = Some LW_EXCLUSIVE
    \<and> unlock_check (ms_proc S 0) l = Inr () \<and> ms_step (\<lambda>_. 5) 2 S S' \<and> ms_drop S' 0 = Some l
    \<and> unlock_drop_ref (ms_tr S') l = Inr tr'"
proof -
  obtain S l where S: "ms_reachable (\<lambda>_. 5) 2 S" "0 < l" "ms_held S l 0 = Some LW_EXCLUSIVE" "acquired_lock (ms_proc S 0) (l - 1)"
    "idle S 0" "ms_end S = Ends_wait" by (rule sample_reach)
  have h: "(\<lambda>_. 5) tag < MINI_TRANSACTION_TABLE_SIZE" "(2::nat) < 2 ^ 32" for tag :: BufferTag by simp_all
  have "unlock_check (ms_proc S 0) (Suc (l - 1)) = Inr ()" by (rule conjunct1[OF mini_trans_safe[OF S(1) h], rule_format, OF S(4)])
  then have c: "unlock_check (ms_proc S 0) l = Inr ()" using S(2) by simp
  let ?S = "S\<lparr>ms_held := (ms_held S)(l := (ms_held S l)(0 := None)), ms_drop := (ms_drop S)(0 := Some l)\<rparr>"
  have st: "ms_step (\<lambda>_. 5) 2 S ?S" by (rule ms_step.unlock_release[OF _ S(5) c]) simp
  have r: "ms_reachable (\<lambda>_. 5) 2 ?S" using S(1) st by (rule rtranclp.rtrancl_into_rtrancl)
  have "ms_drop ?S 0 = Some l" by simp
  then have "\<exists>tr'. unlock_drop_ref (ms_tr ?S) l = Inr tr'"
    using conjunct1[OF conjunct2[OF mini_trans_safe[OF r h]]] by blast
  then show ?thesis using S(1,3,6) c st \<open>ms_drop ?S 0 = Some l\<close> by blast
qed

end
