(* ===== verification/Checkpoint_Ring.thy ===== *)
theory Checkpoint_Ring
  imports Polar_Prelude
begin

text \<open>
  The stash of checkpoints of a standby, from \<open>polar_checkpoint_ringbuf.c\<close>: checkpoints the startup
  process has read wait in a ring until the background replay has passed their redo position. The ring
  is shown to be a bounded queue that drops its newest element when it is full.
\<close>

section \<open>Data\<close>

text \<open>Of a \<open>CheckPoint\<close> only the redo position is read here; the other fields are copied with it.\<close>

record CheckPoint =
  redo :: XLogRecPtr
  ThisTimeLineID :: uint32
  PrevTimeLineID :: uint32
  fullPageWrites :: bool
  nextXid :: uint64
  nextOid :: uint32
  nextMulti :: uint32
  nextMultiOffset :: uint32
  oldestXid :: uint32
  oldestXidDB :: uint32
  oldestMulti :: uint32
  oldestMultiDB :: uint32
  cp_time :: int
  oldestCommitTsXid :: uint32
  newestCommitTsXid :: uint32
  oldestActiveXid :: uint32

definition zero_CheckPoint :: CheckPoint where
  "zero_CheckPoint = \<lparr>redo = 0, ThisTimeLineID = 0, PrevTimeLineID = 0, fullPageWrites = False, nextXid = 0, nextOid = 0,
     nextMulti = 0, nextMultiOffset = 0, oldestXid = 0, oldestXidDB = 0, oldestMulti = 0, oldestMultiDB = 0, cp_time = 0,
     oldestCommitTsXid = 0, newestCommitTsXid = 0, oldestActiveXid = 0\<rparr>"

record polar_checkpoint_ringbuf_t =
  recptrs :: "nat \<Rightarrow> XLogRecPtr"
  endptrs :: "nat \<Rightarrow> XLogRecPtr"
  checkpoints :: "nat \<Rightarrow> CheckPoint"
  cr_head :: nat
  cr_tail :: nat
  cr_size :: nat
  found_count :: uint64
  unfound_count :: uint64
  evict_count :: uint64
  add_count :: uint64

section \<open>Operations\<close>

definition POLAR_CHECKPOINT_RINGBUF_EMPTY :: "polar_checkpoint_ringbuf_t \<Rightarrow> bool" where
  "POLAR_CHECKPOINT_RINGBUF_EMPTY rbuf \<longleftrightarrow> cr_head rbuf = cr_tail rbuf"

definition POLAR_CHECKPOINT_RINGBUF_FULL :: "polar_checkpoint_ringbuf_t \<Rightarrow> bool" where
  "POLAR_CHECKPOINT_RINGBUF_FULL rbuf \<longleftrightarrow> cr_head rbuf = (cr_tail rbuf + 1) mod cr_size rbuf"

definition POLAR_CHECKPOINT_RINGBUF_DEFAULT_SIZE :: nat where "POLAR_CHECKPOINT_RINGBUF_DEFAULT_SIZE = 1024"

definition polar_checkpoint_ringbuf_init :: "nat \<Rightarrow> polar_checkpoint_ringbuf_t" where
  "polar_checkpoint_ringbuf_init n = \<lparr>recptrs = (\<lambda>_. 0), endptrs = (\<lambda>_. 0), checkpoints = (\<lambda>_. zero_CheckPoint),
     cr_head = 0, cr_tail = 0, cr_size = n, found_count = 0, unfound_count = 0, evict_count = 0, add_count = 0\<rparr>"

definition polar_checkpoint_ringbuf_free :: "polar_checkpoint_ringbuf_t \<Rightarrow> polar_checkpoint_ringbuf_t" where
  "polar_checkpoint_ringbuf_free rbuf = (if cr_size rbuf > 0 then polar_checkpoint_ringbuf_init 0 else rbuf)"

text \<open>The loop of the pop function; the result so far is the checkpoint and its two positions.\<close>

partial_function (option) pop_loop :: "polar_checkpoint_ringbuf_t \<Rightarrow> XLogRecPtr \<Rightarrow> XLogRecPtr \<times> XLogRecPtr \<times> CheckPoint
    \<Rightarrow> (polar_checkpoint_ringbuf_t \<times> XLogRecPtr \<times> XLogRecPtr \<times> CheckPoint) option" where
  "pop_loop rbuf bg_replayed_lsn res =
    (if POLAR_CHECKPOINT_RINGBUF_EMPTY rbuf then Some (rbuf, res)
     else if redo (checkpoints rbuf (cr_head rbuf)) > bg_replayed_lsn then Some (rbuf, res)
     else pop_loop (rbuf\<lparr>cr_head := (cr_head rbuf + 1) mod cr_size rbuf\<rparr>) bg_replayed_lsn
            (recptrs rbuf (cr_head rbuf), endptrs rbuf (cr_head rbuf), checkpoints rbuf (cr_head rbuf)))"

definition polar_checkpoint_ringbuf_pop :: "polar_checkpoint_ringbuf_t \<Rightarrow> XLogRecPtr
    \<Rightarrow> (polar_checkpoint_ringbuf_t \<times> XLogRecPtr \<times> XLogRecPtr \<times> CheckPoint) option" where
  "polar_checkpoint_ringbuf_pop rbuf bg_replayed_lsn =
    (case pop_loop rbuf bg_replayed_lsn (InvalidXLogRecPtr, InvalidXLogRecPtr, zero_CheckPoint) of
       None \<Rightarrow> None
     | Some (rbuf, recptr, endptr, ckpt) \<Rightarrow>
         Some (if XLogRecPtrIsInvalid recptr then rbuf\<lparr>unfound_count := unfound_count rbuf + 1\<rparr>
               else rbuf\<lparr>found_count := found_count rbuf + 1\<rparr>, recptr, endptr, ckpt))"

definition ring_before :: "polar_checkpoint_ringbuf_t \<Rightarrow> nat \<Rightarrow> nat" where
  "ring_before rbuf i = (if i > 0 then i - 1 else cr_size rbuf - 1)"

definition polar_checkpoint_ringbuf_push ::
    "polar_checkpoint_ringbuf_t \<Rightarrow> XLogRecPtr \<Rightarrow> XLogRecPtr \<Rightarrow> CheckPoint \<Rightarrow> bool \<times> polar_checkpoint_ringbuf_t" where
  "polar_checkpoint_ringbuf_push rbuf recptr endptr ckpt =
    (let prev = ring_before rbuf (cr_tail rbuf)
     in if \<not> POLAR_CHECKPOINT_RINGBUF_EMPTY rbuf
           \<and> (recptrs rbuf prev \<ge> recptr \<or> redo (checkpoints rbuf prev) > redo ckpt)
        then (False, rbuf)
        else
          let target = cr_tail rbuf;
              (target, rbuf) =
                (if \<not> POLAR_CHECKPOINT_RINGBUF_FULL rbuf
                 then (target, rbuf\<lparr>cr_tail := (cr_tail rbuf + 1) mod cr_size rbuf\<rparr>)
                 else (ring_before rbuf target, rbuf\<lparr>evict_count := evict_count rbuf + 1\<rparr>))
          in (True, rbuf\<lparr>recptrs := (recptrs rbuf)(target := recptr), endptrs := (endptrs rbuf)(target := endptr),
                         checkpoints := (checkpoints rbuf)(target := ckpt), add_count := add_count rbuf + 1\<rparr>))"

definition polar_checkpoint_ringbuf_check ::
    "polar_checkpoint_ringbuf_t \<Rightarrow> XLogRecPtr \<Rightarrow> XLogRecPtr \<Rightarrow> XLogRecPtr \<Rightarrow> CheckPoint
      \<Rightarrow> (polar_checkpoint_ringbuf_t \<times> XLogRecPtr \<times> XLogRecPtr \<times> CheckPoint) result option" where
  "polar_checkpoint_ringbuf_check rbuf bg_replayed_lsn recptr endptr ckpt =
    (if XLogRecPtrIsInvalid recptr \<or> XLogRecPtrIsInvalid endptr then Some (Inr (rbuf, recptr, endptr, ckpt))
     else if XLogRecPtrIsInvalid (redo ckpt) then Some (Inl PANIC)
     else
       let rbuf = (if cr_size rbuf = 0 then polar_checkpoint_ringbuf_init POLAR_CHECKPOINT_RINGBUF_DEFAULT_SIZE else rbuf);
           (_, rbuf) = polar_checkpoint_ringbuf_push rbuf recptr endptr ckpt
       in case polar_checkpoint_ringbuf_pop rbuf bg_replayed_lsn of None \<Rightarrow> None | Some r \<Rightarrow> Some (Inr r))"

section \<open>The ring as a queue\<close>

type_synonym stash = "(XLogRecPtr \<times> XLogRecPtr \<times> CheckPoint) list"

abbreviation ring_item :: "polar_checkpoint_ringbuf_t \<Rightarrow> nat \<Rightarrow> XLogRecPtr \<times> XLogRecPtr \<times> CheckPoint" where
  "ring_item rbuf i \<equiv> (recptrs rbuf i, endptrs rbuf i, checkpoints rbuf i)"

definition stashed :: "polar_checkpoint_ringbuf_t \<Rightarrow> stash \<Rightarrow> bool" where
  "stashed rbuf xs \<longleftrightarrow> 2 \<le> cr_size rbuf \<and> cr_head rbuf < cr_size rbuf \<and> length xs < cr_size rbuf
     \<and> cr_tail rbuf = (cr_head rbuf + length xs) mod cr_size rbuf
     \<and> (\<forall>k<length xs. ring_item rbuf ((cr_head rbuf + k) mod cr_size rbuf) = xs ! k)
     \<and> (\<forall>x\<in>set xs. fst x \<noteq> InvalidXLogRecPtr)"

lemma stashedD:
  assumes "stashed rbuf xs"
  shows "2 \<le> cr_size rbuf" "cr_head rbuf < cr_size rbuf" "length xs < cr_size rbuf"
    "cr_tail rbuf = (cr_head rbuf + length xs) mod cr_size rbuf"
    "\<And>k. k < length xs \<Longrightarrow> ring_item rbuf ((cr_head rbuf + k) mod cr_size rbuf) = xs ! k"
    "\<And>x. x \<in> set xs \<Longrightarrow> fst x \<noteq> 0"
  using assms unfolding stashed_def by blast+

lemma stashed_init: "2 \<le> n \<Longrightarrow> stashed (polar_checkpoint_ringbuf_init n) []"
  by (simp add: stashed_def polar_checkpoint_ringbuf_init_def)

lemma empty_iff:
  assumes "stashed rbuf xs"
  shows "POLAR_CHECKPOINT_RINGBUF_EMPTY rbuf \<longleftrightarrow> xs = []"
  using stashedD(1-4)[OF assms] mod_offset_inj[of "length xs" "cr_size rbuf" 0 "cr_head rbuf"]
  by (auto simp: POLAR_CHECKPOINT_RINGBUF_EMPTY_def)

lemma full_iff:
  assumes "stashed rbuf xs"
  shows "POLAR_CHECKPOINT_RINGBUF_FULL rbuf \<longleftrightarrow> Suc (length xs) = cr_size rbuf"
proof -
  note d = stashedD(1-4)[OF assms]
  have "POLAR_CHECKPOINT_RINGBUF_FULL rbuf \<longleftrightarrow> (cr_head rbuf + 0) mod cr_size rbuf = (cr_head rbuf + Suc (length xs)) mod cr_size rbuf"
    using d by (simp add: POLAR_CHECKPOINT_RINGBUF_FULL_def mod_Suc_eq)
  also have "\<dots> \<longleftrightarrow> Suc (length xs) = cr_size rbuf"
  proof (cases "Suc (length xs) = cr_size rbuf")
    case True
    then show ?thesis by (metis add.right_neutral mod_add_self2)
  next
    case False
    then show ?thesis using mod_offset_inj[of 0 "cr_size rbuf" "Suc (length xs)" "cr_head rbuf"] d by auto
  qed
  finally show ?thesis .
qed

lemma before_tail:
  assumes "stashed rbuf xs" "xs \<noteq> []"
  shows "ring_before rbuf (cr_tail rbuf) = (cr_head rbuf + (length xs - 1)) mod cr_size rbuf"
proof -
  note d = stashedD(1-4)[OF assms(1)]
  have "ring_before rbuf (cr_tail rbuf) = LOOP_PREV_VALUE (cr_tail rbuf) (cr_size rbuf)"
    by (simp add: ring_before_def LOOP_PREV_VALUE_def)
  also have "\<dots> = (cr_tail rbuf + (cr_size rbuf - 1)) mod cr_size rbuf"
    by (rule LOOP_PREV_VALUE_mod) (use d(1,4) in simp)
  also have "\<dots> = (cr_head rbuf + length xs + (cr_size rbuf - 1)) mod cr_size rbuf"
    unfolding d(4) by (rule mod_add_left_eq)
  also have "cr_head rbuf + length xs + (cr_size rbuf - 1) = cr_head rbuf + (length xs - 1) + cr_size rbuf"
    using assms(2) d(1) by (cases xs) auto
  finally show ?thesis by simp
qed

section \<open>Push and pop\<close>

text \<open>What the functions do to the queue.\<close>

definition spec_push :: "nat \<Rightarrow> stash \<Rightarrow> XLogRecPtr \<times> XLogRecPtr \<times> CheckPoint \<Rightarrow> stash" where
  "spec_push n xs x =
    (if xs \<noteq> [] \<and> (fst (last xs) \<ge> fst x \<or> redo (snd (snd (last xs))) > redo (snd (snd x))) then xs
     else if Suc (length xs) < n then xs @ [x] else butlast xs @ [x])"

lemma push_ok:
  assumes s: "stashed rbuf xs" and x: "recptr \<noteq> 0"
  obtains pushed rbuf' where "polar_checkpoint_ringbuf_push rbuf recptr endptr ckpt = (pushed, rbuf')"
    "stashed rbuf' (spec_push (cr_size rbuf) xs (recptr, endptr, ckpt))" "cr_size rbuf' = cr_size rbuf"
proof -
  note d = stashedD[OF s]
  let ?n = "cr_size rbuf" and ?h = "cr_head rbuf" and ?x = "(recptr, endptr, ckpt)"
  let ?skip = "xs \<noteq> [] \<and> (fst (last xs) \<ge> recptr \<or> redo (snd (snd (last xs))) > redo ckpt)"
  have prev: "ring_item rbuf (ring_before rbuf (cr_tail rbuf)) = last xs" if "xs \<noteq> []"
    using d(5)[of "length xs - 1"] before_tail[OF s that] that by (simp add: last_conv_nth)
  have skip: "\<not> POLAR_CHECKPOINT_RINGBUF_EMPTY rbuf \<and> (recptrs rbuf (ring_before rbuf (cr_tail rbuf)) \<ge> recptr
      \<or> redo (checkpoints rbuf (ring_before rbuf (cr_tail rbuf))) > redo ckpt) \<longleftrightarrow> ?skip"
    using prev empty_iff[OF s] by (cases "xs = []") (auto simp: prod_eq_iff)
  have inj: "k = j" if "(?h + k) mod ?n = (?h + j) mod ?n" "k < ?n" "j < ?n" for k j
    using mod_offset_inj[OF that(2,3,1)] .
  consider ?skip | "\<not> ?skip" "Suc (length xs) < ?n" | "\<not> ?skip" "Suc (length xs) = ?n" using d(3) by linarith
  then show thesis
  proof cases
    case 1
    then show thesis using that[of False rbuf] s skip by (simp add: polar_checkpoint_ringbuf_push_def spec_push_def)
  next
    case 2
    let ?t = "cr_tail rbuf"
    let ?r = "rbuf\<lparr>cr_tail := (?t + 1) mod ?n, recptrs := (recptrs rbuf)(?t := recptr), endptrs := (endptrs rbuf)(?t := endptr),
       checkpoints := (checkpoints rbuf)(?t := ckpt), add_count := add_count rbuf + 1\<rparr>"
    have "polar_checkpoint_ringbuf_push rbuf recptr endptr ckpt = (True, ?r)"
      using 2 full_iff[OF s] skip by (simp add: polar_checkpoint_ringbuf_push_def Let_def)
    moreover have "ring_item ?r ((?h + k) mod ?n) = (xs @ [?x]) ! k" if "k < Suc (length xs)" for k
      using that d(3) d(5)[of k] d(4) inj[of k "length xs"] by (cases "k = length xs") (auto simp: nth_append)
    then have "stashed ?r (xs @ [?x])"
      using d(1-4,6) 2 x by (auto simp: stashed_def mod_Suc_eq)
    ultimately show thesis using that[of True ?r] 2 by (simp add: spec_push_def)
  next
    case 3
    then have ne: "xs \<noteq> []" using d(1) by auto
    let ?t = "(?h + (length xs - 1)) mod ?n"
    let ?r = "rbuf\<lparr>evict_count := evict_count rbuf + 1, recptrs := (recptrs rbuf)(?t := recptr), endptrs := (endptrs rbuf)(?t := endptr),
       checkpoints := (checkpoints rbuf)(?t := ckpt), add_count := add_count rbuf + 1\<rparr>"
    have "polar_checkpoint_ringbuf_push rbuf recptr endptr ckpt = (True, ?r)"
      using 3 full_iff[OF s] skip before_tail[OF s ne] by (simp add: polar_checkpoint_ringbuf_push_def Let_def)
    moreover have "ring_item ?r ((?h + k) mod ?n) = (butlast xs @ [?x]) ! k" if "k < length xs" for k
    proof (cases "k = length xs - 1")
      case True
      then show ?thesis by (simp add: nth_append)
    next
      case False
      then have "(?h + k) mod ?n \<noteq> ?t" using inj[of k "length xs - 1"] that d(3) by linarith
      moreover have "k < length xs - 1" using False that by simp
      ultimately show ?thesis using that d(5)[of k] by (simp add: nth_append nth_butlast)
    qed
    then have "stashed ?r (butlast xs @ [?x])"
      using d(1-4,6) ne x by (auto simp: stashed_def dest: in_set_butlastD)
    ultimately show thesis using that[of True ?r] 3 by (simp add: spec_push_def)
  qed
qed

definition ready :: "XLogRecPtr \<Rightarrow> XLogRecPtr \<times> XLogRecPtr \<times> CheckPoint \<Rightarrow> bool" where
  "ready l x \<longleftrightarrow> redo (snd (snd x)) \<le> l"

lemma pop_loop_ok:
  "stashed rbuf xs \<Longrightarrow> \<exists>rbuf'. pop_loop rbuf l res = Some (rbuf', last (res # takeWhile (ready l) xs))
     \<and> stashed rbuf' (dropWhile (ready l) xs) \<and> cr_size rbuf' = cr_size rbuf"
proof (induction xs arbitrary: rbuf res)
  case Nil
  then show ?case by (subst pop_loop.simps) (simp add: empty_iff)
next
  case (Cons x xs)
  note d = stashedD[OF Cons.prems]
  have x: "ring_item rbuf (cr_head rbuf) = x" using d(5)[of 0] d(2) by simp
  let ?r = "rbuf\<lparr>cr_head := (cr_head rbuf + 1) mod cr_size rbuf\<rparr>"
  have "ring_item ?r ((cr_head ?r + k) mod cr_size ?r) = xs ! k" if "k < length xs" for k
    using d(5)[of "Suc k"] that by (simp add: mod_add_left_eq)
  then have s: "stashed ?r xs" using d by (simp add: stashed_def mod_add_left_eq)
  have ne: "\<not> POLAR_CHECKPOINT_RINGBUF_EMPTY rbuf" using empty_iff[OF Cons.prems] by simp
  show ?case
  proof (cases "ready l x")
    case True
    then have "pop_loop rbuf l res = pop_loop ?r l x"
      using ne x by (subst pop_loop.simps) (auto simp: ready_def not_less prod_eq_iff)
    then show ?thesis using Cons.IH[OF s, of x] True by simp
  next
    case False
    then have "pop_loop rbuf l res = Some (rbuf, res)"
      using ne x by (subst pop_loop.simps) (auto simp: ready_def not_le prod_eq_iff)
    then show ?thesis using Cons.prems False by simp
  qed
qed

section \<open>Results\<close>

lemma pop_ok:
  assumes "stashed rbuf xs"
  obtains rbuf' where "polar_checkpoint_ringbuf_pop rbuf l = Some (rbuf', last ((0, 0, zero_CheckPoint) # takeWhile (ready l) xs))"
    "stashed rbuf' (dropWhile (ready l) xs)" "cr_size rbuf' = cr_size rbuf"
proof -
  let ?x = "last ((0, 0, zero_CheckPoint) # takeWhile (ready l) xs)"
  obtain r where r: "pop_loop rbuf l (0, 0, zero_CheckPoint) = Some (r, ?x)" "stashed r (dropWhile (ready l) xs)" "cr_size r = cr_size rbuf"
    using pop_loop_ok[OF assms] by blast
  let ?r = "if fst ?x = 0 then r\<lparr>unfound_count := unfound_count r + 1\<rparr> else r\<lparr>found_count := found_count r + 1\<rparr>"
  have "polar_checkpoint_ringbuf_pop rbuf l = Some (?r, ?x)"
    using r(1) by (simp add: polar_checkpoint_ringbuf_pop_def split: prod.split)
  moreover have "stashed ?r (dropWhile (ready l) xs)" "cr_size ?r = cr_size rbuf" using r(2,3) by (simp_all add: stashed_def)
  ultimately show thesis using that by blast
qed

text \<open>C21. The stash of checkpoints is a bounded queue. Offering a checkpoint to it with
  \<open>polar_checkpoint_ringbuf_check\<close> always returns. A checkpoint whose record is not after
  the newest one of the stash, or whose redo position is before that of the newest one, is skipped;
  otherwise, also with an equal redo position, it is added at the end, in the place of the newest one if
  the ring is full. Then all checkpoints at the front whose redo position is at most the replayed LSN
  leave the stash, and the newest of them is the result, or an invalid position if there is none: a
  checkpoint is never used before the replay has reached its redo position. (The comment of
  \<open>polar_checkpoint_ringbuf_pop\<close> asks for a smaller redo position, and the log message of
  \<open>polar_checkpoint_ringbuf_push\<close> says that an equal one is skipped; the code does neither.)\<close>

theorem checkpoint_stash:
  assumes "stashed rbuf xs" "recptr \<noteq> InvalidXLogRecPtr" "endptr \<noteq> InvalidXLogRecPtr" "redo ckpt \<noteq> InvalidXLogRecPtr"
  shows "\<exists>rbuf' r e c. polar_checkpoint_ringbuf_check rbuf l recptr endptr ckpt = Some (Inr (rbuf', r, e, c))
    \<and> (let ys = spec_push (cr_size rbuf) xs (recptr, endptr, ckpt); done = takeWhile (ready l) ys
       in stashed rbuf' (dropWhile (ready l) ys)
        \<and> (if done = [] then r = InvalidXLogRecPtr else (r, e, c) = last done \<and> r \<noteq> InvalidXLogRecPtr \<and> redo c \<le> l))"
proof -
  let ?ys = "spec_push (cr_size rbuf) xs (recptr, endptr, ckpt)"
  obtain b r1 where p: "polar_checkpoint_ringbuf_push rbuf recptr endptr ckpt = (b, r1)" "stashed r1 ?ys" "cr_size r1 = cr_size rbuf"
    by (rule push_ok[OF assms(1,2)])
  obtain r2 where q: "polar_checkpoint_ringbuf_pop r1 l = Some (r2, last ((0, 0, zero_CheckPoint) # takeWhile (ready l) ?ys))"
    "stashed r2 (dropWhile (ready l) ?ys)"
    by (rule pop_ok[OF p(2)])
  have n: "cr_size rbuf \<noteq> 0" using stashedD(1)[OF assms(1)] by simp
  have c: "polar_checkpoint_ringbuf_check rbuf l recptr endptr ckpt = Some (Inr (r2, last ((0, 0, zero_CheckPoint) # takeWhile (ready l) ?ys)))"
    using assms(2-4) n p(1) q(1) by (simp add: polar_checkpoint_ringbuf_check_def)
  show ?thesis
  proof (cases "takeWhile (ready l) ?ys = []")
    case True
    then show ?thesis using c q(2) by (auto simp: Let_def)
  next
    case False
    let ?x = "last (takeWhile (ready l) ?ys)"
    have x: "?x \<in> set (takeWhile (ready l) ?ys)" using False by simp
    then have "ready l ?x" "?x \<in> set ?ys" by (auto dest: set_takeWhileD)
    then have "redo (snd (snd ?x)) \<le> l" "fst ?x \<noteq> 0" using stashedD(6)[OF p(2)] by (auto simp: ready_def)
    then show ?thesis using c q(2) False by (intro exI[of _ r2] exI[of _ "fst ?x"] exI[of _ "fst (snd ?x)"] exI[of _ "snd (snd ?x)"])
        (simp add: Let_def)
  qed
qed

theorem checkpoint_stash_witness:
  "\<exists>rbuf' r e c. polar_checkpoint_ringbuf_check (polar_checkpoint_ringbuf_init 4) 24 40 48 (zero_CheckPoint\<lparr>redo := 16\<rparr>)
      = Some (Inr (rbuf', r, e, c)) \<and> stashed rbuf' [] \<and> r = 40 \<and> e = 48 \<and> redo c = 16"
  using checkpoint_stash[OF stashed_init[of 4], of 40 48 "zero_CheckPoint\<lparr>redo := 16\<rparr>" 24]
  by (auto simp: spec_push_def ready_def Let_def polar_checkpoint_ringbuf_init_def)

end
