(* ===== verification/Rel_Size.thy ===== *)
theory Rel_Size
  imports Polar_Prelude
begin

text \<open>
  The relation size cache, from \<open>polar_rel_size_cache.c\<close>: a log of truncated relations and of created and
  dropped databases in a ring of tables in shared memory, with older tables in files. A process that is
  about to replay a page asks whether the page still exists at the end of the log.
\<close>

section \<open>Data\<close>

datatype polar_db_state_t = POLAR_DB_NOTFOUND | POLAR_DB_NEW | POLAR_DB_BLOCK_TRUNCATED | POLAR_DB_DROPED

record polar_database_state_t =
  ds_lsn :: XLogRecPtr
  ds_spc :: uint32
  ds_db :: uint32
  ds_state :: polar_db_state_t

record polar_relation_size_t =
  rs_lsn :: XLogRecPtr
  rs_node :: RelFileNode
  rs_fork :: int
  rs_size :: uint32

text \<open>
  The area \<open>info\<close> of a table is filled from the front with relation sizes and from the back with database
  states. \<open>rel_info\<close> and \<open>db_info\<close> are what the area holds at a byte offset.
\<close>

record polar_rel_size_table_t =
  rt_tid :: nat
  rel_tail :: nat
  db_tail :: nat
  rt_min_lsn :: XLogRecPtr
  rt_max_lsn :: XLogRecPtr
  rel_info :: "nat \<Rightarrow> polar_relation_size_t"
  db_info :: "nat \<Rightarrow> polar_database_state_t"

text \<open>\<open>rs_files\<close> are the files of the directory of the cache, by table id.\<close>

record polar_rel_size_cache_data_t =
  active_mid :: nat
  rc_min_tid :: nat
  rc_table_size :: nat
  table_data :: "nat \<Rightarrow> polar_rel_size_table_t"
  rs_files :: "nat \<Rightarrow> polar_rel_size_table_t option"

record polar_rel_search_result_t =
  sr_state :: polar_db_state_t
  sr_lsn :: XLogRecPtr
  sr_size :: uint32
  ignore_error :: bool

datatype search_state = NEXT | END

text \<open>The sizes in bytes, for a block of 8192 bytes and a header of 32.\<close>

definition REL_INFO_TOTAL_SIZE :: nat where "REL_INFO_TOTAL_SIZE = 8192 - 32"
definition sizeof_relation_size :: nat where "sizeof_relation_size = 32"
definition sizeof_database_state :: nat where "sizeof_database_state = 24"

section \<open>Recording\<close>

definition zero_rel :: polar_relation_size_t where
  "zero_rel = \<lparr>rs_lsn = 0, rs_node = \<lparr>spcNode = 0, dbNode = 0, relNode = 0\<rparr>, rs_fork = 0, rs_size = 0\<rparr>"

definition zero_db :: polar_database_state_t where
  "zero_db = \<lparr>ds_lsn = 0, ds_spc = 0, ds_db = 0, ds_state = POLAR_DB_NOTFOUND\<rparr>"

definition zero_rel_table :: polar_rel_size_table_t where
  "zero_rel_table = \<lparr>rt_tid = 0, rel_tail = 0, db_tail = 0, rt_min_lsn = 0, rt_max_lsn = 0, rel_info = (\<lambda>_. zero_rel), db_info = (\<lambda>_. zero_db)\<rparr>"

text \<open>The function takes the table id as a 32-bit number.\<close>

definition polar_init_rel_size_table :: "nat \<Rightarrow> polar_rel_size_table_t" where
  "polar_init_rel_size_table tid = zero_rel_table\<lparr>rt_tid := tid mod 2 ^ 32, rel_tail := 0, db_tail := REL_INFO_TOTAL_SIZE,
     rt_max_lsn := InvalidXLogRecPtr, rt_min_lsn := InvalidXLogRecPtr\<rparr>"

text \<open>The postmaster clears the directory; there is no cache unless \<open>blocks\<close> is positive.\<close>

definition polar_rel_size_shmem_init :: "int \<Rightarrow> polar_rel_size_cache_data_t option" where
  "polar_rel_size_shmem_init blocks =
    (if blocks \<le> 0 then None
     else Some \<lparr>active_mid = 0, rc_min_tid = 1, rc_table_size = nat blocks,
            table_data = (\<lambda>_. zero_rel_table)(0 := polar_init_rel_size_table 1), rs_files = (\<lambda>_. None)\<rparr>)"

text \<open>\<open>fails\<close> tells whether the file of a table cannot be opened or written.\<close>

definition polar_save_rel_size_table ::
    "(nat \<Rightarrow> bool) \<Rightarrow> polar_rel_size_cache_data_t \<Rightarrow> polar_rel_size_table_t \<Rightarrow> polar_rel_size_cache_data_t result" where
  "polar_save_rel_size_table fails cache t =
    (if fails (rt_tid t) then Inl FATAL else Inr (cache\<lparr>rs_files := (rs_files cache)(rt_tid t := Some t)\<rparr>))"

definition polar_table_space_available :: "polar_rel_size_table_t \<Rightarrow> nat \<Rightarrow> bool" where
  "polar_table_space_available t sz \<longleftrightarrow> rel_tail t + sz < db_tail t"

text \<open>The result has the active table at \<open>active_mid\<close>.\<close>

definition polar_allocate_table_space ::
    "(nat \<Rightarrow> bool) \<Rightarrow> polar_rel_size_cache_data_t \<Rightarrow> nat \<Rightarrow> polar_rel_size_cache_data_t result" where
  "polar_allocate_table_space fails cache sz =
    (let active_table = table_data cache (active_mid cache); tid = rt_tid active_table
     in if \<not> polar_table_space_available active_table sz then
          let cache = cache\<lparr>active_mid := LOOP_NEXT_VALUE (active_mid cache) (rc_table_size cache)\<rparr>;
              active_table = table_data cache (active_mid cache)
          in rbind (if rt_tid active_table > 0 then polar_save_rel_size_table fails cache active_table else Inr cache)
               (\<lambda>cache. Inr (cache\<lparr>table_data := (table_data cache)(active_mid cache := polar_init_rel_size_table (tid + 1))\<rparr>))
        else Inr cache)"

definition polar_update_lsn_range :: "polar_rel_size_table_t \<Rightarrow> XLogRecPtr \<Rightarrow> polar_rel_size_table_t" where
  "polar_update_lsn_range t l =
    (if XLogRecPtrIsInvalid (rt_max_lsn t) then t\<lparr>rt_max_lsn := l, rt_min_lsn := l\<rparr> else t\<lparr>rt_max_lsn := l\<rparr>)"

definition polar_record_db_state :: "(nat \<Rightarrow> bool) \<Rightarrow> polar_rel_size_cache_data_t \<Rightarrow> XLogRecPtr \<Rightarrow> uint32 \<Rightarrow> uint32 \<Rightarrow> polar_db_state_t
    \<Rightarrow> polar_rel_size_cache_data_t result" where
  "polar_record_db_state fails cache l spc db st =
    rbind (polar_allocate_table_space fails cache sizeof_database_state) (\<lambda>cache.
      let t = table_data cache (active_mid cache);
          pos = db_tail t - sizeof_database_state;
          t = t\<lparr>db_info := (db_info t)(pos := \<lparr>ds_lsn = l, ds_spc = spc, ds_db = db, ds_state = st\<rparr>), db_tail := pos\<rparr>
      in Inr (cache\<lparr>table_data := (table_data cache)(active_mid cache := polar_update_lsn_range t l)\<rparr>))"

definition polar_record_rel_size :: "(nat \<Rightarrow> bool) \<Rightarrow> polar_rel_size_cache_data_t \<Rightarrow> XLogRecPtr \<Rightarrow> RelFileNode \<Rightarrow> int \<Rightarrow> uint32
    \<Rightarrow> polar_rel_size_cache_data_t result" where
  "polar_record_rel_size fails cache l node fork sz =
    rbind (polar_allocate_table_space fails cache sizeof_relation_size) (\<lambda>cache.
      let t = table_data cache (active_mid cache);
          pos = rel_tail t;
          t = t\<lparr>rel_info := (rel_info t)(pos := \<lparr>rs_lsn = l, rs_node = node, rs_fork = fork, rs_size = sz\<rparr>),
                rel_tail := pos + sizeof_relation_size\<rparr>
      in Inr (cache\<lparr>table_data := (table_data cache)(active_mid cache := polar_update_lsn_range t l)\<rparr>))"

text \<open>The cache lock makes each of these one step.\<close>

definition polar_record_db_state_with_lock :: "(nat \<Rightarrow> bool) \<Rightarrow> polar_rel_size_cache_data_t \<Rightarrow> XLogRecPtr \<Rightarrow> uint32 \<Rightarrow> uint32
    \<Rightarrow> polar_db_state_t \<Rightarrow> polar_rel_size_cache_data_t result" where
  "polar_record_db_state_with_lock fails cache l spc db st = polar_record_db_state fails cache l spc db st"

definition polar_record_rel_size_with_lock :: "(nat \<Rightarrow> bool) \<Rightarrow> polar_rel_size_cache_data_t \<Rightarrow> XLogRecPtr \<Rightarrow> RelFileNode \<Rightarrow> int
    \<Rightarrow> uint32 \<Rightarrow> polar_rel_size_cache_data_t result" where
  "polar_record_rel_size_with_lock fails cache l node fork sz = polar_record_rel_size fails cache l node fork sz"

section \<open>Searching\<close>

function search_db_loop :: "polar_rel_size_table_t \<Rightarrow> XLogRecPtr \<Rightarrow> uint32 \<Rightarrow> uint32 \<Rightarrow> nat \<Rightarrow> polar_rel_search_result_t
    \<Rightarrow> polar_rel_search_result_t" where
  "search_db_loop t l spc db pos res =
    (if pos < REL_INFO_TOTAL_SIZE then
       let d = db_info t pos
       in if ds_lsn d \<le> l then res
          else if ds_db d = db \<and> ds_spc d = spc then res\<lparr>sr_lsn := ds_lsn d, sr_state := ds_state d\<rparr>
          else search_db_loop t l spc db (pos + sizeof_database_state) res
     else res)"
  by pat_completeness auto
termination
  by (relation "measure (\<lambda>(t, l, spc, db, pos, res). REL_INFO_TOTAL_SIZE - pos)") (auto simp: sizeof_database_state_def)

declare search_db_loop.simps [simp del]

definition polar_search_db_state :: "polar_rel_size_table_t \<Rightarrow> XLogRecPtr \<Rightarrow> uint32 \<Rightarrow> uint32 \<Rightarrow> polar_rel_search_result_t
    \<Rightarrow> polar_rel_search_result_t" where
  "polar_search_db_state t l spc db res = search_db_loop t l spc db (db_tail t) (res\<lparr>sr_state := POLAR_DB_NOTFOUND\<rparr>)"

function search_rel_loop :: "nat \<Rightarrow> polar_rel_size_table_t \<Rightarrow> XLogRecPtr \<Rightarrow> BufferTag \<Rightarrow> nat \<Rightarrow> polar_rel_search_result_t
    \<Rightarrow> search_state \<times> polar_rel_search_result_t" where
  "search_rel_loop min_tid t l tag pos res =
    (if pos > 0 then
       let r = rel_info t (pos - sizeof_relation_size)
       in if rs_lsn r \<le> l then (END, res)
          else if RelFileNodeEquals (rnode tag) (rs_node r) \<and> forkNum tag = rs_fork r \<and> blockNum tag \<ge> rs_size r
          then (END, res\<lparr>sr_lsn := rs_lsn r, sr_state := POLAR_DB_BLOCK_TRUNCATED, sr_size := rs_size r\<rparr>)
          else search_rel_loop min_tid t l tag (pos - sizeof_relation_size) res
     else (if rt_tid t > min_tid then NEXT else END, res))"
  by pat_completeness auto
termination
  by (relation "measure (\<lambda>(min_tid, t, l, tag, pos, res). pos)") (auto simp: sizeof_relation_size_def)

declare search_rel_loop.simps [simp del]

definition polar_search_truncate_info :: "polar_rel_size_cache_data_t \<Rightarrow> polar_rel_size_table_t \<Rightarrow> XLogRecPtr \<Rightarrow> BufferTag
    \<Rightarrow> polar_rel_search_result_t \<Rightarrow> search_state \<times> polar_rel_search_result_t" where
  "polar_search_truncate_info cache t l tag res = search_rel_loop (rc_min_tid cache) t l tag (rel_tail t) res"

definition polar_check_table_rel_size :: "polar_rel_size_cache_data_t \<Rightarrow> polar_rel_size_table_t \<Rightarrow> XLogRecPtr \<Rightarrow> BufferTag
    \<Rightarrow> polar_rel_search_result_t \<Rightarrow> (search_state \<times> polar_rel_search_result_t) result" where
  "polar_check_table_rel_size cache t l tag res =
    (if l > rt_max_lsn t then Inr (END, res)
     else
       let res = (if sr_state res = POLAR_DB_NOTFOUND
                  then polar_search_db_state t l (spcNode (rnode tag)) (dbNode (rnode tag)) res else res)
       in case sr_state res of
            POLAR_DB_NEW \<Rightarrow>
              if \<not> ignore_error res \<and> l < sr_lsn res then Inl PANIC
              else Inr (polar_search_truncate_info cache t l tag res)
          | POLAR_DB_NOTFOUND \<Rightarrow> Inr (polar_search_truncate_info cache t l tag res)
          | POLAR_DB_DROPED \<Rightarrow> if \<not> ignore_error res \<and> l \<ge> sr_lsn res then Inl PANIC else Inr (END, res)
          | POLAR_DB_BLOCK_TRUNCATED \<Rightarrow> Inr (END, res))"

definition polar_get_rel_size_table :: "polar_rel_size_cache_data_t \<Rightarrow> nat \<Rightarrow> polar_rel_size_table_t result" where
  "polar_get_rel_size_table cache tid =
    (let t = table_data cache ((tid - 1) mod rc_table_size cache)
     in if rt_tid t = tid then Inr t
        else case rs_files cache tid of None \<Rightarrow> Inl FATAL | Some t \<Rightarrow> Inr t)"

text \<open>The loop over the tables, from the active one to older ones.\<close>

partial_function (option) check_tables_loop :: "polar_rel_size_cache_data_t \<Rightarrow> XLogRecPtr \<Rightarrow> BufferTag \<Rightarrow> polar_rel_size_table_t
    \<Rightarrow> polar_rel_search_result_t \<Rightarrow> polar_rel_search_result_t result option" where
  "check_tables_loop cache l tag t res =
    (case polar_check_table_rel_size cache t l tag res of
       Inl e \<Rightarrow> Some (Inl e)
     | Inr (END, res) \<Rightarrow> Some (Inr res)
     | Inr (NEXT, res) \<Rightarrow>
         if rt_tid t > rc_min_tid cache then
           (case polar_get_rel_size_table cache (rt_tid t - 1) of
              Inl e \<Rightarrow> Some (Inl e)
            | Inr t \<Rightarrow> check_tables_loop cache l tag t res)
         else Some (Inr res))"

text \<open>The result is whether the page is valid and the LSN the code stores through its pointer;
  without a pointer unexpected states are errors.\<close>

definition polar_check_rel_block_valid_internal :: "polar_rel_size_cache_data_t \<Rightarrow> XLogRecPtr \<Rightarrow> BufferTag \<Rightarrow> bool
    \<Rightarrow> (bool \<times> XLogRecPtr) result option" where
  "polar_check_rel_block_valid_internal cache l tag with_lsn =
    (let res = \<lparr>sr_state = POLAR_DB_NOTFOUND, sr_lsn = InvalidXLogRecPtr, sr_size = 0, ignore_error = with_lsn\<rparr>;
         t = table_data cache (active_mid cache)
     in case (if \<not> XLogRecPtrIsInvalid (rt_max_lsn t) then check_tables_loop cache l tag t res else Some (Inr res)) of
          None \<Rightarrow> None
        | Some (Inl e) \<Rightarrow> Some (Inl e)
        | Some (Inr res) \<Rightarrow>
            Some (Inr (case sr_state res of
              POLAR_DB_NOTFOUND \<Rightarrow> (True, l)
            | POLAR_DB_NEW \<Rightarrow> (True, sr_lsn res)
            | POLAR_DB_DROPED \<Rightarrow> (False, sr_lsn res)
            | POLAR_DB_BLOCK_TRUNCATED \<Rightarrow> (False, sr_lsn res))))"

definition polar_check_rel_block_valid_only :: "polar_rel_size_cache_data_t \<Rightarrow> XLogRecPtr \<Rightarrow> BufferTag \<Rightarrow> bool result option" where
  "polar_check_rel_block_valid_only cache l tag =
    (case polar_check_rel_block_valid_internal cache l tag False of
       None \<Rightarrow> None | Some (Inl e) \<Rightarrow> Some (Inl e) | Some (Inr (v, _)) \<Rightarrow> Some (Inr v))"

definition polar_check_rel_block_valid_and_lsn :: "polar_rel_size_cache_data_t \<Rightarrow> XLogRecPtr \<Rightarrow> BufferTag \<Rightarrow> (bool \<times> XLogRecPtr) result option" where
  "polar_check_rel_block_valid_and_lsn cache l tag = polar_check_rel_block_valid_internal cache l tag True"

section \<open>Truncation\<close>

text \<open>A file that cannot be removed, as \<open>stuck\<close> tells, stays, with a warning.\<close>

definition polar_unlink_rel_size_table :: "(nat \<Rightarrow> bool) \<Rightarrow> polar_rel_size_cache_data_t \<Rightarrow> nat \<Rightarrow> polar_rel_size_cache_data_t" where
  "polar_unlink_rel_size_table stuck cache tid = (if stuck tid then cache else cache\<lparr>rs_files := (rs_files cache)(tid := None)\<rparr>)"

function truncate_cache_loop :: "(nat \<Rightarrow> bool) \<Rightarrow> polar_rel_size_cache_data_t \<Rightarrow> XLogRecPtr \<Rightarrow> nat \<Rightarrow> nat \<Rightarrow> polar_rel_size_cache_data_t result" where
  "truncate_cache_loop stuck cache l max_tid tid =
    (if tid < max_tid then
       rbind (polar_get_rel_size_table cache tid) (\<lambda>t.
         let mid = (tid - 1) mod rc_table_size cache;
             cache' = (if l \<ge> rt_max_lsn t then
                         (if rt_tid (table_data cache mid) = tid
                          then cache\<lparr>table_data := (table_data cache)(mid := zero_rel_table)\<rparr>
                          else polar_unlink_rel_size_table stuck cache tid)
                           \<lparr>rc_min_tid := (rc_min_tid cache + 1) mod 2 ^ 32\<rparr>
                       else cache)
         in truncate_cache_loop stuck cache' l max_tid (tid + 1))
     else Inr cache)"
  by pat_completeness auto
termination
  by (relation "measure (\<lambda>(stuck, cache, l, max_tid, tid). max_tid - tid)") auto

declare truncate_cache_loop.simps [simp del]

definition polar_truncate_rel_size_cache :: "(nat \<Rightarrow> bool) \<Rightarrow> polar_rel_size_cache_data_t \<Rightarrow> XLogRecPtr \<Rightarrow> polar_rel_size_cache_data_t result" where
  "polar_truncate_rel_size_cache stuck cache l =
    truncate_cache_loop stuck cache l (rt_tid (table_data cache (active_mid cache))) (rc_min_tid cache)"

section \<open>Contents of a table\<close>

type_synonym rel_log = "polar_relation_size_t list \<times> polar_database_state_t list"

definition log_sorted :: "rel_log \<Rightarrow> bool" where
  "log_sorted L \<longleftrightarrow> sorted (map rs_lsn (fst L)) \<and> sorted (map ds_lsn (snd L))
     \<and> (\<forall>d\<in>set (snd L). ds_state d = POLAR_DB_NEW \<or> ds_state d = POLAR_DB_DROPED)"

definition lsns :: "rel_log \<Rightarrow> XLogRecPtr set" where
  "lsns L = rs_lsn ` set (fst L) \<union> ds_lsn ` set (snd L)"

definition table_holds :: "polar_rel_size_table_t \<Rightarrow> nat \<Rightarrow> rel_log \<Rightarrow> bool" where
  "table_holds t k L \<longleftrightarrow> rt_tid t = Suc k \<and> rel_tail t = 32 * length (fst L) \<and> db_tail t + 24 * length (snd L) = REL_INFO_TOTAL_SIZE
     \<and> rel_tail t \<le> db_tail t
     \<and> (\<forall>i<length (fst L). rel_info t (32 * i) = fst L ! i)
     \<and> (\<forall>i<length (snd L). db_info t (REL_INFO_TOTAL_SIZE - 24 * Suc i) = snd L ! i)
     \<and> log_sorted L \<and> (\<forall>l\<in>lsns L. 0 < l \<and> l \<le> rt_max_lsn t)
     \<and> (if lsns L = {} then rt_max_lsn t = 0 else rt_max_lsn t \<in> lsns L)"

lemma table_holdsD:
  assumes "table_holds t k L"
  shows "rt_tid t = Suc k" "rel_tail t = 32 * length (fst L)" "db_tail t + 24 * length (snd L) = REL_INFO_TOTAL_SIZE"
    "rel_tail t \<le> db_tail t" "\<And>i. i < length (fst L) \<Longrightarrow> rel_info t (32 * i) = fst L ! i"
    "\<And>i. i < length (snd L) \<Longrightarrow> db_info t (REL_INFO_TOTAL_SIZE - 24 * Suc i) = snd L ! i"
    "log_sorted L" "\<And>l. l \<in> lsns L \<Longrightarrow> 0 < l \<and> l \<le> rt_max_lsn t"
    "if lsns L = {} then rt_max_lsn t = 0 else rt_max_lsn t \<in> lsns L"
  using assms unfolding table_holds_def by blast+

lemma log_sortedD:
  assumes "log_sorted L"
  shows "sorted (map rs_lsn (fst L))" "sorted (map ds_lsn (snd L))"
    "\<And>d. d \<in> set (snd L) \<Longrightarrow> ds_state d = POLAR_DB_NEW \<or> ds_state d = POLAR_DB_DROPED"
  using assms by (auto simp: log_sorted_def)

section \<open>The search in one table\<close>

text \<open>The newest change of the database of a page after \<open>l\<close>, and whether the page was cut off after \<open>l\<close>.\<close>

definition db_change :: "XLogRecPtr \<Rightarrow> BufferTag \<Rightarrow> polar_database_state_t \<Rightarrow> bool" where
  "db_change l tag d \<longleftrightarrow> l < ds_lsn d \<and> ds_db d = dbNode (rnode tag) \<and> ds_spc d = spcNode (rnode tag)"

definition newest_db :: "XLogRecPtr \<Rightarrow> BufferTag \<Rightarrow> polar_database_state_t list \<Rightarrow> polar_database_state_t option" where
  "newest_db l tag D = find (db_change l tag) (rev D)"

definition cut_off :: "XLogRecPtr \<Rightarrow> BufferTag \<Rightarrow> polar_relation_size_t \<Rightarrow> bool" where
  "cut_off l tag r \<longleftrightarrow> l < rs_lsn r \<and> rnode tag = rs_node r \<and> forkNum tag = rs_fork r \<and> blockNum tag \<ge> rs_size r"

definition set_db :: "polar_database_state_t option \<Rightarrow> polar_rel_search_result_t \<Rightarrow> polar_rel_search_result_t" where
  "set_db found res = (case found of None \<Rightarrow> res | Some d \<Rightarrow> res\<lparr>sr_lsn := ds_lsn d, sr_state := ds_state d\<rparr>)"

lemma sorted_take_last: "sorted (map f xs) \<Longrightarrow> n < length xs \<Longrightarrow> x \<in> set (take n xs) \<Longrightarrow> f x \<le> f (xs ! n)"
proof -
  assume s: "sorted (map f xs)" "n < length xs" "x \<in> set (take n xs)"
  then obtain i where "i < n" "xs ! i = x" by (auto simp: in_set_conv_nth)
  then show ?thesis using s(1,2) by (auto simp: sorted_iff_nth_mono)
qed

lemma search_db_loop_spec:
  assumes t: "table_holds t k L"
  shows "n \<le> length (snd L) \<Longrightarrow> search_db_loop t l (spcNode (rnode tag)) (dbNode (rnode tag)) (REL_INFO_TOTAL_SIZE - 24 * n) res
    = set_db (newest_db l tag (take n (snd L))) res"
proof (induction n)
  case 0
  then show ?case by (subst search_db_loop.simps) (simp add: newest_db_def set_db_def)
next
  case (Suc n)
  note h = table_holdsD[OF t]
  let ?d = "snd L ! n" and ?pos = "REL_INFO_TOTAL_SIZE - 24 * Suc n"
  have len: "24 * Suc n \<le> REL_INFO_TOTAL_SIZE" using h(3) Suc.prems by simp
  have pos: "?pos < REL_INFO_TOTAL_SIZE" "?pos + 24 = REL_INFO_TOTAL_SIZE - 24 * n" using len by simp_all
  have d: "db_info t ?pos = ?d" using h(6)[of n] Suc.prems by simp
  have tk: "take (Suc n) (snd L) = take n (snd L) @ [?d]" using Suc.prems by (simp add: take_Suc_conv_app_nth)
  have step: "search_db_loop t l (spcNode (rnode tag)) (dbNode (rnode tag)) ?pos res =
      (if ds_lsn ?d \<le> l then res
       else if ds_db ?d = dbNode (rnode tag) \<and> ds_spc ?d = spcNode (rnode tag) then res\<lparr>sr_lsn := ds_lsn ?d, sr_state := ds_state ?d\<rparr>
       else search_db_loop t l (spcNode (rnode tag)) (dbNode (rnode tag)) (REL_INFO_TOTAL_SIZE - 24 * n) res)"
    unfolding search_db_loop.simps[of t l _ _ ?pos] if_P[OF pos(1)] Let_def d sizeof_database_state_def pos(2) by (rule refl)
  show ?case
  proof (cases "ds_lsn ?d \<le> l")
    case True
    have "\<not> db_change l tag x" if "x \<in> set (take n (snd L))" for x
      using sorted_take_last[OF log_sortedD(2)[OF h(7)], of n x] Suc.prems that True by (auto simp: db_change_def)
    then have "newest_db l tag (take (Suc n) (snd L)) = None"
      using True unfolding newest_db_def find_None_iff tk by (auto simp: db_change_def)
    then show ?thesis unfolding step using True by (simp add: set_db_def)
  next
    case False
    then show ?thesis unfolding step tk using Suc by (auto simp: newest_db_def set_db_def db_change_def)
  qed
qed

lemma search_rel_loop_spec:
  assumes t: "table_holds t k L"
  shows "n \<le> length (fst L) \<Longrightarrow> \<exists>nx res'. search_rel_loop mt t l tag (32 * n) res = (nx, res')
    \<and> (if \<exists>r\<in>set (take n (fst L)). cut_off l tag r then nx = END \<and> sr_state res' = POLAR_DB_BLOCK_TRUNCATED
       else res' = res \<and> (nx = END \<longrightarrow> rt_tid t \<le> mt \<or> (\<exists>r\<in>set (take n (fst L)). rs_lsn r \<le> l)) \<and> (nx = NEXT \<longrightarrow> mt < rt_tid t))"
proof (induction n)
  case 0
  then show ?case by (subst search_rel_loop.simps) auto
next
  case (Suc n)
  note h = table_holdsD[OF t]
  let ?r = "fst L ! n"
  have r: "rel_info t (32 * Suc n - 32) = ?r" using h(5)[of n] Suc.prems by simp
  have tk: "take (Suc n) (fst L) = take n (fst L) @ [?r]" using Suc.prems by (simp add: take_Suc_conv_app_nth)
  have step: "search_rel_loop mt t l tag (32 * Suc n) res =
      (if rs_lsn ?r \<le> l then (END, res)
       else if RelFileNodeEquals (rnode tag) (rs_node ?r) \<and> forkNum tag = rs_fork ?r \<and> blockNum tag \<ge> rs_size ?r
       then (END, res\<lparr>sr_lsn := rs_lsn ?r, sr_state := POLAR_DB_BLOCK_TRUNCATED, sr_size := rs_size ?r\<rparr>)
       else search_rel_loop mt t l tag (32 * n) res)"
    unfolding search_rel_loop.simps[of mt t l tag "32 * Suc n"] Let_def sizeof_relation_size_def r by simp
  show ?case
  proof (cases "rs_lsn ?r \<le> l")
    case True
    have "\<not> cut_off l tag x" if "x \<in> set (take n (fst L))" for x
      using sorted_take_last[OF log_sortedD(1)[OF h(7)], of n x] Suc.prems that True by (auto simp: cut_off_def)
    then show ?thesis unfolding step tk using True by (auto simp: cut_off_def)
  next
    case False
    note f = False
    show ?thesis
    proof (cases "cut_off l tag ?r")
      case True
      then show ?thesis unfolding step tk using f by (auto simp: cut_off_def)
    next
      case False
      then have e: "search_rel_loop mt t l tag (32 * Suc n) res = search_rel_loop mt t l tag (32 * n) res"
        unfolding step using f by (auto simp: cut_off_def)
      have c: "(\<exists>r\<in>set (take (Suc n) (fst L)). cut_off l tag r) = (\<exists>r\<in>set (take n (fst L)). cut_off l tag r)"
        "(\<exists>r\<in>set (take (Suc n) (fst L)). rs_lsn r \<le> l) = (\<exists>r\<in>set (take n (fst L)). rs_lsn r \<le> l)"
        unfolding tk using False f by auto
      show ?thesis unfolding e c by (rule Suc.IH) (use Suc.prems in simp)
    qed
  qed
qed

section \<open>The cache\<close>

text \<open>\<open>T\<close> is the history of the cache, the contents of all tables from the first one.\<close>

definition hist_sorted :: "rel_log list \<Rightarrow> bool" where
  "hist_sorted T \<longleftrightarrow> T \<noteq> [] \<and> (\<forall>j k x y. j < k \<and> k < length T \<and> x \<in> lsns (T ! j) \<and> y \<in> lsns (T ! k) \<longrightarrow> x \<le> y)
     \<and> (\<forall>k<length T. lsns (T ! k) = {} \<longrightarrow> length T = 1)"

lemma hist_sortedD:
  assumes "hist_sorted T" "k < length T"
  shows "j < k \<Longrightarrow> x \<in> lsns (T ! j) \<Longrightarrow> y \<in> lsns (T ! k) \<Longrightarrow> x \<le> y" "length T \<noteq> 1 \<Longrightarrow> lsns (T ! k) \<noteq> {}"
  using assms unfolding hist_sorted_def by blast+

definition kept_at :: "polar_rel_size_cache_data_t \<Rightarrow> nat \<Rightarrow> polar_rel_size_table_t \<Rightarrow> bool" where
  "kept_at cache k t \<longleftrightarrow> (if rt_tid (table_data cache (k mod rc_table_size cache)) = Suc k
     then t = table_data cache (k mod rc_table_size cache) else rs_files cache (Suc k) = Some t)"

definition cache_shape :: "polar_rel_size_cache_data_t \<Rightarrow> rel_log list \<Rightarrow> bool" where
  "cache_shape cache T \<longleftrightarrow> T \<noteq> [] \<and> length T < 2 ^ 32 \<and> 0 < rc_table_size cache \<and> active_mid cache = (length T - 1) mod rc_table_size cache
     \<and> 1 \<le> rc_min_tid cache \<and> rc_min_tid cache \<le> length T
     \<and> rt_tid (table_data cache (active_mid cache)) = length T
     \<and> (\<forall>k. rc_min_tid cache \<le> Suc k \<and> k < length T \<longrightarrow> (\<exists>t. kept_at cache k t \<and> table_holds t k (T ! k)))
     \<and> (\<forall>i<rc_table_size cache. rt_tid (table_data cache i) \<noteq> 0 \<longrightarrow>
          (rt_tid (table_data cache i) - 1) mod rc_table_size cache = i \<and> rt_tid (table_data cache i) \<le> length T)"

definition cache_ok :: "polar_rel_size_cache_data_t \<Rightarrow> rel_log list \<Rightarrow> bool" where
  "cache_ok cache T \<longleftrightarrow> cache_shape cache T \<and> hist_sorted T
     \<and> (length T = 1 \<or> rt_max_lsn (table_data cache (active_mid cache)) \<noteq> 0)"

lemma cache_shapeD:
  assumes "cache_shape cache T"
  shows "T \<noteq> []" "0 < rc_table_size cache" "active_mid cache = (length T - 1) mod rc_table_size cache"
    "1 \<le> rc_min_tid cache" "rc_min_tid cache \<le> length T" "rt_tid (table_data cache (active_mid cache)) = length T"
    "\<And>k. rc_min_tid cache \<le> Suc k \<Longrightarrow> k < length T \<Longrightarrow> \<exists>t. kept_at cache k t \<and> table_holds t k (T ! k)"
    "\<And>i. i < rc_table_size cache \<Longrightarrow> rt_tid (table_data cache i) \<noteq> 0 \<Longrightarrow>
          (rt_tid (table_data cache i) - 1) mod rc_table_size cache = i \<and> rt_tid (table_data cache i) \<le> length T"
    "length T < 2 ^ 32"
  using assms unfolding cache_shape_def by blast+

lemma get_table_kept: "kept_at cache k t \<Longrightarrow> polar_get_rel_size_table cache (Suc k) = Inr t"
  by (auto simp: polar_get_rel_size_table_def kept_at_def Let_def split: if_splits)

lemma active_kept:
  assumes "cache_shape cache T"
  shows "kept_at cache (length T - 1) (table_data cache (active_mid cache))"
    "table_holds (table_data cache (active_mid cache)) (length T - 1) (last T)"
proof -
  note d = cache_shapeD[OF assms]
  have T: "T \<noteq> []" "Suc (length T - 1) = length T" using d(1) by auto
  show k: "kept_at cache (length T - 1) (table_data cache (active_mid cache))"
    using d(3,6) T(2) by (simp add: kept_at_def)
  obtain t where "kept_at cache (length T - 1) t" "table_holds t (length T - 1) (T ! (length T - 1))"
    using d(7)[of "length T - 1"] d(5) T by auto
  moreover from this have "t = table_data cache (active_mid cache)" using k d(3,6) T(2) by (simp add: kept_at_def)
  ultimately show "table_holds (table_data cache (active_mid cache)) (length T - 1) (last T)"
    using T(1) by (simp add: last_conv_nth)
qed

section \<open>The search in the cache\<close>

text \<open>The entries of the tables number \<open>m\<close> to \<open>k\<close>, and whether a page is gone after \<open>l\<close> according to them. \<open>nf\<close>
  tells that no change of the database was found in newer tables.\<close>

definition rels_upto :: "rel_log list \<Rightarrow> nat \<Rightarrow> nat \<Rightarrow> polar_relation_size_t list" where
  "rels_upto T m k = concat (map fst (drop m (take (Suc k) T)))"

definition dbs_upto :: "rel_log list \<Rightarrow> nat \<Rightarrow> nat \<Rightarrow> polar_database_state_t list" where
  "dbs_upto T m k = concat (map snd (drop m (take (Suc k) T)))"

definition gone :: "XLogRecPtr \<Rightarrow> BufferTag \<Rightarrow> polar_relation_size_t list \<Rightarrow> polar_database_state_t list \<Rightarrow> bool \<Rightarrow> bool" where
  "gone l tag R D nf \<longleftrightarrow> (\<exists>r\<in>set R. cut_off l tag r) \<or> (nf \<and> (\<exists>d. newest_db l tag D = Some d \<and> ds_state d = POLAR_DB_DROPED))"

lemma upto_Suc:
  assumes "m \<le> k" "k < length T"
  shows "rels_upto T m k = (if m = k then [] else rels_upto T m (k - 1)) @ fst (T ! k)"
    "dbs_upto T m k = (if m = k then [] else dbs_upto T m (k - 1)) @ snd (T ! k)"
proof -
  have "drop m (take (Suc k) T) = drop m (take k T) @ [T ! k]" using assms by (simp add: take_Suc_conv_app_nth)
  moreover have "drop m (take k T) = (if m = k then [] else drop m (take (Suc (k - 1)) T))" using assms by (cases "m = k") auto
  ultimately show "rels_upto T m k = (if m = k then [] else rels_upto T m (k - 1)) @ fst (T ! k)"
    "dbs_upto T m k = (if m = k then [] else dbs_upto T m (k - 1)) @ snd (T ! k)"
    by (auto simp: rels_upto_def dbs_upto_def)
qed

lemma upto_in:
  "r \<in> set (rels_upto T m k) \<Longrightarrow> \<exists>j\<le>k. j < length T \<and> rs_lsn r \<in> lsns (T ! j)"
  "d \<in> set (dbs_upto T m k) \<Longrightarrow> \<exists>j\<le>k. j < length T \<and> ds_lsn d \<in> lsns (T ! j)"
proof -
  have *: "\<exists>j\<le>k. j < length T \<and> L = T ! j" if "L \<in> set (drop m (take (Suc k) T))" for L
  proof -
    have "L \<in> set (take (Suc k) T)" using that by (rule in_set_dropD)
    then show ?thesis by (auto simp: in_set_conv_nth less_Suc_eq_le)
  qed
  show "r \<in> set (rels_upto T m k) \<Longrightarrow> \<exists>j\<le>k. j < length T \<and> rs_lsn r \<in> lsns (T ! j)"
    using * by (fastforce simp: rels_upto_def lsns_def)
  show "d \<in> set (dbs_upto T m k) \<Longrightarrow> \<exists>j\<le>k. j < length T \<and> ds_lsn d \<in> lsns (T ! j)"
    using * by (fastforce simp: dbs_upto_def lsns_def)
qed

lemma not_gone:
  assumes "\<And>j x. j \<le> k \<Longrightarrow> j < length T \<Longrightarrow> x \<in> lsns (T ! j) \<Longrightarrow> x \<le> l"
  shows "\<not> gone l tag (rels_upto T m k) (dbs_upto T m k) nf" "newest_db l tag (dbs_upto T m k) = None"
proof -
  show n: "newest_db l tag (dbs_upto T m k) = None"
    unfolding newest_db_def find_None_iff using upto_in(2)[of _ T m k] assms by (fastforce simp: db_change_def)
  show "\<not> gone l tag (rels_upto T m k) (dbs_upto T m k) nf"
    unfolding gone_def n using upto_in(1)[of _ T m k] assms by (fastforce simp: cut_off_def)
qed

lemma find_append: "find P (xs @ ys) = (case find P xs of None \<Rightarrow> find P ys | Some d \<Rightarrow> Some d)"
  by (induction xs) auto

lemma newest_db_append: "newest_db l tag (D @ E) = (case newest_db l tag E of None \<Rightarrow> newest_db l tag D | Some d \<Rightarrow> Some d)"
  unfolding newest_db_def by (simp add: find_append)

lemma newest_db_in: "newest_db l tag D = Some d \<Longrightarrow> d \<in> set D"
  unfolding newest_db_def find_Some_iff by (metis nth_mem length_rev set_rev)

lemma newest_db_Nil [simp]: "newest_db l tag [] = None"
  by (simp add: newest_db_def)

text \<open>One table more.\<close>

lemma gone_step:
  assumes "m \<le> k" "k < length T" "\<forall>r\<in>set (fst (T ! k)). \<not> cut_off l tag r"
    and "nf \<longrightarrow> (\<forall>d. newest_db l tag (snd (T ! k)) = Some d \<longrightarrow> ds_state d \<noteq> POLAR_DB_DROPED)"
  shows "gone l tag (rels_upto T m k) (dbs_upto T m k) nf \<longleftrightarrow>
    m < k \<and> gone l tag (rels_upto T m (k - 1)) (dbs_upto T m (k - 1)) (nf \<and> newest_db l tag (snd (T ! k)) = None)"
  using assms unfolding upto_Suc[OF assms(1,2)] gone_def newest_db_append
  by (cases "m = k") (auto split: option.splits)

lemma older_le:
  assumes "hist_sorted T" "k < length T" "\<And>y. y \<in> lsns (T ! k) \<Longrightarrow> y \<le> l" "j \<le> k" "x \<in> lsns (T ! j)"
  shows "x \<le> l"
proof (cases "j = k")
  case False
  then have "j < k" "length T \<noteq> 1" using assms(2,4) by auto
  then obtain y where y: "y \<in> lsns (T ! k)" using assms(1,2) unfolding hist_sorted_def by blast
  have "x \<le> y" using assms(1,2,5) \<open>j < k\<close> y unfolding hist_sorted_def by blast
  then show ?thesis using assms(3)[OF y] by (rule order_trans)
qed (use assms in simp)

lemma older_not_gone:
  assumes "hist_sorted T" "k < length T" "r \<in> set (fst (T ! k))" "rs_lsn r \<le> l" "0 < k"
  shows "\<not> gone l tag (rels_upto T m (k - 1)) (dbs_upto T m (k - 1)) nf" "newest_db l tag (dbs_upto T m (k - 1)) = None"
proof -
  have le: "x \<le> l" if j: "j \<le> k - 1" "x \<in> lsns (T ! j)" for j x
  proof -
    have "rs_lsn r \<in> lsns (T ! k)" "j < k" using assms(3,5) j(1) by (auto simp: lsns_def)
    then have "x \<le> rs_lsn r" using assms(1,2) j(2) unfolding hist_sorted_def by blast
    then show ?thesis using assms(4) by (rule order_trans)
  qed
  show "\<not> gone l tag (rels_upto T m (k - 1)) (dbs_upto T m (k - 1)) nf" by (rule not_gone(1)) (rule le)
  show "newest_db l tag (dbs_upto T m (k - 1)) = None" by (rule not_gone(2)) (rule le)
qed

definition found_in :: "XLogRecPtr \<Rightarrow> BufferTag \<Rightarrow> rel_log \<Rightarrow> polar_rel_search_result_t \<Rightarrow> polar_rel_search_result_t" where
  "found_in l tag L res = (if sr_state res = POLAR_DB_NOTFOUND then set_db (newest_db l tag (snd L)) res else res)"

lemma check_table_eq:
  assumes t: "table_holds t k L" and l: "\<not> rt_max_lsn t < l"
    and res: "ignore_error res" "sr_state res = POLAR_DB_NOTFOUND \<or> sr_state res = POLAR_DB_NEW"
  shows "polar_check_table_rel_size cache t l tag res =
    (if sr_state (found_in l tag L res) = POLAR_DB_DROPED then Inr (END, found_in l tag L res)
     else Inr (search_rel_loop (rc_min_tid cache) t l tag (32 * length (fst L)) (found_in l tag L res)))"
    "ignore_error (found_in l tag L res)"
    "sr_state (found_in l tag L res) = POLAR_DB_DROPED \<longleftrightarrow>
      sr_state res = POLAR_DB_NOTFOUND \<and> (\<exists>d. newest_db l tag (snd L) = Some d \<and> ds_state d = POLAR_DB_DROPED)"
    "sr_state (found_in l tag L res) \<noteq> POLAR_DB_DROPED \<Longrightarrow>
      sr_state (found_in l tag L res) = POLAR_DB_NOTFOUND \<or> sr_state (found_in l tag L res) = POLAR_DB_NEW"
    "sr_state (found_in l tag L res) = POLAR_DB_NOTFOUND \<longleftrightarrow> sr_state res = POLAR_DB_NOTFOUND \<and> newest_db l tag (snd L) = None"
proof -
  note h = table_holdsD[OF t]
  have tail: "db_tail t = REL_INFO_TOTAL_SIZE - 24 * length (snd L)" using h(3) by simp
  have db: "polar_search_db_state t l (spcNode (rnode tag)) (dbNode (rnode tag)) res = set_db (newest_db l tag (snd L)) res"
    if "sr_state res = POLAR_DB_NOTFOUND"
  proof -
    have "res\<lparr>sr_state := POLAR_DB_NOTFOUND\<rparr> = res" using that by (cases res) simp
    then show ?thesis using search_db_loop_spec[OF t, of "length (snd L)" l tag res]
      unfolding polar_search_db_state_def tail by simp
  qed
  have st: "ds_state d = POLAR_DB_NEW \<or> ds_state d = POLAR_DB_DROPED" if "newest_db l tag (snd L) = Some d" for d
    by (rule log_sortedD(3)[OF h(7)], rule newest_db_in[OF that])
  show g: "ignore_error (found_in l tag L res)"
    using res by (auto simp: found_in_def set_db_def split: option.splits)
  show "sr_state (found_in l tag L res) = POLAR_DB_DROPED \<longleftrightarrow>
      sr_state res = POLAR_DB_NOTFOUND \<and> (\<exists>d. newest_db l tag (snd L) = Some d \<and> ds_state d = POLAR_DB_DROPED)"
    using res(2) by (auto simp: found_in_def set_db_def split: option.splits)
  show c: "sr_state (found_in l tag L res) = POLAR_DB_NOTFOUND \<or> sr_state (found_in l tag L res) = POLAR_DB_NEW"
    if "sr_state (found_in l tag L res) \<noteq> POLAR_DB_DROPED"
    using that res(2) st by (auto simp: found_in_def set_db_def split: option.splits)
  show "sr_state (found_in l tag L res) = POLAR_DB_NOTFOUND \<longleftrightarrow> sr_state res = POLAR_DB_NOTFOUND \<and> newest_db l tag (snd L) = None"
    using st res(2) by (cases "newest_db l tag (snd L)") (auto simp: found_in_def set_db_def)
  have f: "(if sr_state res = POLAR_DB_NOTFOUND then polar_search_db_state t l (spcNode (rnode tag)) (dbNode (rnode tag)) res else res)
      = found_in l tag L res"
    using db by (simp add: found_in_def)
  show "polar_check_table_rel_size cache t l tag res =
    (if sr_state (found_in l tag L res) = POLAR_DB_DROPED then Inr (END, found_in l tag L res)
     else Inr (search_rel_loop (rc_min_tid cache) t l tag (32 * length (fst L)) (found_in l tag L res)))"
    unfolding polar_check_table_rel_size_def f if_not_P[OF l] Let_def polar_search_truncate_info_def h(2)
    using g c by (cases "sr_state (found_in l tag L res)") auto
qed

text \<open>Searching one table more.\<close>

lemma found_in_step:
  assumes "m \<le> k" "k < length T"
    and "sr_state (found_in l tag (T ! k) res) = POLAR_DB_NOTFOUND \<longleftrightarrow> sr_state res = POLAR_DB_NOTFOUND \<and> newest_db l tag (snd (T ! k)) = None"
  shows "found_in l tag ([], dbs_upto T m k) res =
    (if m = k then found_in l tag (T ! k) res else found_in l tag ([], dbs_upto T m (k - 1)) (found_in l tag (T ! k) res))"
  using assms(3) unfolding upto_Suc[OF assms(1,2)]
  by (auto simp: found_in_def newest_db_append set_db_def split: option.splits)

lemma check_tables_ok:
  assumes c: "cache_ok cache T"
  defines "m \<equiv> rc_min_tid cache - 1"
  shows "m \<le> k \<Longrightarrow> k < length T \<Longrightarrow> table_holds t k (T ! k) \<Longrightarrow> ignore_error res \<Longrightarrow>
    sr_state res = POLAR_DB_NOTFOUND \<or> sr_state res = POLAR_DB_NEW \<Longrightarrow>
    \<exists>res'. check_tables_loop cache l tag t res = Some (Inr res')
      \<and> (sr_state res' = POLAR_DB_DROPED \<or> sr_state res' = POLAR_DB_BLOCK_TRUNCATED \<longleftrightarrow>
         gone l tag (rels_upto T m k) (dbs_upto T m k) (sr_state res = POLAR_DB_NOTFOUND))
      \<and> (gone l tag (rels_upto T m k) (dbs_upto T m k) (sr_state res = POLAR_DB_NOTFOUND) \<or> res' = found_in l tag ([], dbs_upto T m k) res)"
proof (induction k arbitrary: t res rule: less_induct)
  case (less k)
  have hs: "hist_sorted T" and shape: "cache_shape cache T" using c by (simp_all add: cache_ok_def)
  note d = cache_shapeD[OF shape] and h = table_holdsD[OF less.prems(3)]
  let ?L = "T ! k" and ?nf = "sr_state res = POLAR_DB_NOTFOUND"
  let ?gone = "\<lambda>k. gone l tag (rels_upto T m k) (dbs_upto T m k)"
  show ?case
  proof (cases "rt_max_lsn t < l")
    case True
    have le: "x \<le> l" if "j \<le> k" "x \<in> lsns (T ! j)" for j x
      using older_le[OF hs less.prems(2) _ that, of l] h(8) True by force
    have "\<not> ?gone k ?nf" by (rule not_gone(1)) (rule le)
    moreover have "newest_db l tag (dbs_upto T m k) = None" by (rule not_gone(2)) (rule le)
    moreover have "check_tables_loop cache l tag t res = Some (Inr res)"
      using True by (subst check_tables_loop.simps) (simp add: polar_check_table_rel_size_def)
    ultimately show ?thesis using less.prems(5) by (auto simp: found_in_def set_db_def)
  next
    case False
    let ?res = "found_in l tag ?L res"
    note e = check_table_eq[OF less.prems(3) False less.prems(4,5)]
    show ?thesis
    proof (cases "sr_state ?res = POLAR_DB_DROPED")
      case True
      then have "?gone k ?nf" using e(3)[of tag]
        unfolding gone_def upto_Suc[OF less.prems(1,2)] newest_db_append by auto
      moreover have "check_tables_loop cache l tag t res = Some (Inr ?res)"
        using True e(1)[of cache tag] by (subst check_tables_loop.simps) simp
      ultimately show ?thesis using True by auto
    next
      case nd: False
      obtain nx res2 where r: "search_rel_loop (rc_min_tid cache) t l tag (32 * length (fst ?L)) ?res = (nx, res2)"
        "if \<exists>r\<in>set (fst ?L). cut_off l tag r then nx = END \<and> sr_state res2 = POLAR_DB_BLOCK_TRUNCATED
         else res2 = ?res \<and> (nx = END \<longrightarrow> rt_tid t \<le> rc_min_tid cache \<or> (\<exists>r\<in>set (fst ?L). rs_lsn r \<le> l))
           \<and> (nx = NEXT \<longrightarrow> rc_min_tid cache < rt_tid t)"
        using search_rel_loop_spec[OF less.prems(3) le_refl, of "rc_min_tid cache" l tag ?res, unfolded take_all[OF le_refl]]
        by blast
      have chk: "polar_check_table_rel_size cache t l tag res = Inr (nx, res2)" using e(1)[of cache tag] nd r(1) by simp
      show ?thesis
      proof (cases "\<exists>r\<in>set (fst ?L). cut_off l tag r")
        case True
        then have "?gone k ?nf" unfolding gone_def upto_Suc[OF less.prems(1,2)] by auto
        moreover have "check_tables_loop cache l tag t res = Some (Inr res2)" "sr_state res2 = POLAR_DB_BLOCK_TRUNCATED"
          using True r(2) chk by (subst check_tables_loop.simps, simp_all)
        ultimately show ?thesis by auto
      next
        case nc: False
        then have r2: "res2 = ?res" "nx = END \<Longrightarrow> rt_tid t \<le> rc_min_tid cache \<or> (\<exists>r\<in>set (fst ?L). rs_lsn r \<le> l)"
          "nx = NEXT \<Longrightarrow> rc_min_tid cache < rt_tid t" using r(2) by simp_all
        have st: "sr_state ?res = POLAR_DB_NOTFOUND \<or> sr_state ?res = POLAR_DB_NEW" using e(4)[OF nd] .
        note step = found_in_step[OF less.prems(1,2) e(5)[of tag]]
        have g: "?gone k ?nf \<longleftrightarrow> m < k \<and> ?gone (k - 1) (sr_state ?res = POLAR_DB_NOTFOUND)"
          unfolding e(5) by (rule gone_step[OF less.prems(1,2)]) (use nc nd e(3)[of tag] in auto)
        show ?thesis
        proof (cases nx)
          case END
          have old: "newest_db l tag (dbs_upto T m (k - 1)) = None \<and> \<not> ?gone (k - 1) (sr_state ?res = POLAR_DB_NOTFOUND)" if "m < k"
          proof -
            have "\<not> rt_tid t \<le> rc_min_tid cache" using h(1) that by (simp add: m_def)
            then obtain r where rr: "r \<in> set (fst ?L)" "rs_lsn r \<le> l" using r2(2)[OF END] by blast
            show ?thesis using older_not_gone[OF hs less.prems(2) rr] that by simp
          qed
          then have "\<not> ?gone k ?nf" using g by blast
          moreover have "found_in l tag ([], dbs_upto T m k) res = ?res"
            unfolding step using old less.prems(1) by (cases "m = k") (simp_all add: found_in_def set_db_def)
          moreover have "check_tables_loop cache l tag t res = Some (Inr ?res)"
            using END chk r2(1) by (subst check_tables_loop.simps) simp
          ultimately show ?thesis using st by auto
        next
          case NEXT
          then have mk: "m < k" using r2(3) h(1) d(4) by (simp add: m_def)
          then have "rc_min_tid cache \<le> Suc (k - 1)" "k - 1 < length T" using less.prems(2) by (simp_all add: m_def)
          from d(7)[OF this] obtain t' where t': "kept_at cache (k - 1) t'" "table_holds t' (k - 1) (T ! (k - 1))" by blast
          have k1: "k - 1 < k" "m \<le> k - 1" "k - 1 < length T" using mk less.prems(2) by linarith+
          have "Suc (k - 1) = rt_tid t - 1" using h(1) mk by simp
          then have "check_tables_loop cache l tag t res = check_tables_loop cache l tag t' ?res"
            using NEXT chk r2(1,3) get_table_kept[OF t'(1)] by (subst check_tables_loop.simps) simp
          moreover obtain res' where "check_tables_loop cache l tag t' ?res = Some (Inr res')"
            "sr_state res' = POLAR_DB_DROPED \<or> sr_state res' = POLAR_DB_BLOCK_TRUNCATED \<longleftrightarrow>
              ?gone (k - 1) (sr_state ?res = POLAR_DB_NOTFOUND)"
            "?gone (k - 1) (sr_state ?res = POLAR_DB_NOTFOUND) \<or> res' = found_in l tag ([], dbs_upto T m (k - 1)) ?res"
            using less.IH[OF k1 t'(2) e(2) st] by blast
          moreover have "found_in l tag ([], dbs_upto T m k) res = found_in l tag ([], dbs_upto T m (k - 1)) ?res"
            using step mk by simp
          ultimately show ?thesis using g mk by simp
        qed
      qed
    qed
  qed
qed

section \<open>Recording keeps the invariant\<close>

lemma kept_other:
  assumes "kept_at cache k t" "rc_table_size cache' = rc_table_size cache"
    and "table_data cache' (k mod rc_table_size cache) = table_data cache (k mod rc_table_size cache)"
    and "rs_files cache' (Suc k) = rs_files cache (Suc k)"
  shows "kept_at cache' k t"
  using assms by (simp add: kept_at_def)

definition put_active :: "polar_rel_size_cache_data_t \<Rightarrow> polar_rel_size_table_t \<Rightarrow> polar_rel_size_cache_data_t" where
  "put_active cache t = cache\<lparr>table_data := (table_data cache)(active_mid cache := t)\<rparr>"

lemma put_active_shape:
  assumes s: "cache_shape cache T" and t: "table_holds t (length T - 1) L"
  shows "cache_shape (put_active cache t) (butlast T @ [L])"
proof -
  note d = cache_shapeD[OF s]
  let ?n = "rc_table_size cache" and ?a = "active_mid cache"
  have len: "Suc (length T - 1) = length T" "length (butlast T @ [L]) = length T" using d(1) by auto
  have tid: "rt_tid t = length T" using table_holdsD(1)[OF t] len(1) by simp
  have "\<exists>t'. kept_at (put_active cache t) k t' \<and> table_holds t' k ((butlast T @ [L]) ! k)"
    if k: "rc_min_tid cache \<le> Suc k" "k < length T" for k
  proof (cases "k = length T - 1")
    case True
    then have "kept_at (put_active cache t) k t" using tid d(3) len(1) by (simp add: kept_at_def put_active_def)
    then show ?thesis using True t by (auto simp: nth_append)
  next
    case False
    then have lt: "k < length T - 1" using k(2) by simp
    obtain t' where t': "kept_at cache k t'" "table_holds t' k (T ! k)" using d(7)[OF k] by blast
    have nth: "(butlast T @ [L]) ! k = T ! k" using lt by (simp add: nth_append nth_butlast)
    have "kept_at (put_active cache t) k t'"
    proof (cases "k mod ?n = ?a")
      case True
      then have "rt_tid (table_data cache (k mod ?n)) \<noteq> Suc k" using d(6) lt by simp
      then show ?thesis using t'(1) True tid lt by (simp add: kept_at_def put_active_def)
    next
      case False
      then show ?thesis using t'(1) by (simp add: kept_at_def put_active_def)
    qed
    then show ?thesis using t'(2) nth by auto
  qed
  then show ?thesis
    using d(2-6,8,9) tid len by (auto simp: cache_shape_def put_active_def)
qed

lemma init_holds: "Suc k < 2 ^ 32 \<Longrightarrow> table_holds (polar_init_rel_size_table (Suc k)) k ([], [])"
  by (simp add: table_holds_def polar_init_rel_size_table_def zero_rel_table_def log_sorted_def lsns_def)

lemma next_table_shape:
  assumes s: "cache_shape cache T" and f: "\<And>tid. \<not> fails tid" and ids: "Suc (length T) < 2 ^ 32"
  defines "n \<equiv> rc_table_size cache" and "b \<equiv> LOOP_NEXT_VALUE (active_mid cache) (rc_table_size cache)"
  defines "old \<equiv> table_data cache b"
  defines "cache' \<equiv> cache\<lparr>active_mid := b, rs_files := (if rt_tid old > 0 then (rs_files cache)(rt_tid old := Some old) else rs_files cache),
      table_data := (table_data cache)(b := polar_init_rel_size_table (Suc (length T)))\<rparr>"
  shows "cache_shape cache' (T @ [([], [])])"
proof -
  note d = cache_shapeD[OF s]
  have b: "b = length T mod n" "b < n"
    using d(1-3) LOOP_NEXT_VALUE_mod[of "active_mid cache" n] by (simp_all add: b_def n_def mod_Suc_eq)
  have tid: "rt_tid (table_data cache' b) = Suc (length T)" using ids by (simp add: cache'_def polar_init_rel_size_table_def)
  have "\<exists>t. kept_at cache' k t \<and> table_holds t k ((T @ [([], [])]) ! k)" if k: "rc_min_tid cache \<le> Suc k" "k \<le> length T" for k
  proof (cases "k = length T")
    case True
    have "kept_at cache' k (polar_init_rel_size_table (Suc (length T)))"
      using True b tid by (simp add: kept_at_def cache'_def n_def)
    then show ?thesis using init_holds[of k] True ids by auto
  next
    case False
    then have lt: "k < length T" using k(2) by simp
    obtain t where t: "kept_at cache k t" "table_holds t k (T ! k)" using d(7)[OF k(1) lt] by blast
    have "kept_at cache' k t"
    proof (cases "k mod n = b")
      case True
      have ne: "rt_tid (table_data cache' (k mod n)) \<noteq> Suc k" using True tid lt by simp
      have "rs_files cache' (Suc k) = Some t"
        using t(1) True by (auto simp: kept_at_def cache'_def old_def n_def split: if_splits)
      then show ?thesis using ne by (simp add: kept_at_def cache'_def n_def)
    next
      case False
      have "rt_tid old \<noteq> Suc k" if "rt_tid old > 0"
        using d(8)[of b] that False b(2) by (auto simp: old_def n_def)
      then show ?thesis using t(1) False by (auto simp: kept_at_def cache'_def n_def)
    qed
    then show ?thesis using t(2) lt by (auto simp: nth_append)
  qed
  moreover have "rt_tid (table_data cache' i) \<noteq> 0 \<Longrightarrow>
      (rt_tid (table_data cache' i) - 1) mod n = i \<and> rt_tid (table_data cache' i) \<le> Suc (length T)" if "i < n" for i
    using d(8)[of i] that b tid by (cases "i = b") (auto simp: cache'_def n_def)
  ultimately show ?thesis using d(2,4,5) b tid ids by (auto simp: cache_shape_def cache'_def n_def less_Suc_eq_le)
qed

lemma allocate_ok:
  assumes s: "cache_shape cache T" and f: "\<And>tid. \<not> fails tid" and ids: "Suc (length T) < 2 ^ 32"
    and sz: "sz < REL_INFO_TOTAL_SIZE"
  obtains cache' T' where "polar_allocate_table_space fails cache sz = Inr cache'" "cache_shape cache' T'"
    "T' = T \<or> T' = T @ [([], [])] \<and> lsns (last T) \<noteq> {}" "polar_table_space_available (table_data cache' (active_mid cache')) sz"
proof (cases "polar_table_space_available (table_data cache (active_mid cache)) sz")
  case True
  then show thesis using that[of cache T] s by (simp add: polar_allocate_table_space_def)
next
  case False
  note n = next_table_shape[OF s f ids] and d = cache_shapeD(6)[OF s]
  have "lsns (last T) \<noteq> {}"
    using table_holdsD(2,3)[OF active_kept(2)[OF s]] False sz by (auto simp: lsns_def polar_table_space_available_def)
  then show thesis
    using that[OF _ n] False d f sz
    by (auto simp: polar_allocate_table_space_def polar_save_rel_size_table_def Let_def polar_table_space_available_def
        polar_init_rel_size_table_def)
qed

lemma update_range_simps [simp]:
  "rt_tid (polar_update_lsn_range t l) = rt_tid t" "rel_tail (polar_update_lsn_range t l) = rel_tail t"
  "db_tail (polar_update_lsn_range t l) = db_tail t" "rel_info (polar_update_lsn_range t l) = rel_info t"
  "db_info (polar_update_lsn_range t l) = db_info t" "rt_max_lsn (polar_update_lsn_range t l) = l"
  by (simp_all add: polar_update_lsn_range_def)

lemma append_rel_holds:
  assumes t: "table_holds t k L" and room: "polar_table_space_available t sizeof_relation_size"
    and r: "rs_lsn r = l" "0 < l" "\<forall>x\<in>lsns L. x \<le> l"
  shows "table_holds (polar_update_lsn_range (t\<lparr>rel_info := (rel_info t)(rel_tail t := r), rel_tail := rel_tail t + sizeof_relation_size\<rparr>) l)
    k (fst L @ [r], snd L)"
proof -
  note h = table_holdsD[OF t]
  have ls: "lsns (fst L @ [r], snd L) = insert l (lsns L)" using r(1) by (auto simp: lsns_def)
  have "log_sorted (fst L @ [r], snd L)"
    using h(7) r(1,3) by (auto simp: log_sorted_def sorted_append lsns_def)
  moreover have "0 < x \<and> x \<le> l" if "x \<in> insert l (lsns L)" for x using that r(2,3) h(8)[of x] by auto
  ultimately show ?thesis
    using h room unfolding table_holds_def ls
    by (auto simp: polar_table_space_available_def sizeof_relation_size_def nth_append less_Suc_eq)
qed

lemma append_db_holds:
  assumes t: "table_holds t k L" and room: "polar_table_space_available t sizeof_database_state"
    and e: "ds_lsn e = l" "0 < l" "\<forall>x\<in>lsns L. x \<le> l" "ds_state e = POLAR_DB_NEW \<or> ds_state e = POLAR_DB_DROPED"
  shows "table_holds (polar_update_lsn_range (t\<lparr>db_info := (db_info t)(db_tail t - sizeof_database_state := e),
      db_tail := db_tail t - sizeof_database_state\<rparr>) l) k (fst L, snd L @ [e])"
proof -
  note h = table_holdsD[OF t]
  have ls: "lsns (fst L, snd L @ [e]) = insert l (lsns L)" using e(1) by (auto simp: lsns_def)
  have "log_sorted (fst L, snd L @ [e])"
    using h(7) e by (auto simp: log_sorted_def sorted_append lsns_def)
  moreover have "0 < x \<and> x \<le> l" if "x \<in> insert l (lsns L)" for x using that e(2,3) h(8)[of x] by auto
  moreover have pos: "db_tail t - 24 = REL_INFO_TOTAL_SIZE - 24 * Suc (length (snd L))"
    "24 * Suc (length (snd L)) \<le> REL_INFO_TOTAL_SIZE" "rel_tail t \<le> db_tail t - 24" "24 \<le> db_tail t"
    using h(3) room by (auto simp: polar_table_space_available_def sizeof_database_state_def)
  moreover have "((db_info t)(db_tail t - 24 := e)) (REL_INFO_TOTAL_SIZE - 24 * Suc i) = (snd L @ [e]) ! i"
    if "i < Suc (length (snd L))" for i
    using that h(6)[of i] pos(1,2) by (cases "i = length (snd L)") (auto simp: nth_append)
  ultimately show ?thesis
    using h unfolding table_holds_def ls
    by (auto simp: sizeof_database_state_def)
qed

lemma record_finish:
  assumes ok: "cache_ok cache T" and s: "cache_shape cache0 T0" "T0 = T \<or> T0 = T @ [([], [])] \<and> lsns (last T) \<noteq> {}"
    and t: "table_holds t (length T0 - 1) L" "lsns L = insert l (lsns (last T0))" "rt_max_lsn t = l" "0 < l"
    and l: "\<And>k x. k < length T \<Longrightarrow> x \<in> lsns (T ! k) \<Longrightarrow> x \<le> l"
  shows "cache_ok (put_active cache0 t) (butlast T0 @ [L])"
proof -
  have hs: "hist_sorted T" using ok by (simp add: cache_ok_def)
  note d = cache_shapeD[OF s(1)]
  let ?T = "butlast T0 @ [L]"
  have len: "length ?T = length T0" "length T0 = Suc (length T0 - 1)" using d(1) by auto
  have nth: "?T ! k = T ! k" "k < length T" if "k < length T0 - 1" for k
    using that s(2) by (auto simp: nth_append nth_butlast)
  have lastL: "?T ! (length T0 - 1) = L" by (simp add: nth_append)
  have le: "x \<le> y" if jk: "j < k" "k < length T0" "x \<in> lsns (?T ! j)" "y \<in> lsns (?T ! k)" for j k x y
  proof (cases "k = length T0 - 1")
    case False
    then have k: "k < length T0 - 1" using jk(2) by simp
    then show ?thesis using hist_sortedD(1)[OF hs nth(2)[OF k] jk(1)] jk(3,4) nth(1)[OF k] nth(1)[of j] jk(1) by simp
  next
    case True
    then have j: "?T ! j = T ! j" "j < length T" using nth jk(1) by auto
    consider "y = l" | "y \<in> lsns (last T0)" using jk(4) True lastL t(2) by auto
    then show ?thesis
    proof cases
      case 1
      then show ?thesis using l[OF j(2)] jk(3) j(1) by simp
    next
      case 2
      then have T0: "T0 = T" using s(2) by (auto simp: lsns_def)
      then have "y \<in> lsns (T ! k)" using 2 True d(1) by (simp add: last_conv_nth)
      then show ?thesis using hist_sortedD(1)[OF hs _ jk(1)] jk(2,3) j(1) T0 by simp
    qed
  qed
  have ne: "lsns (?T ! k) \<noteq> {}" if "k < length T0" "length T0 \<noteq> 1" for k
  proof (cases "k = length T0 - 1")
    case True
    then show ?thesis using lastL t(2) by auto
  next
    case False
    then have k: "?T ! k = T ! k" "k < length T" using nth[of k] that by auto
    have "lsns (T ! k) \<noteq> {}"
    proof (cases "length T = 1")
      case True
      then have "T0 = T @ [([], [])] \<and> lsns (last T) \<noteq> {}" using s(2) that(2) by auto
      then show ?thesis using True k(2) by (cases T) auto
    next
      case False
      then show ?thesis using hist_sortedD(2)[OF hs k(2)] by blast
    qed
    then show ?thesis using k(1) by simp
  qed
  have "?T \<noteq> []" by simp
  moreover have "\<forall>j k x y. j < k \<and> k < length T0 \<and> x \<in> lsns (?T ! j) \<and> y \<in> lsns (?T ! k) \<longrightarrow> x \<le> y"
    using le by blast
  moreover have "\<forall>k<length T0. lsns (?T ! k) = {} \<longrightarrow> length T0 = 1" using ne by blast
  ultimately have "hist_sorted ?T" unfolding hist_sorted_def len(1) by (intro conjI)
  moreover have "rt_max_lsn (table_data (put_active cache0 t) (active_mid (put_active cache0 t))) \<noteq> 0"
    using t(3,4) by (simp add: put_active_def)
  ultimately show ?thesis using put_active_shape[OF s(1) t(1)] by (simp add: cache_ok_def)
qed

end
