(* ===== verification/Rel_Size_Run.thy ===== *)
theory Rel_Size_Run
  imports Rel_Size
begin

text \<open>
  The relation size cache as a whole: recording, truncation and the answer to the question whether a page
  is gone, after any sequence of operations.
\<close>

section \<open>Recording\<close>

definition rels_of :: "rel_log list \<Rightarrow> polar_relation_size_t list" where
  "rels_of T = concat (map fst T)"

definition dbs_of :: "rel_log list \<Rightarrow> polar_database_state_t list" where
  "dbs_of T = concat (map snd T)"

lemma active_last:
  assumes "T0 \<noteq> []"
  shows "rels_of (butlast T0 @ [(fst (last T0) @ R, snd (last T0) @ D)]) = rels_of T0 @ R"
    "dbs_of (butlast T0 @ [(fst (last T0) @ R, snd (last T0) @ D)]) = dbs_of T0 @ D"
  using assms by (cases T0 rule: rev_cases; simp add: rels_of_def dbs_of_def)+

lemma last_le:
  assumes "\<And>k x. k < length T \<Longrightarrow> x \<in> lsns (T ! k) \<Longrightarrow> x \<le> l" "T0 = T \<or> T0 = T @ [([], [])] \<and> P" "T0 \<noteq> []"
  shows "\<forall>x\<in>lsns (last T0). x \<le> l"
proof (cases "T0 = T")
  case True
  then show ?thesis using assms(1)[of "length T - 1"] assms(3) by (simp add: last_conv_nth)
next
  case False
  then show ?thesis using assms(2) by (auto simp: lsns_def)
qed

lemma record_rel_ok:
  assumes ok: "cache_ok cache T" and f: "\<And>tid. \<not> fails tid" and ids: "Suc (length T) < 2 ^ 32" and l: "0 < l" "\<And>k x. k < length T \<Longrightarrow> x \<in> lsns (T ! k) \<Longrightarrow> x \<le> l"
  obtains cache' T' where "polar_record_rel_size fails cache l node fork sz = Inr cache'" "cache_ok cache' T'"
    "rels_of T' = rels_of T @ [\<lparr>rs_lsn = l, rs_node = node, rs_fork = fork, rs_size = sz\<rparr>]" "dbs_of T' = dbs_of T"
    "rc_min_tid cache' = rc_min_tid cache" "\<forall>k. Suc k < rc_min_tid cache \<longrightarrow> T' ! k = T ! k" "length T' \<le> Suc (length T)"
proof -
  let ?r = "\<lparr>rs_lsn = l, rs_node = node, rs_fork = fork, rs_size = sz\<rparr>"
  have s: "cache_shape cache T" using ok by (simp add: cache_ok_def)
  have sz: "sizeof_relation_size < REL_INFO_TOTAL_SIZE" by (simp add: sizeof_relation_size_def REL_INFO_TOTAL_SIZE_def)
  obtain c0 T0 where a: "polar_allocate_table_space fails cache sizeof_relation_size = Inr c0" "cache_shape c0 T0"
    "T0 = T \<or> T0 = T @ [([], [])] \<and> lsns (last T) \<noteq> {}"
    "polar_table_space_available (table_data c0 (active_mid c0)) sizeof_relation_size"
    by (rule allocate_ok[OF s f ids sz])
  let ?t = "table_data c0 (active_mid c0)" and ?L = "last T0"
  let ?t' = "polar_update_lsn_range (?t\<lparr>rel_info := (rel_info ?t)(rel_tail ?t := ?r), rel_tail := rel_tail ?t + sizeof_relation_size\<rparr>) l"
  have T0: "T0 \<noteq> []" using cache_shapeD(1)[OF a(2)] .
  have h: "table_holds ?t' (length T0 - 1) (fst ?L @ [?r], snd ?L)"
    by (rule append_rel_holds[OF active_kept(2)[OF a(2)] a(4)]) (use l(1) last_le[OF l(2) a(3) T0] in auto)
  have ls: "lsns (fst ?L @ [?r], snd ?L) = insert l (lsns ?L)" by (auto simp: lsns_def)
  have ok': "cache_ok (put_active c0 ?t') (butlast T0 @ [(fst ?L @ [?r], snd ?L)])"
    by (rule record_finish[OF ok a(2,3) h ls]) (use l in auto)
  have run: "polar_record_rel_size fails cache l node fork sz = Inr (put_active c0 ?t')"
    using a(1) by (simp add: polar_record_rel_size_def put_active_def Let_def)
  have mt: "rc_min_tid c0 = rc_min_tid cache"
    using a(1) f by (auto simp: polar_allocate_table_space_def polar_save_rel_size_table_def Let_def split: if_splits)
  have "rels_of T0 = rels_of T" "dbs_of T0 = dbs_of T" "length T0 \<le> Suc (length T)" using a(3) by (auto simp: rels_of_def dbs_of_def)
  moreover have "(butlast T0 @ [(fst ?L @ [?r], snd ?L)]) ! k = T ! k" if "Suc k < rc_min_tid cache" for k
    using that cache_shapeD(5)[OF s] a(3) by (auto simp: nth_append nth_butlast)
  ultimately show thesis using that[OF run ok'] active_last[OF T0, of "[?r]" "[]"] mt T0 by (simp add: put_active_def)
qed

lemma record_db_ok:
  assumes ok: "cache_ok cache T" and f: "\<And>tid. \<not> fails tid" and ids: "Suc (length T) < 2 ^ 32" and l: "0 < l" "\<And>k x. k < length T \<Longrightarrow> x \<in> lsns (T ! k) \<Longrightarrow> x \<le> l"
    and st: "st = POLAR_DB_NEW \<or> st = POLAR_DB_DROPED"
  obtains cache' T' where "polar_record_db_state fails cache l spc db st = Inr cache'" "cache_ok cache' T'"
    "rels_of T' = rels_of T" "dbs_of T' = dbs_of T @ [\<lparr>ds_lsn = l, ds_spc = spc, ds_db = db, ds_state = st\<rparr>]"
    "rc_min_tid cache' = rc_min_tid cache" "\<forall>k. Suc k < rc_min_tid cache \<longrightarrow> T' ! k = T ! k" "length T' \<le> Suc (length T)"
proof -
  let ?e = "\<lparr>ds_lsn = l, ds_spc = spc, ds_db = db, ds_state = st\<rparr>"
  have s: "cache_shape cache T" using ok by (simp add: cache_ok_def)
  have sz: "sizeof_database_state < REL_INFO_TOTAL_SIZE" by (simp add: sizeof_database_state_def REL_INFO_TOTAL_SIZE_def)
  obtain c0 T0 where a: "polar_allocate_table_space fails cache sizeof_database_state = Inr c0" "cache_shape c0 T0"
    "T0 = T \<or> T0 = T @ [([], [])] \<and> lsns (last T) \<noteq> {}"
    "polar_table_space_available (table_data c0 (active_mid c0)) sizeof_database_state"
    by (rule allocate_ok[OF s f ids sz])
  let ?t = "table_data c0 (active_mid c0)" and ?L = "last T0"
  let ?t' = "polar_update_lsn_range (?t\<lparr>db_info := (db_info ?t)(db_tail ?t - sizeof_database_state := ?e),
      db_tail := db_tail ?t - sizeof_database_state\<rparr>) l"
  have T0: "T0 \<noteq> []" using cache_shapeD(1)[OF a(2)] .
  have h: "table_holds ?t' (length T0 - 1) (fst ?L, snd ?L @ [?e])"
    by (rule append_db_holds[OF active_kept(2)[OF a(2)] a(4)]) (use l(1) last_le[OF l(2) a(3) T0] st in auto)
  have ls: "lsns (fst ?L, snd ?L @ [?e]) = insert l (lsns ?L)" by (auto simp: lsns_def)
  have ok': "cache_ok (put_active c0 ?t') (butlast T0 @ [(fst ?L, snd ?L @ [?e])])"
    by (rule record_finish[OF ok a(2,3) h ls]) (use l in auto)
  have run: "polar_record_db_state fails cache l spc db st = Inr (put_active c0 ?t')"
    using a(1) by (simp add: polar_record_db_state_def put_active_def Let_def)
  have mt: "rc_min_tid c0 = rc_min_tid cache"
    using a(1) f by (auto simp: polar_allocate_table_space_def polar_save_rel_size_table_def Let_def split: if_splits)
  have "rels_of T0 = rels_of T" "dbs_of T0 = dbs_of T" "length T0 \<le> Suc (length T)" using a(3) by (auto simp: rels_of_def dbs_of_def)
  moreover have "(butlast T0 @ [(fst ?L, snd ?L @ [?e])]) ! k = T ! k" if "Suc k < rc_min_tid cache" for k
    using that cache_shapeD(5)[OF s] a(3) by (auto simp: nth_append nth_butlast)
  ultimately show thesis using that[OF run ok'] active_last[OF T0, of "[]" "[?e]"] mt T0 by (simp add: put_active_def)
qed

section \<open>Truncation\<close>

lemma drop_table_ok:
  fixes stuck :: "nat \<Rightarrow> bool"
  assumes ok: "cache_ok cache T" and k: "rc_min_tid cache = Suc k" "Suc k < length T"
  defines "cache' \<equiv> (if rt_tid (table_data cache (k mod rc_table_size cache)) = Suc k
      then cache\<lparr>table_data := (table_data cache)(k mod rc_table_size cache := zero_rel_table)\<rparr>
      else polar_unlink_rel_size_table stuck cache (Suc k))\<lparr>rc_min_tid := Suc (Suc k)\<rparr>"
  shows "cache_ok cache' T"
proof -
  have s: "cache_shape cache T" using ok by (simp add: cache_ok_def)
  note d = cache_shapeD[OF s]
  have f: "rc_table_size cache' = rc_table_size cache" "active_mid cache' = active_mid cache" "rc_min_tid cache' = Suc (Suc k)"
    by (simp_all add: cache'_def polar_unlink_rel_size_table_def)
  have act: "table_data cache' (active_mid cache) = table_data cache (active_mid cache)" using d(6) k(2) by (auto simp: cache'_def polar_unlink_rel_size_table_def)
  have slot: "table_data cache' i = table_data cache i \<or> rt_tid (table_data cache i) = Suc k \<and> rt_tid (table_data cache' i) = 0" for i
    by (auto simp: cache'_def zero_rel_table_def polar_unlink_rel_size_table_def)
  have kept: "kept_at cache' j t" if "kept_at cache j t" "Suc (Suc k) \<le> Suc j" for j t
    using that slot[of "j mod rc_table_size cache"] by (auto simp: kept_at_def f cache'_def polar_unlink_rel_size_table_def split: if_splits)
  have "\<exists>t. kept_at cache' j t \<and> table_holds t j (T ! j)" if "Suc (Suc k) \<le> Suc j" "j < length T" for j
  proof -
    have "rc_min_tid cache \<le> Suc j" using that(1) k(1) by simp
    from d(7)[OF this that(2)] show ?thesis using kept[OF _ that(1)] by blast
  qed
  moreover have "(rt_tid (table_data cache' i) - 1) mod rc_table_size cache = i \<and> rt_tid (table_data cache' i) \<le> length T"
    if "i < rc_table_size cache" "rt_tid (table_data cache' i) \<noteq> 0" for i
    using d(8)[OF that(1)] slot[of i] that(2) by auto
  ultimately have "cache_shape cache' T" using d(1-3,6,9) k(2) act unfolding cache_shape_def f by simp
  then show ?thesis using ok act unfolding cache_ok_def f by simp
qed

lemma truncate_cache_loop_ok:
  "cache_ok cache T \<Longrightarrow> rc_min_tid cache \<le> Suc k \<Longrightarrow> k < length T \<Longrightarrow>
    rc_min_tid cache = Suc k \<or> (\<exists>j<k. \<exists>x\<in>lsns (T ! j). l < x) \<Longrightarrow>
    \<exists>cache'. truncate_cache_loop stuck cache l (length T) (Suc k) = Inr cache' \<and> cache_ok cache' T
      \<and> (\<forall>j x. rc_min_tid cache \<le> Suc j \<and> Suc j < rc_min_tid cache' \<and> x \<in> lsns (T ! j) \<longrightarrow> x \<le> l)"
proof (induction "length T - k" arbitrary: cache k)
  case (Suc n)
  have s: "cache_shape cache T" and hs: "hist_sorted T" using Suc.prems(1) by (simp_all add: cache_ok_def)
  show ?case
  proof (cases "Suc k < length T")
    case False
    then have "truncate_cache_loop stuck cache l (length T) (Suc k) = Inr cache" by (subst truncate_cache_loop.simps) simp
    then show ?thesis using Suc.prems(1) by auto
  next
    case True
    obtain t where t: "kept_at cache k t" "table_holds t k (T ! k)" using cache_shapeD(7)[OF s Suc.prems(2,3)] by blast
    have ne: "lsns (T ! k) \<noteq> {}" using hist_sortedD(2)[OF hs Suc.prems(3)] True by simp
    then have mx: "rt_max_lsn t \<in> lsns (T ! k)" using table_holdsD(9)[OF t(2)] by simp
    have n: "n = length T - Suc k" using Suc.hyps(2) by simp
    note get = get_table_kept[OF t(1)]
    show ?thesis
    proof (cases "rt_max_lsn t \<le> l")
      case False
      have "truncate_cache_loop stuck cache l (length T) (Suc k) = truncate_cache_loop stuck cache l (length T) (Suc (Suc k))"
        using True False get by (subst truncate_cache_loop.simps) (simp add: Let_def)
      moreover have "\<exists>j<Suc k. \<exists>x\<in>lsns (T ! j). l < x" using mx False
        by (intro exI[of _ k] conjI bexI[of _ "rt_max_lsn t"]) auto
      ultimately show ?thesis using Suc.hyps(1)[OF n Suc.prems(1) _ True] Suc.prems(2) by auto
    next
      case le: True
      have min: "rc_min_tid cache = Suc k"
      proof (rule ccontr)
        assume "rc_min_tid cache \<noteq> Suc k"
        then obtain j x where j: "j < k" "x \<in> lsns (T ! j)" "l < x" using Suc.prems(4) by blast
        have "x \<le> rt_max_lsn t" by (rule hist_sortedD(1)[OF hs Suc.prems(3) j(1,2) mx])
        then show False using le j(3) by simp
      qed
      define c where "c = (if rt_tid (table_data cache (k mod rc_table_size cache)) = Suc k
        then cache\<lparr>table_data := (table_data cache)(k mod rc_table_size cache := zero_rel_table)\<rparr>
        else polar_unlink_rel_size_table stuck cache (Suc k))\<lparr>rc_min_tid := Suc (Suc k)\<rparr>"
      have c: "cache_ok c T" unfolding c_def by (rule drop_table_ok[OF Suc.prems(1) min True])
      have cm: "rc_min_tid c = Suc (Suc k)" by (simp add: c_def)
      have "truncate_cache_loop stuck cache l (length T) (Suc k) = truncate_cache_loop stuck c l (length T) (Suc (Suc k))"
        using True le get min cache_shapeD(9)[OF s] by (subst truncate_cache_loop.simps) (simp add: Let_def c_def)
      moreover obtain c' where c': "truncate_cache_loop stuck c l (length T) (Suc (Suc k)) = Inr c'" "cache_ok c' T"
        "\<forall>j x. Suc (Suc k) \<le> Suc j \<and> Suc j < rc_min_tid c' \<and> x \<in> lsns (T ! j) \<longrightarrow> x \<le> l"
        using Suc.hyps(1)[OF n c _ True] cm by auto
      moreover have "x \<le> l" if "Suc k \<le> Suc j" "Suc j < rc_min_tid c'" "x \<in> lsns (T ! j)" for j x
      proof (cases "j = k")
        case True
        then show ?thesis using table_holdsD(8)[OF t(2), of x] that(3) le by auto
      next
        case False
        then have "Suc (Suc k) \<le> Suc j" using that(1) by simp
        then show ?thesis using c'(3) that(2,3) by blast
      qed
      ultimately show ?thesis using min by auto
    qed
  qed
qed simp

lemma truncate_cache_ok:
  assumes "cache_ok cache T"
  obtains cache' where "polar_truncate_rel_size_cache stuck cache l = Inr cache'" "cache_ok cache' T"
    "\<forall>j x. rc_min_tid cache \<le> Suc j \<and> Suc j < rc_min_tid cache' \<and> x \<in> lsns (T ! j) \<longrightarrow> x \<le> l"
proof -
  have s: "cache_shape cache T" using assms by (simp add: cache_ok_def)
  note d = cache_shapeD(4-6)[OF s]
  have m: "Suc (rc_min_tid cache - 1) = rc_min_tid cache" using d(1) by simp
  have "rc_min_tid cache - 1 < length T" using d(1,2) by linarith
  from truncate_cache_loop_ok[OF assms _ this, of l stuck, unfolded m] d
  obtain cache' where "truncate_cache_loop stuck cache l (length T) (rc_min_tid cache) = Inr cache'" "cache_ok cache' T"
    "\<forall>j x. rc_min_tid cache \<le> Suc j \<and> Suc j < rc_min_tid cache' \<and> x \<in> lsns (T ! j) \<longrightarrow> x \<le> l" by auto
  then show thesis using that d(3) by (simp add: polar_truncate_rel_size_cache_def)
qed

section \<open>The answer\<close>

lemma gone_newer:
  assumes "\<And>r. r \<in> set A \<Longrightarrow> rs_lsn r \<le> l" "\<And>d. d \<in> set B \<Longrightarrow> ds_lsn d \<le> l"
  shows "newest_db l tag (B @ D) = newest_db l tag D" "gone l tag (A @ R) (B @ D) nf = gone l tag R D nf"
proof -
  have "newest_db l tag B = None" using assms(2) by (fastforce simp: newest_db_def find_None_iff db_change_def)
  then show n: "newest_db l tag (B @ D) = newest_db l tag D" by (simp add: newest_db_append split: option.split)
  have "(\<exists>r\<in>set (A @ R). cut_off l tag r) = (\<exists>r\<in>set R. cut_off l tag r)" using assms(1) by (fastforce simp: cut_off_def)
  then show "gone l tag (A @ R) (B @ D) nf = gone l tag R D nf" unfolding gone_def n by simp
qed

text \<open>Dropped tables do not change the answer for an LSN that is not below their entries.\<close>

lemma dropped_tables:
  assumes old: "\<And>j x. j < m \<Longrightarrow> x \<in> lsns (T ! j) \<Longrightarrow> x \<le> l" and T: "T \<noteq> []"
  shows "newest_db l tag (dbs_of T) = newest_db l tag (dbs_upto T m (length T - 1))"
    "gone l tag (rels_of T) (dbs_of T) nf = gone l tag (rels_upto T m (length T - 1)) (dbs_upto T m (length T - 1)) nf"
proof -
  let ?k = "length T - 1"
  have tk: "x \<le> l" if L: "L \<in> set (take m T)" "x \<in> lsns L" for L x
  proof -
    obtain j where "j < m" "L = T ! j" using L(1) by (auto simp: in_set_conv_nth)
    then show ?thesis using old[of j x] L(2) by simp
  qed
  have A: "rs_lsn r \<le> l" if r: "r \<in> set (rels_of (take m T))" for r
  proof -
    obtain L where "L \<in> set (take m T)" "r \<in> set (fst L)" using r by (auto simp: rels_of_def)
    then show ?thesis using tk[of L "rs_lsn r"] by (simp add: lsns_def)
  qed
  have B: "ds_lsn e \<le> l" if e: "e \<in> set (dbs_of (take m T))" for e
  proof -
    obtain L where "L \<in> set (take m T)" "e \<in> set (snd L)" using e by (auto simp: dbs_of_def)
    then show ?thesis using tk[of L "ds_lsn e"] by (simp add: lsns_def)
  qed
  have "T = take m T @ drop m (take (Suc ?k) T)" using T by simp
  then have "rels_of T = rels_of (take m T @ drop m (take (Suc ?k) T))" "dbs_of T = dbs_of (take m T @ drop m (take (Suc ?k) T))"
    by simp_all
  then have *: "rels_of T = rels_of (take m T) @ rels_upto T m ?k" "dbs_of T = dbs_of (take m T) @ dbs_upto T m ?k"
    unfolding rels_upto_def dbs_upto_def by (simp_all only: rels_of_def dbs_of_def map_append concat_append)
  show "newest_db l tag (dbs_of T) = newest_db l tag (dbs_upto T m ?k)"
    unfolding *(2) by (rule gone_newer(1)[OF A B])
  show "gone l tag (rels_of T) (dbs_of T) nf = gone l tag (rels_upto T m ?k) (dbs_upto T m ?k) nf"
    unfolding * by (rule gone_newer(2)[OF A B])
qed

text \<open>The LSN from which a page that exists is replayed.\<close>

definition start_lsn :: "XLogRecPtr \<Rightarrow> polar_database_state_t option \<Rightarrow> XLogRecPtr" where
  "start_lsn l found = (case found of None \<Rightarrow> l | Some d \<Rightarrow> ds_lsn d)"

lemma check_ok:
  assumes ok: "cache_ok cache T" and old: "\<And>j x. Suc j < rc_min_tid cache \<Longrightarrow> x \<in> lsns (T ! j) \<Longrightarrow> x \<le> l"
    and st: "\<And>d. d \<in> set (dbs_of T) \<Longrightarrow> ds_state d = POLAR_DB_NEW \<or> ds_state d = POLAR_DB_DROPED"
  shows "\<exists>x. polar_check_rel_block_valid_and_lsn cache l tag = Some (Inr (\<not> gone l tag (rels_of T) (dbs_of T) True, x))
    \<and> (gone l tag (rels_of T) (dbs_of T) True \<or> x = start_lsn l (newest_db l tag (dbs_of T)))"
proof -
  have s: "cache_shape cache T" using ok by (simp add: cache_ok_def)
  note d = cache_shapeD[OF s]
  let ?m = "rc_min_tid cache - 1" and ?k = "length T - 1" and ?t = "table_data cache (active_mid cache)"
  let ?res = "\<lparr>sr_state = POLAR_DB_NOTFOUND, sr_lsn = InvalidXLogRecPtr, sr_size = 0, ignore_error = True\<rparr>"
  have old': "x \<le> l" if "j < ?m" "x \<in> lsns (T ! j)" for j x using old[of j x] that by simp
  have st': "ds_state d = POLAR_DB_NEW \<or> ds_state d = POLAR_DB_DROPED" if "newest_db l tag (dbs_of T) = Some d" for d
    by (rule st, rule newest_db_in[OF that])
  have g: "newest_db l tag (dbs_of T) = newest_db l tag (dbs_upto T ?m ?k)"
    "gone l tag (rels_of T) (dbs_of T) True = gone l tag (rels_upto T ?m ?k) (dbs_upto T ?m ?k) True"
    by (rule dropped_tables[OF old' d(1)]; assumption)+
  have h: "table_holds ?t ?k (T ! ?k)" using active_kept(2)[OF s] d(1) by (simp add: last_conv_nth)
  show ?thesis
  proof (cases "rt_max_lsn ?t = 0")
    case True
    then have "lsns (T ! ?k) = {}" "length T = 1" using table_holdsD(8,9)[OF h] ok by (auto simp: cache_ok_def split: if_splits)
    then have e: "x \<le> l" if "j \<le> ?k" "x \<in> lsns (T ! j)" for j x using that by simp
    have "\<not> gone l tag (rels_of T) (dbs_of T) True" unfolding g by (rule not_gone(1)) (rule e)
    moreover have "newest_db l tag (dbs_of T) = None" unfolding g by (rule not_gone(2)) (rule e)
    ultimately show ?thesis using True
      by (simp add: polar_check_rel_block_valid_and_lsn_def polar_check_rel_block_valid_internal_def start_lsn_def)
  next
    case False
    obtain res' where r: "check_tables_loop cache l tag ?t ?res = Some (Inr res')"
      "sr_state res' = POLAR_DB_DROPED \<or> sr_state res' = POLAR_DB_BLOCK_TRUNCATED \<longleftrightarrow> gone l tag (rels_of T) (dbs_of T) True"
      "gone l tag (rels_of T) (dbs_of T) True \<or> res' = found_in l tag ([], dbs_upto T ?m ?k) ?res"
      unfolding g using check_tables_ok[OF ok, of ?k ?t ?res l tag] h d(1) diff_le_mono[OF d(5), of 1] by auto
    have f: "found_in l tag ([], dbs_upto T ?m ?k) ?res = set_db (newest_db l tag (dbs_of T)) ?res"
      unfolding g(1) by (simp add: found_in_def)
    have x: "polar_check_rel_block_valid_and_lsn cache l tag = Some (Inr (case sr_state res' of
          POLAR_DB_NOTFOUND \<Rightarrow> (True, l) | POLAR_DB_NEW \<Rightarrow> (True, sr_lsn res')
        | POLAR_DB_DROPED \<Rightarrow> (False, sr_lsn res') | POLAR_DB_BLOCK_TRUNCATED \<Rightarrow> (False, sr_lsn res')))"
      using False r(1) by (simp add: polar_check_rel_block_valid_and_lsn_def polar_check_rel_block_valid_internal_def Let_def)
    show ?thesis
    proof (cases "gone l tag (rels_of T) (dbs_of T) True")
      case True
      then show ?thesis using x r(2) by (cases "sr_state res'") auto
    next
      case False
      then have "res' = set_db (newest_db l tag (dbs_of T)) ?res" using r(3) f by simp
      then show ?thesis using False x r(2) st'
        by (cases "newest_db l tag (dbs_of T)") (auto simp: set_db_def start_lsn_def)
    qed
  qed
qed

section \<open>Runs\<close>

datatype rs_op = Rs_rel XLogRecPtr RelFileNode int uint32 | Rs_db XLogRecPtr uint32 uint32 polar_db_state_t | Rs_truncate XLogRecPtr

fun run_rs_op :: "(nat \<Rightarrow> bool) \<Rightarrow> (nat \<Rightarrow> bool) \<Rightarrow> rs_op \<Rightarrow> polar_rel_size_cache_data_t \<Rightarrow> polar_rel_size_cache_data_t result" where
  "run_rs_op fails stuck (Rs_rel l node fork sz) cache = polar_record_rel_size_with_lock fails cache l node fork sz"
| "run_rs_op fails stuck (Rs_db l spc db st) cache = polar_record_db_state_with_lock fails cache l spc db st"
| "run_rs_op fails stuck (Rs_truncate l) cache = polar_truncate_rel_size_cache stuck cache l"

fun run_rs :: "(nat \<Rightarrow> bool) \<Rightarrow> (nat \<Rightarrow> bool) \<Rightarrow> rs_op list \<Rightarrow> polar_rel_size_cache_data_t \<Rightarrow> polar_rel_size_cache_data_t result" where
  "run_rs fails stuck [] cache = Inr cache"
| "run_rs fails stuck (x # xs) cache = rbind (run_rs_op fails stuck x cache) (run_rs fails stuck xs)"

fun rels_in :: "rs_op list \<Rightarrow> polar_relation_size_t list" where
  "rels_in [] = []"
| "rels_in (Rs_rel l node fork sz # xs) = \<lparr>rs_lsn = l, rs_node = node, rs_fork = fork, rs_size = sz\<rparr> # rels_in xs"
| "rels_in (_ # xs) = rels_in xs"

fun dbs_in :: "rs_op list \<Rightarrow> polar_database_state_t list" where
  "dbs_in [] = []"
| "dbs_in (Rs_db l spc db st # xs) = \<lparr>ds_lsn = l, ds_spc = spc, ds_db = db, ds_state = st\<rparr> # dbs_in xs"
| "dbs_in (_ # xs) = dbs_in xs"

text \<open>Records come in the order of their LSNs, from \<open>a\<close> on, with states a record can have, and no truncation goes
  beyond \<open>b\<close>.\<close>

fun ops_ok :: "XLogRecPtr \<Rightarrow> XLogRecPtr \<Rightarrow> rs_op list \<Rightarrow> bool" where
  "ops_ok a b [] \<longleftrightarrow> True"
| "ops_ok a b (Rs_rel l node fork sz # xs) \<longleftrightarrow> 0 < l \<and> a \<le> l \<and> ops_ok l b xs"
| "ops_ok a b (Rs_db l spc db st # xs) \<longleftrightarrow> 0 < l \<and> a \<le> l \<and> (st = POLAR_DB_NEW \<or> st = POLAR_DB_DROPED) \<and> ops_ok l b xs"
| "ops_ok a b (Rs_truncate l # xs) \<longleftrightarrow> l \<le> b \<and> ops_ok a b xs"

text \<open>The invariant of a run: all entries are at most \<open>a\<close>, and those of dropped tables at most \<open>b\<close>.\<close>

definition run_rs_inv :: "XLogRecPtr \<Rightarrow> XLogRecPtr \<Rightarrow> polar_rel_size_cache_data_t \<Rightarrow> rel_log list \<Rightarrow> bool" where
  "run_rs_inv a b cache T \<longleftrightarrow> cache_ok cache T \<and> (\<forall>r\<in>set (rels_of T). rs_lsn r \<le> a) \<and> (\<forall>d\<in>set (dbs_of T). ds_lsn d \<le> a)
     \<and> (\<forall>j x. Suc j < rc_min_tid cache \<longrightarrow> x \<in> lsns (T ! j) \<longrightarrow> x \<le> b)"

lemma run_rs_lsns:
  assumes "run_rs_inv a b cache T" "k < length T" "x \<in> lsns (T ! k)"
  shows "x \<le> a"
proof -
  have "T ! k \<in> set T" using assms(2) by simp
  then show ?thesis using assms(1,3) by (fastforce simp: run_rs_inv_def rels_of_def dbs_of_def lsns_def)
qed

lemma run_rs_ok:
  assumes f: "\<And>tid. \<not> fails tid"
  shows "run_rs_inv a b cache T \<Longrightarrow> ops_ok a b ops \<Longrightarrow> length T + length ops < 2 ^ 32 \<Longrightarrow> \<exists>cache' T' a'. run_rs fails stuck ops cache = Inr cache' \<and> run_rs_inv a' b cache' T'
    \<and> rels_of T' = rels_of T @ rels_in ops \<and> dbs_of T' = dbs_of T @ dbs_in ops"
proof (induction ops arbitrary: a cache T)
  case (Cons x xs)
  note inv = Cons.prems(1)[unfolded run_rs_inv_def]
  have ok: "cache_ok cache T" using inv by blast
  have ids: "Suc (length T) < 2 ^ 32" "length T + length xs < 2 ^ 32" using Cons.prems(3) by simp_all
  have le: "x \<le> l" if "a \<le> l" "k < length T" "x \<in> lsns (T ! k)" for k x l
    using run_rs_lsns[OF Cons.prems(1) that(2,3)] that(1) by (rule order_trans)
  have up: "(\<forall>r\<in>set (rels_of T). rs_lsn r \<le> l) \<and> (\<forall>d\<in>set (dbs_of T). ds_lsn d \<le> l)" if "a \<le> l" for l
    using inv that by (meson order_trans)
  show ?case
  proof (cases x)
    case (Rs_rel l node fork sz)
    have l: "0 < l" "a \<le> l" "ops_ok l b xs" using Cons.prems(2) Rs_rel by simp_all
    obtain c T1 where c: "polar_record_rel_size fails cache l node fork sz = Inr c" "cache_ok c T1"
      "rels_of T1 = rels_of T @ [\<lparr>rs_lsn = l, rs_node = node, rs_fork = fork, rs_size = sz\<rparr>]" "dbs_of T1 = dbs_of T"
      "rc_min_tid c = rc_min_tid cache" "\<forall>k. Suc k < rc_min_tid cache \<longrightarrow> T1 ! k = T ! k" "length T1 \<le> Suc (length T)"
      by (rule record_rel_ok[OF ok f ids(1) l(1) le[OF l(2)]])
    have "run_rs_inv l b c T1" unfolding run_rs_inv_def c(3-5) using inv c(2,6) up[OF l(2)] by simp
    from Cons.IH[OF this l(3)] show ?thesis using c(1,3,4,7) Cons.prems(3) Rs_rel by (auto simp: polar_record_rel_size_with_lock_def)
  next
    case (Rs_db l spc db st)
    have l: "0 < l" "a \<le> l" "st = POLAR_DB_NEW \<or> st = POLAR_DB_DROPED" "ops_ok l b xs" using Cons.prems(2) Rs_db by simp_all
    obtain c T1 where c: "polar_record_db_state fails cache l spc db st = Inr c" "cache_ok c T1"
      "rels_of T1 = rels_of T" "dbs_of T1 = dbs_of T @ [\<lparr>ds_lsn = l, ds_spc = spc, ds_db = db, ds_state = st\<rparr>]"
      "rc_min_tid c = rc_min_tid cache" "\<forall>k. Suc k < rc_min_tid cache \<longrightarrow> T1 ! k = T ! k" "length T1 \<le> Suc (length T)"
      by (rule record_db_ok[OF ok f ids(1) l(1) le[OF l(2)] l(3)])
    have "run_rs_inv l b c T1" unfolding run_rs_inv_def c(3-5) using inv c(2,6) up[OF l(2)] by simp
    from Cons.IH[OF this l(4)] show ?thesis using c(1,3,4,7) Cons.prems(3) Rs_db by (auto simp: polar_record_db_state_with_lock_def)
  next
    case (Rs_truncate l)
    have l: "l \<le> b" "ops_ok a b xs" using Cons.prems(2) Rs_truncate by simp_all
    obtain c where c: "polar_truncate_rel_size_cache stuck cache l = Inr c" "cache_ok c T"
      "\<forall>j x. rc_min_tid cache \<le> Suc j \<and> Suc j < rc_min_tid c \<and> x \<in> lsns (T ! j) \<longrightarrow> x \<le> l"
      by (rule truncate_cache_ok[OF ok])
    have "x \<le> b" if "Suc j < rc_min_tid c" "x \<in> lsns (T ! j)" for j x
    proof (cases "Suc j < rc_min_tid cache")
      case False
      then have "x \<le> l" using c(3)[rule_format, of j x] that by simp
      then show ?thesis using l(1) by (rule order_trans)
    qed (use inv that(2) in blast)
    then have "run_rs_inv a b c T" using inv c(2) by (simp add: run_rs_inv_def)
    from Cons.IH[OF this l(2) ids(2)] show ?thesis using c(1) Rs_truncate by auto
  qed
qed auto

lemma dbs_in_states:
  "ops_ok a b ops \<Longrightarrow> d \<in> set (dbs_in ops) \<Longrightarrow> ds_state d = POLAR_DB_NEW \<or> ds_state d = POLAR_DB_DROPED"
  by (induction a b ops rule: ops_ok.induct) auto

lemma shmem_init_inv:
  assumes "polar_rel_size_shmem_init blocks = Some cache"
  shows "run_rs_inv 0 b cache [([], [])]"
proof -
  have "table_holds (polar_init_rel_size_table 1) 0 ([], [])" using init_holds[of 0] by simp
  then show ?thesis
    using assms by (auto simp: polar_rel_size_shmem_init_def run_rs_inv_def cache_ok_def cache_shape_def hist_sorted_def kept_at_def
      rels_of_def dbs_of_def lsns_def zero_rel_table_def polar_init_rel_size_table_def split: if_splits)
qed

text \<open>
  C22. After any sequence of records in the order of their LSNs and of truncations up to at most \<open>l\<close>, the cache
  tells of a page that is to be replayed from \<open>l\<close> on exactly what all records together say, over tables in memory
  and in files: the page is gone if a truncation after \<open>l\<close> cut it off or the last change of its database after
  \<open>l\<close> was a drop. If it exists, replay starts at \<open>l\<close>, or at the creation of the database if that came later.
  The operations do not fail, whether or not files of dropped tables can be removed.
\<close>

theorem rel_size_exact:
  assumes "polar_rel_size_shmem_init blocks = Some cache" "\<And>tid. \<not> fails tid" "ops_ok 0 l ops" "Suc (length ops) < 2 ^ 32"
  shows "\<exists>cache' v x. run_rs fails stuck ops cache = Inr cache'
    \<and> polar_check_rel_block_valid_and_lsn cache' l tag = Some (Inr (v, x))
    \<and> v = (\<not> ((\<exists>r\<in>set (rels_in ops). cut_off l tag r)
               \<or> map_option ds_state (newest_db l tag (dbs_in ops)) = Some POLAR_DB_DROPED))
    \<and> (\<not> v \<or> x = start_lsn l (newest_db l tag (dbs_in ops)))"
proof -
  have "length [([], []) :: rel_log] + length ops < 2 ^ 32" using assms(4) by simp
  from run_rs_ok[where fails = fails and stuck = stuck, OF assms(2) shmem_init_inv[OF assms(1)] assms(3) this]
  obtain c and T :: "rel_log list" and a where c: "run_rs fails stuck ops cache = Inr c" "run_rs_inv a l c T" "rels_of T = rels_in ops" "dbs_of T = dbs_in ops"
    by (auto simp: rels_of_def dbs_of_def)
  have "cache_ok c T" using c(2) by (simp add: run_rs_inv_def)
  moreover have "x \<le> l" if "Suc j < rc_min_tid c" "x \<in> lsns (T ! j)" for j x using c(2) that unfolding run_rs_inv_def by blast
  ultimately show ?thesis
    using check_ok[of c T l tag] dbs_in_states[OF assms(3)] c(1,3,4) unfolding gone_def by auto
qed

definition rs_node_ex :: RelFileNode where
  "rs_node_ex = \<lparr>spcNode = 1, dbNode = 2, relNode = 3\<rparr>"

definition rs_ops_ex :: "rs_op list" where
  "rs_ops_ex = [Rs_db 5 1 2 POLAR_DB_NEW, Rs_rel 10 rs_node_ex 0 8, Rs_truncate 3, Rs_rel 20 rs_node_ex 0 6]"

theorem rel_size_exact_witness:
  "ops_ok 0 3 rs_ops_ex \<and> (\<exists>cache' x. run_rs (\<lambda>_. False) (\<lambda>_. True) rs_ops_ex (the (polar_rel_size_shmem_init 2)) = Inr cache'
    \<and> polar_check_rel_block_valid_and_lsn cache' 3 \<lparr>rnode = rs_node_ex, forkNum = 0, blockNum = 7\<rparr> = Some (Inr (False, x))
    \<and> polar_check_rel_block_valid_and_lsn cache' 3 \<lparr>rnode = rs_node_ex, forkNum = 0, blockNum = 5\<rparr> = Some (Inr (True, 5)))"
proof -
  have i: "polar_rel_size_shmem_init 2 = Some (the (polar_rel_size_shmem_init 2))" by (simp add: polar_rel_size_shmem_init_def)
  have ok: "ops_ok 0 3 rs_ops_ex" by (simp add: rs_ops_ex_def)
  have n: "Suc (length rs_ops_ex) < 2 ^ 32" by (simp add: rs_ops_ex_def)
  note ex = rel_size_exact[where fails = "\<lambda>_. False" and stuck = "\<lambda>_. True", OF i _ ok n, simplified]
  show ?thesis
    using ok ex[of "\<lparr>rnode = rs_node_ex, forkNum = 0, blockNum = 7\<rparr>"] ex[of "\<lparr>rnode = rs_node_ex, forkNum = 0, blockNum = 5\<rparr>"]
    by (auto simp: rs_ops_ex_def rs_node_ex_def cut_off_def newest_db_def db_change_def start_lsn_def)
qed

end
