(* ===== verification/Log_Table.thy ===== *)
theory Log_Table
  imports Polar_Prelude
begin

text \<open>
  One logindex table (\<open>log_idx_table_data_t\<close> and \<open>log_mem_table_t\<close> of
  \<open>polar_logindex_internal.h\<close>, with the operations of \<open>polar_logindex.c\<close> and
  \<open>polar_logindex_iterator.c\<close> that read and write a single table): an array of segments, chained
  per page, a hash of pages, and an array that records the order in which LSNs were inserted.

  A pointer into the segment array is the index of its slot, \<open>None\<close> is NULL. A slot is a union;
  the model remembers which member was written last. Dereferencing NULL and reading a member
  other than the one written last are errors of the model, so a theorem that an operation returns
  also says that the operation does neither. The field \<open>head_seg\<close> is the first of both members and
  may be read through either.
\<close>

section \<open>Data\<close>

definition LOG_INDEX_MEM_TBL_SEG_NUM :: nat where "LOG_INDEX_MEM_TBL_SEG_NUM = 4096"
definition LOG_INDEX_MEM_TBL_HASH_NUM :: nat where
  "LOG_INDEX_MEM_TBL_HASH_NUM = LOG_INDEX_MEM_TBL_SEG_NUM div 2"
definition LOG_INDEX_ITEM_HEAD_LSN_NUM :: nat where "LOG_INDEX_ITEM_HEAD_LSN_NUM = 2"
definition LOG_INDEX_ITEM_SEG_LSN_NUM :: nat where "LOG_INDEX_ITEM_SEG_LSN_NUM = 10"
definition LOG_INDEX_MAX_ORDER_NUM :: nat where
  "LOG_INDEX_MAX_ORDER_NUM = LOG_INDEX_MEM_TBL_SEG_NUM * LOG_INDEX_ITEM_SEG_LSN_NUM"

lemmas table_sizes = LOG_INDEX_MEM_TBL_SEG_NUM_def LOG_INDEX_MEM_TBL_HASH_NUM_def
  LOG_INDEX_ITEM_HEAD_LSN_NUM_def LOG_INDEX_ITEM_SEG_LSN_NUM_def LOG_INDEX_MAX_ORDER_NUM_def

abbreviation (input) LOG_INDEX_TABLE_INVALID_ID :: nat where "LOG_INDEX_TABLE_INVALID_ID \<equiv> 0"
abbreviation (input) LOG_INDEX_TBL_INVALID_SEG :: nat where "LOG_INDEX_TBL_INVALID_SEG \<equiv> 0"

type_synonym log_seg_id_t = nat

record log_item_head_t =
  h_head_seg :: log_seg_id_t
  h_next_item :: log_seg_id_t
  h_next_seg :: log_seg_id_t
  h_tail_seg :: log_seg_id_t
  h_tag :: BufferTag
  h_number :: nat
  h_prev_page_lsn :: XLogRecPtr
  h_suffix_lsn :: "nat \<Rightarrow> uint32"

record log_item_seg_t =
  s_head_seg :: log_seg_id_t
  s_next_seg :: log_seg_id_t
  s_prev_seg :: log_seg_id_t
  s_number :: nat
  s_suffix_lsn :: "nat \<Rightarrow> uint32"

datatype log_tbl_seg_t = Seg_zero | Item_head log_item_head_t | Item_seg log_item_seg_t

record log_idx_table_data_t =
  idx_table_id :: nat
  tbl_min_lsn :: XLogRecPtr
  tbl_max_lsn :: XLogRecPtr
  prefix_lsn :: uint32
  tbl_crc :: uint32
  last_order :: nat
  idx_order :: "nat \<Rightarrow> uint16"
  tbl_hash :: "nat \<Rightarrow> log_seg_id_t"
  segment :: "nat \<Rightarrow> log_tbl_seg_t"

datatype mem_tbl_state = STATE_FREE | STATE_ACTIVE | STATE_INACTIVE | STATE_FLUSHED

record log_mem_table_t =
  free_head :: log_seg_id_t
  tbl_state :: mem_tbl_state
  tbl_data :: log_idx_table_data_t

text \<open>The request to insert: a page, the previous LSN of the page, the LSN.\<close>

record log_index_lsn_t =
  li_tag :: BufferTag
  li_lsn :: XLogRecPtr
  li_prev_lsn :: XLogRecPtr

definition zero_tag :: BufferTag where
  "zero_tag = \<lparr>rnode = \<lparr>spcNode = 0, dbNode = 0, relNode = 0\<rparr>, forkNum = 0, blockNum = 0\<rparr>"

definition zero_head :: log_item_head_t where
  "zero_head = \<lparr>h_head_seg = 0, h_next_item = 0, h_next_seg = 0, h_tail_seg = 0, h_tag = zero_tag,
     h_number = 0, h_prev_page_lsn = 0, h_suffix_lsn = (\<lambda>_. 0)\<rparr>"

definition zero_seg :: log_item_seg_t where
  "zero_seg = \<lparr>s_head_seg = 0, s_next_seg = 0, s_prev_seg = 0, s_number = 0,
     s_suffix_lsn = (\<lambda>_. 0)\<rparr>"

definition zero_table :: log_idx_table_data_t where
  "zero_table = \<lparr>idx_table_id = 0, tbl_min_lsn = 0, tbl_max_lsn = 0, prefix_lsn = 0, tbl_crc = 0,
     last_order = 0, idx_order = (\<lambda>_. 0), tbl_hash = (\<lambda>_. 0), segment = (\<lambda>_. Seg_zero)\<rparr>"

definition zero_mem_table :: log_mem_table_t where
  "zero_mem_table = \<lparr>free_head = 0, tbl_state = STATE_FREE, tbl_data = zero_table\<rparr>"

section \<open>Access to the segments\<close>

text \<open>Reading the memory behind a pointer.\<close>

fun head_at :: "log_idx_table_data_t \<Rightarrow> nat \<Rightarrow> log_item_head_t result" where
  "head_at t p = (case segment t p of
     Seg_zero \<Rightarrow> Inr zero_head | Item_head h \<Rightarrow> Inr h | Item_seg s \<Rightarrow> Inl PANIC)"

fun seg_at :: "log_idx_table_data_t \<Rightarrow> nat \<Rightarrow> log_item_seg_t result" where
  "seg_at t p = (case segment t p of
     Seg_zero \<Rightarrow> Inr zero_seg | Item_head h \<Rightarrow> Inl PANIC | Item_seg s \<Rightarrow> Inr s)"

fun head_seg_of :: "log_tbl_seg_t \<Rightarrow> log_seg_id_t" where
  "head_seg_of Seg_zero = 0"
| "head_seg_of (Item_head h) = h_head_seg h"
| "head_seg_of (Item_seg s) = s_head_seg s"

fun deref :: "nat option \<Rightarrow> nat result" where
  "deref None = Inl PANIC"
| "deref (Some p) = Inr p"

definition LOG_INDEX_ITEM_HEAD :: "log_seg_id_t \<Rightarrow> nat option" where
  "LOG_INDEX_ITEM_HEAD seg = (if seg = LOG_INDEX_TBL_INVALID_SEG then None else Some (seg - 1))"

definition log_index_item_head :: "log_seg_id_t \<Rightarrow> nat option result" where
  "log_index_item_head head =
    (if head > LOG_INDEX_MEM_TBL_SEG_NUM then Inl PANIC else Inr (LOG_INDEX_ITEM_HEAD head))"

definition log_index_item_seg :: "log_seg_id_t \<Rightarrow> nat option result" where
  "log_index_item_seg seg =
    (if seg > LOG_INDEX_MEM_TBL_SEG_NUM then Inl PANIC else Inr (LOG_INDEX_ITEM_HEAD seg))"

text \<open>The pointer and what is behind it, for the places that use the item at once.\<close>

definition get_head :: "log_idx_table_data_t \<Rightarrow> log_seg_id_t \<Rightarrow> log_item_head_t result" where
  "get_head t head = rbind (log_index_item_head head) (\<lambda>p. rbind (deref p) (head_at t))"

definition get_seg :: "log_idx_table_data_t \<Rightarrow> log_seg_id_t \<Rightarrow> log_item_seg_t result" where
  "get_seg t seg = rbind (log_index_item_seg seg) (\<lambda>p. rbind (deref p) (seg_at t))"

definition get_head_seg :: "log_idx_table_data_t \<Rightarrow> log_seg_id_t \<Rightarrow> log_seg_id_t result" where
  "get_head_seg t seg = rbind (log_index_item_seg seg)
     (\<lambda>p. rbind (deref p) (\<lambda>p. Inr (head_seg_of (segment t p))))"

definition put_head :: "log_idx_table_data_t \<Rightarrow> log_seg_id_t \<Rightarrow> log_item_head_t \<Rightarrow> log_idx_table_data_t" where
  "put_head t head item = t\<lparr>segment := (segment t)(head - 1 := Item_head item)\<rparr>"

definition put_seg :: "log_idx_table_data_t \<Rightarrow> log_seg_id_t \<Rightarrow> log_item_seg_t \<Rightarrow> log_idx_table_data_t" where
  "put_seg t seg item = t\<lparr>segment := (segment t)(seg - 1 := Item_seg item)\<rparr>"

section \<open>LSNs as a common prefix and suffixes\<close>

definition LOG_INDEX_COMBINE_LSN :: "log_idx_table_data_t \<Rightarrow> uint32 \<Rightarrow> XLogRecPtr" where
  "LOG_INDEX_COMBINE_LSN t suffix = (push_bit 32 (ucast (prefix_lsn t))) OR ucast suffix"

definition LOG_INDEX_SAME_TABLE_LSN_PREFIX :: "log_idx_table_data_t \<Rightarrow> XLogRecPtr \<Rightarrow> bool" where
  "LOG_INDEX_SAME_TABLE_LSN_PREFIX t l \<longleftrightarrow> ucast (prefix_lsn t) = drop_bit 32 l"

text \<open>\<open>LOG_INDEX_INSERT_LSN_INFO\<close> on the array of suffixes of a head or a segment.\<close>

definition LOG_INDEX_INSERT_LSN_INFO ::
    "(nat \<Rightarrow> uint32) \<Rightarrow> nat \<Rightarrow> log_index_lsn_t \<Rightarrow> (nat \<Rightarrow> uint32) result" where
  "LOG_INDEX_INSERT_LSN_INFO suffix idx info =
    (let suffix = suffix(idx := ucast (drop_bit 32 (push_bit 32 (li_lsn info))))
     in if idx > 0 then
          rbind (POLAR_ASSERT_PANIC (suffix idx > suffix (idx - 1))) (\<lambda>_. Inr suffix)
        else Inr suffix)"

section \<open>The order of insertion\<close>

definition LOG_INDEX_ORDER_SEG_MASK :: uint16 where "LOG_INDEX_ORDER_SEG_MASK = 0x0FFF"
definition LOG_INDEX_ORDER_IDX_MASK :: uint16 where "LOG_INDEX_ORDER_IDX_MASK = 0xF000"
definition LOG_INDEX_ORDER_IDX_SHIFT :: nat where "LOG_INDEX_ORDER_IDX_SHIFT = 12"

lemmas order_masks = LOG_INDEX_ORDER_SEG_MASK_def LOG_INDEX_ORDER_IDX_MASK_def
  LOG_INDEX_ORDER_IDX_SHIFT_def

definition LOG_INDEX_SEG_ORDER :: "uint16 \<Rightarrow> log_seg_id_t" where
  "LOG_INDEX_SEG_ORDER o' = unat (o' AND LOG_INDEX_ORDER_SEG_MASK)"

definition LOG_INDEX_ID_ORDER :: "uint16 \<Rightarrow> nat" where
  "LOG_INDEX_ID_ORDER o' = unat (drop_bit LOG_INDEX_ORDER_IDX_SHIFT (o' AND LOG_INDEX_ORDER_IDX_MASK))"

definition LOG_INDEX_MEM_TBL_ADD_ORDER ::
    "log_idx_table_data_t \<Rightarrow> log_seg_id_t \<Rightarrow> nat \<Rightarrow> log_idx_table_data_t result" where
  "LOG_INDEX_MEM_TBL_ADD_ORDER t seg_id idx =
    rbind (POLAR_ASSERT_PANIC (seg_id < LOG_INDEX_MEM_TBL_SEG_NUM)) (\<lambda>_.
    rbind (POLAR_ASSERT_PANIC
            (idx < unat (drop_bit LOG_INDEX_ORDER_IDX_SHIFT LOG_INDEX_ORDER_IDX_MASK))) (\<lambda>_.
    let v = (of_nat seg_id AND LOG_INDEX_ORDER_SEG_MASK)
            OR (push_bit LOG_INDEX_ORDER_IDX_SHIFT (of_nat idx) AND LOG_INDEX_ORDER_IDX_MASK)
    in Inr (t\<lparr>idx_order := (idx_order t)(last_order t := v), last_order := last_order t + 1\<rparr>)))"

section \<open>Operations on one table\<close>

text \<open>
  The walk along the chain of a hash slot: \<open>None\<close> when it does not end, as on a table whose chain
  has a cycle.
\<close>

partial_function (option) exists_page_loop ::
    "log_idx_table_data_t \<Rightarrow> BufferTag \<Rightarrow> log_seg_id_t \<Rightarrow> log_seg_id_t result option" where
  "exists_page_loop t page exists =
    (case log_index_item_head exists of
       Inl e \<Rightarrow> Some (Inl e)
     | Inr None \<Rightarrow> Some (Inr exists)
     | Inr (Some p) \<Rightarrow>
         (case head_at t p of
            Inl e \<Rightarrow> Some (Inl e)
          | Inr item \<Rightarrow>
              if \<not> BUFFERTAGS_EQUAL (h_tag item) page
              then exists_page_loop t page (h_next_item item)
              else Some (Inr exists)))"

definition log_index_mem_tbl_exists_page ::
    "BufferTag \<Rightarrow> log_idx_table_data_t \<Rightarrow> nat \<Rightarrow> log_seg_id_t result option" where
  "log_index_mem_tbl_exists_page page t key = exists_page_loop t page (tbl_hash t key)"

definition log_index_mem_seg_full :: "log_mem_table_t \<Rightarrow> log_seg_id_t \<Rightarrow> bool result" where
  "log_index_mem_seg_full m head =
    rbind (POLAR_ASSERT_PANIC (head \<noteq> LOG_INDEX_TBL_INVALID_SEG)) (\<lambda>_.
    rbind (get_head (tbl_data m) head) (\<lambda>item.
    if h_tail_seg item = head then Inr (h_number item = LOG_INDEX_ITEM_HEAD_LSN_NUM)
    else rbind (get_seg (tbl_data m) (h_tail_seg item)) (\<lambda>seg.
         Inr (s_number seg = LOG_INDEX_ITEM_SEG_LSN_NUM))))"

definition log_index_insert_new_item ::
    "log_index_lsn_t \<Rightarrow> log_mem_table_t \<Rightarrow> nat \<Rightarrow> log_seg_id_t \<Rightarrow> log_mem_table_t result" where
  "log_index_insert_new_item info m key new_item_id =
    rbind (get_head (tbl_data m) new_item_id) (\<lambda>new_item.
    rbind (POLAR_ASSERT_PANIC (key < LOG_INDEX_MEM_TBL_HASH_NUM)) (\<lambda>_.
    rbind (LOG_INDEX_INSERT_LSN_INFO (h_suffix_lsn new_item) 0 info) (\<lambda>suffix.
    let slot = tbl_hash (tbl_data m) key;
        new_item = new_item\<lparr>h_head_seg := new_item_id,
                            h_next_item := LOG_INDEX_TBL_INVALID_SEG,
                            h_next_seg := LOG_INDEX_TBL_INVALID_SEG,
                            h_tail_seg := new_item_id,
                            h_tag := li_tag info,
                            h_number := 1,
                            h_prev_page_lsn := li_prev_lsn info,
                            h_suffix_lsn := suffix\<rparr>;
        new_item = (if slot = LOG_INDEX_TBL_INVALID_SEG then new_item
                    else new_item\<lparr>h_next_item := slot\<rparr>);
        t = put_head (tbl_data m) new_item_id new_item
    in Inr (m\<lparr>tbl_data := t\<lparr>tbl_hash := (tbl_hash t)(key := new_item_id)\<rparr>\<rparr>))))"

definition log_index_insert_new_seg ::
    "log_mem_table_t \<Rightarrow> log_seg_id_t \<Rightarrow> log_seg_id_t \<Rightarrow> log_index_lsn_t \<Rightarrow> log_mem_table_t result" where
  "log_index_insert_new_seg m head seg_id info =
    rbind (get_head (tbl_data m) head) (\<lambda>item.
    rbind (get_seg (tbl_data m) seg_id) (\<lambda>seg.
    rbind (if h_tail_seg item = head
           then Inr (put_head (tbl_data m) head (item\<lparr>h_next_seg := seg_id\<rparr>))
           else rbind (get_seg (tbl_data m) (h_tail_seg item)) (\<lambda>pre_seg.
                Inr (put_seg (tbl_data m) (h_tail_seg item) (pre_seg\<lparr>s_next_seg := seg_id\<rparr>)))) (\<lambda>t.
    rbind (get_head t head) (\<lambda>item.
    rbind (LOG_INDEX_INSERT_LSN_INFO (s_suffix_lsn seg) 0 info) (\<lambda>suffix.
    let seg = seg\<lparr>s_head_seg := head,
                  s_prev_seg := h_tail_seg item,
                  s_next_seg := LOG_INDEX_TBL_INVALID_SEG,
                  s_number := 1,
                  s_suffix_lsn := suffix\<rparr>;
        t = put_head t head (item\<lparr>h_tail_seg := seg_id\<rparr>)
    in Inr (m\<lparr>tbl_data := put_seg t seg_id seg\<rparr>))))))"

definition log_index_append_lsn ::
    "log_mem_table_t \<Rightarrow> log_seg_id_t \<Rightarrow> log_index_lsn_t \<Rightarrow> (nat \<times> log_mem_table_t) result" where
  "log_index_append_lsn m head info =
    rbind (POLAR_ASSERT_PANIC (head \<noteq> LOG_INDEX_TBL_INVALID_SEG)) (\<lambda>_.
    rbind (get_head (tbl_data m) head) (\<lambda>item.
    if h_tail_seg item = head then
      rbind (POLAR_ASSERT_PANIC (h_number item < LOG_INDEX_ITEM_HEAD_LSN_NUM)) (\<lambda>_.
      let idx = h_number item in
      rbind (LOG_INDEX_INSERT_LSN_INFO (h_suffix_lsn item) idx info) (\<lambda>suffix.
      Inr (idx, m\<lparr>tbl_data := put_head (tbl_data m) head
                    (item\<lparr>h_suffix_lsn := suffix, h_number := h_number item + 1\<rparr>)\<rparr>)))
    else
      rbind (get_seg (tbl_data m) (h_tail_seg item)) (\<lambda>seg.
      rbind (POLAR_ASSERT_PANIC (s_number seg < LOG_INDEX_ITEM_SEG_LSN_NUM)) (\<lambda>_.
      let idx = s_number seg in
      rbind (LOG_INDEX_INSERT_LSN_INFO (s_suffix_lsn seg) idx info) (\<lambda>suffix.
      Inr (idx, m\<lparr>tbl_data := put_seg (tbl_data m) (h_tail_seg item)
                    (seg\<lparr>s_suffix_lsn := suffix, s_number := s_number seg + 1\<rparr>)\<rparr>))))))"

text \<open>The two branches of \<open>log_index_insert_lsn\<close> on the table they write to.\<close>

definition insert_append ::
    "log_mem_table_t \<Rightarrow> log_seg_id_t \<Rightarrow> log_index_lsn_t \<Rightarrow> log_mem_table_t result" where
  "insert_append m head info =
    rbind (log_index_append_lsn m head info) (\<lambda>(idx, m).
    rbind (get_head (tbl_data m) head) (\<lambda>item.
    rbind (LOG_INDEX_MEM_TBL_ADD_ORDER (tbl_data m) (h_tail_seg item) idx) (\<lambda>t.
    Inr (m\<lparr>tbl_data := t\<rparr>))))"

definition insert_at_dst ::
    "log_mem_table_t \<Rightarrow> bool \<Rightarrow> log_seg_id_t \<Rightarrow> nat \<Rightarrow> log_seg_id_t \<Rightarrow> log_index_lsn_t
      \<Rightarrow> log_mem_table_t result" where
  "insert_at_dst m new_item head key dst info =
    rbind (if new_item then log_index_insert_new_item info m key dst
           else log_index_insert_new_seg m head dst info) (\<lambda>m.
    rbind (LOG_INDEX_MEM_TBL_ADD_ORDER (tbl_data m) dst 0) (\<lambda>t.
    Inr (m\<lparr>tbl_data := t\<rparr>)))"

definition log_index_tbl_find ::
    "BufferTag \<Rightarrow> log_idx_table_data_t \<Rightarrow> nat \<Rightarrow> nat option result option" where
  "log_index_tbl_find page t key =
    (case log_index_mem_tbl_exists_page page t key of
       None \<Rightarrow> None
     | Some (Inl e) \<Rightarrow> Some (Inl e)
     | Some (Inr item_id) \<Rightarrow> Some (log_index_item_head item_id))"

definition log_index_item_max_lsn ::
    "log_idx_table_data_t \<Rightarrow> log_item_head_t \<Rightarrow> XLogRecPtr result" where
  "log_index_item_max_lsn t item =
    (if h_head_seg item = h_tail_seg item
     then Inr (LOG_INDEX_COMBINE_LSN t (h_suffix_lsn item (h_number item - 1)))
     else rbind (get_seg t (h_tail_seg item)) (\<lambda>seg.
          Inr (LOG_INDEX_COMBINE_LSN t (s_suffix_lsn seg (s_number seg - 1)))))"

definition log_index_get_seg_page_tag :: "log_idx_table_data_t \<Rightarrow> log_seg_id_t \<Rightarrow> BufferTag result" where
  "log_index_get_seg_page_tag t seg_id =
    rbind (get_head_seg t seg_id) (\<lambda>head_seg.
    rbind (get_head t head_seg) (\<lambda>head. Inr (h_tag head)))"

definition log_index_get_seg_prev_lsn ::
    "log_idx_table_data_t \<Rightarrow> log_seg_id_t \<Rightarrow> nat \<Rightarrow> XLogRecPtr result" where
  "log_index_get_seg_prev_lsn t seg_id idx =
    rbind (get_head_seg t seg_id) (\<lambda>head_seg.
    if head_seg = seg_id then
      rbind (get_head t seg_id) (\<lambda>head.
      if idx = 0 then Inr (h_prev_page_lsn head)
      else Inr (LOG_INDEX_COMBINE_LSN t (h_suffix_lsn head (idx - 1))))
    else
      rbind (get_seg t seg_id) (\<lambda>seg.
      if idx > 0 then Inr (LOG_INDEX_COMBINE_LSN t (s_suffix_lsn seg (idx - 1)))
      else if s_prev_seg seg = s_head_seg seg then
        rbind (get_head t (s_prev_seg seg)) (\<lambda>head.
        Inr (LOG_INDEX_COMBINE_LSN t (h_suffix_lsn head (h_number head - 1))))
      else
        rbind (get_seg t (s_prev_seg seg)) (\<lambda>seg.
        Inr (LOG_INDEX_COMBINE_LSN t (s_suffix_lsn seg (s_number seg - 1))))))"

text \<open>
  \<open>log_index_get_order_lsn\<close> returns the LSN, and what it writes to \<open>lsn_info\<close>: nothing when the
  order is not used yet.
\<close>

definition log_index_get_order_lsn ::
    "log_idx_table_data_t \<Rightarrow> nat \<Rightarrow> (XLogRecPtr \<times> log_index_lsn_t option) result" where
  "log_index_get_order_lsn t order =
    (if order \<ge> last_order t then Inr (InvalidXLogRecPtr, None)
     else
       let seg_id = LOG_INDEX_SEG_ORDER (idx_order t order);
           idx = LOG_INDEX_ID_ORDER (idx_order t order)
       in rbind (get_head_seg t seg_id) (\<lambda>head_seg.
          rbind (if head_seg = seg_id then
                   rbind (get_head t seg_id) (\<lambda>head.
                   rbind (POLAR_ASSERT_PANIC (idx < h_number head)) (\<lambda>_.
                   Inr (LOG_INDEX_COMBINE_LSN t (h_suffix_lsn head idx))))
                 else
                   rbind (get_seg t seg_id) (\<lambda>seg.
                   rbind (POLAR_ASSERT_PANIC (idx < s_number seg)) (\<lambda>_.
                   Inr (LOG_INDEX_COMBINE_LSN t (s_suffix_lsn seg idx))))) (\<lambda>l.
          rbind (log_index_get_seg_prev_lsn t seg_id idx) (\<lambda>prev.
          rbind (log_index_get_seg_page_tag t seg_id) (\<lambda>page.
          Inr (l, Some \<lparr>li_tag = page, li_lsn = l, li_prev_lsn = prev\<rparr>))))))"

section \<open>Facts about LSNs and orders\<close>

lemma unat_uint32_less: "unat (x :: uint32) < 4294967296"
  using unsigned_less[of x] by simp

lemma unat_ucast_64 [simp]: "unat (ucast (x :: uint32) :: uint64) = unat x"
  using unat_uint32_less[of x] by (simp add: unsigned_ucast_eq take_bit_nat_eq_self)

lemma unat_drop_32: "unat (drop_bit 32 (x :: uint64)) = unat x div 4294967296"
proof -
  have "unat x < 18446744073709551616" using unsigned_less[of x, where 'a = nat] by simp
  then show ?thesis
    by (simp only: unsigned_drop_bit_eq) (simp add: drop_bit_eq_div take_bit_eq_mod)
qed

lemma combine_unat:
  "unat (LOG_INDEX_COMBINE_LSN t s) = unat (prefix_lsn t) * 4294967296 + unat s"
proof -
  let ?p = "push_bit 32 (ucast (prefix_lsn t)) :: uint64"
  have "?p + ucast s = ?p OR ucast s"
    by (rule disjunctive_add) (auto simp: bit_push_bit_iff bit_ucast_iff dest: bit_imp_le_length)
  then have "LOG_INDEX_COMBINE_LSN t s = ?p + ucast s"
    by (simp add: LOG_INDEX_COMBINE_LSN_def)
  moreover have "unat ?p = unat (prefix_lsn t) * 4294967296"
  proof -
    have "unat ?p = (unat (prefix_lsn t) * 4294967296) mod 18446744073709551616"
      by (simp add: push_bit_eq_mult unat_word_ariths mult.commute)
    then show ?thesis using unat_uint32_less[of "prefix_lsn t"] by (simp add: mod_less)
  qed
  moreover have "unat (ucast s :: uint64) = unat s"
    by simp
  moreover have "unat (prefix_lsn t) * 4294967296 + unat s < 18446744073709551616"
    using unat_uint32_less[of "prefix_lsn t"] unat_uint32_less[of s] by simp
  ultimately show ?thesis by (simp add: unat_word_ariths)
qed

lemma combine_less_iff [simp]:
  "LOG_INDEX_COMBINE_LSN t a < LOG_INDEX_COMBINE_LSN t b \<longleftrightarrow> a < b"
  by (simp add: word_less_nat_alt combine_unat)

lemma combine_split:
  assumes "LOG_INDEX_SAME_TABLE_LSN_PREFIX t l"
  shows "LOG_INDEX_COMBINE_LSN t (ucast (drop_bit 32 (push_bit 32 l))) = l"
proof -
  have "unat (drop_bit 32 l) = unat l div 4294967296"
    by (rule unat_drop_32)
  moreover have "unat (drop_bit 32 l) = unat (prefix_lsn t)"
    using assms[unfolded LOG_INDEX_SAME_TABLE_LSN_PREFIX_def, symmetric]
    by (simp del: drop_bit_numeral_bit0)
  moreover have "unat (ucast (drop_bit 32 (push_bit 32 l)) :: uint32) = unat l mod 4294967296"
  proof -
    have "(ucast (drop_bit 32 (push_bit 32 l)) :: uint32) = ucast l"
      by (rule bit_word_eqI) (simp add: bit_simps)
    then show ?thesis by (simp add: unsigned_ucast_eq take_bit_eq_mod)
  qed
  ultimately have "unat (LOG_INDEX_COMBINE_LSN t (ucast (drop_bit 32 (push_bit 32 l)))) = unat l"
    by (simp only: combine_unat) simp
  then show ?thesis by (simp add: word_unat_eq_iff)
qed

lemma seg_mask_bit: "bit LOG_INDEX_ORDER_SEG_MASK n \<longleftrightarrow> n < 12"
proof -
  have eq: "LOG_INDEX_ORDER_SEG_MASK = mask 12"
    by (simp add: order_masks mask_eq_exp_minus_1)
  show ?thesis unfolding eq by (auto simp: bit_mask_iff)
qed

lemma idx_mask_bit: "bit LOG_INDEX_ORDER_IDX_MASK n \<longleftrightarrow> 12 \<le> n \<and> n < 16"
proof -
  have eq: "LOG_INDEX_ORDER_IDX_MASK = push_bit 12 (mask 4)"
    by (simp add: order_masks mask_eq_exp_minus_1 push_bit_eq_mult)
  show ?thesis unfolding eq by (auto simp: bit_push_bit_iff bit_mask_iff)
qed

lemma bit_nat_small:
  assumes "bit (k :: nat) n" "k < 2 ^ m"
  shows "n < m"
proof (rule ccontr)
  assume "\<not> n < m"
  then have "k < 2 ^ n"
    using assms(2) by (meson leI less_le_trans one_le_numeral power_increasing)
  then show False
    using assms(1) by (simp add: bit_iff_odd)
qed

lemma order_round_trip:
  fixes v :: uint16
  assumes "s < LOG_INDEX_MEM_TBL_SEG_NUM" "i < 15"
    and v: "v = (of_nat s AND LOG_INDEX_ORDER_SEG_MASK)
            OR (push_bit LOG_INDEX_ORDER_IDX_SHIFT (of_nat i) AND LOG_INDEX_ORDER_IDX_MASK)"
  shows "LOG_INDEX_SEG_ORDER v = s" and "LOG_INDEX_ID_ORDER v = i"
proof -
  have s: "s < 2 ^ 12" and i: "i < 2 ^ 4" using assms by (simp_all add: table_sizes)
  have "v AND LOG_INDEX_ORDER_SEG_MASK = of_nat s"
    by (rule bit_word_eqI)
      (auto simp: v bit_simps seg_mask_bit idx_mask_bit LOG_INDEX_ORDER_IDX_SHIFT_def
        dest: bit_nat_small[OF _ s])
  then show "LOG_INDEX_SEG_ORDER v = s"
    using s by (simp add: LOG_INDEX_SEG_ORDER_def unat_of_nat)
  have "drop_bit 12 (v AND LOG_INDEX_ORDER_IDX_MASK) = of_nat i"
    by (rule bit_word_eqI)
      (auto simp: v bit_simps seg_mask_bit idx_mask_bit LOG_INDEX_ORDER_IDX_SHIFT_def
        dest: bit_nat_small[OF _ i])
  then show "LOG_INDEX_ID_ORDER v = i"
    using i by (simp add: LOG_INDEX_ID_ORDER_def LOG_INDEX_ORDER_IDX_SHIFT_def unat_of_nat)
qed

end
