(* ===== verification/Log_Table_Inv.thy ===== *)
theory Log_Table_Inv
  imports Log_Table
begin

text \<open>
  The representation invariant of a logindex table and its abstract contents, the list of entries
  in the order of insertion. The chain of a page is the increasing list of the segments that name
  its head, a hash chain is the decreasing list of the heads with that hash; the pointers stored in
  the segments (\<open>tail_seg\<close>, \<open>prev_seg\<close>, \<open>next_item\<close>, the hash slots) agree with them.
\<close>

section \<open>The slots of a table\<close>

named_theorems slot_simps \<open>how an update of the segment array changes the slots\<close>

definition slot :: "log_idx_table_data_t \<Rightarrow> log_seg_id_t \<Rightarrow> log_tbl_seg_t" where
  "slot t s = segment t (s - 1)"

fun is_head :: "log_tbl_seg_t \<Rightarrow> bool" where
  "is_head (Item_head h) = True"
| "is_head _ = False"

fun number_of :: "log_tbl_seg_t \<Rightarrow> nat" where
  "number_of Seg_zero = 0"
| "number_of (Item_head h) = h_number h"
| "number_of (Item_seg s) = s_number s"

fun suffix_of :: "log_tbl_seg_t \<Rightarrow> nat \<Rightarrow> uint32" where
  "suffix_of Seg_zero = (\<lambda>_. 0)"
| "suffix_of (Item_head h) = h_suffix_lsn h"
| "suffix_of (Item_seg s) = s_suffix_lsn s"

fun slot_tag :: "log_tbl_seg_t \<Rightarrow> BufferTag" where
  "slot_tag (Item_head h) = h_tag h"
| "slot_tag _ = zero_tag"

fun capacity :: "log_tbl_seg_t \<Rightarrow> nat" where
  "capacity (Item_head h) = LOG_INDEX_ITEM_HEAD_LSN_NUM"
| "capacity _ = LOG_INDEX_ITEM_SEG_LSN_NUM"

abbreviation head_id :: "log_idx_table_data_t \<Rightarrow> log_seg_id_t \<Rightarrow> log_seg_id_t" where
  "head_id t s \<equiv> head_seg_of (slot t s)"

definition tag_of :: "log_idx_table_data_t \<Rightarrow> log_seg_id_t \<Rightarrow> BufferTag" where
  "tag_of t s = slot_tag (slot t (head_id t s))"

definition LOG_INDEX_MEM_TBL_HASH_PAGE :: "(BufferTag \<Rightarrow> uint32) \<Rightarrow> BufferTag \<Rightarrow> nat" where
  "LOG_INDEX_MEM_TBL_HASH_PAGE tag_hash page = unat (tag_hash page) mod LOG_INDEX_MEM_TBL_HASH_NUM"

definition last0 :: "nat list \<Rightarrow> nat" where
  "last0 xs = (if xs = [] then 0 else last xs)"

definition chain :: "log_idx_table_data_t \<Rightarrow> nat \<Rightarrow> log_seg_id_t \<Rightarrow> log_seg_id_t list" where
  "chain t n h = filter (\<lambda>s. head_id t s = h) [1..<n]"

definition bucket ::
    "(BufferTag \<Rightarrow> uint32) \<Rightarrow> log_idx_table_data_t \<Rightarrow> nat \<Rightarrow> nat \<Rightarrow> log_seg_id_t list" where
  "bucket tag_hash t n key = filter (\<lambda>s. is_head (slot t s)
     \<and> LOG_INDEX_MEM_TBL_HASH_PAGE tag_hash (slot_tag (slot t s)) = key) [1..<n]"

section \<open>Contents\<close>

definition orders :: "log_idx_table_data_t \<Rightarrow> (log_seg_id_t \<times> nat) list" where
  "orders t = map (\<lambda>k. (LOG_INDEX_SEG_ORDER (idx_order t k), LOG_INDEX_ID_ORDER (idx_order t k)))
     [0..<last_order t]"

definition positions :: "log_idx_table_data_t \<Rightarrow> nat \<Rightarrow> log_seg_id_t \<Rightarrow> (log_seg_id_t \<times> nat) list" where
  "positions t n h = concat (map (\<lambda>s. map (Pair s) [0..<number_of (slot t s)]) (chain t n h))"

definition lsn_at :: "log_idx_table_data_t \<Rightarrow> log_seg_id_t \<times> nat \<Rightarrow> XLogRecPtr" where
  "lsn_at t e = LOG_INDEX_COMBINE_LSN t (suffix_of (slot t (fst e)) (snd e))"

definition prev_at :: "log_idx_table_data_t \<Rightarrow> log_seg_id_t \<times> nat \<Rightarrow> XLogRecPtr" where
  "prev_at t e = (if snd e > 0 then lsn_at t (fst e, snd e - 1)
     else case slot t (fst e) of
            Seg_zero \<Rightarrow> 0
          | Item_head h \<Rightarrow> h_prev_page_lsn h
          | Item_seg s \<Rightarrow> lsn_at t (s_prev_seg s, number_of (slot t (s_prev_seg s)) - 1))"

definition entry :: "log_idx_table_data_t \<Rightarrow> log_seg_id_t \<times> nat \<Rightarrow> log_index_lsn_t" where
  "entry t e = \<lparr>li_tag = tag_of t (fst e), li_lsn = lsn_at t e, li_prev_lsn = prev_at t e\<rparr>"

text \<open>What a table holds: its entries in the order of insertion.\<close>

definition tbl_log :: "log_idx_table_data_t \<Rightarrow> log_index_lsn_t list" where
  "tbl_log t = map (entry t) (orders t)"

definition page_log :: "BufferTag \<Rightarrow> log_index_lsn_t list \<Rightarrow> log_index_lsn_t list" where
  "page_log page = filter (\<lambda>e. li_tag e = page)"

text \<open>
  The specification of an insertion: the entry goes to the end; its previous LSN is the LSN of the
  page inserted last into this table, and the one given by the caller if there is none.
\<close>

definition spec_insert :: "log_index_lsn_t list \<Rightarrow> log_index_lsn_t \<Rightarrow> log_index_lsn_t list" where
  "spec_insert L info = L @ [info\<lparr>li_prev_lsn :=
     (case page_log (li_tag info) L of [] \<Rightarrow> li_prev_lsn info | xs \<Rightarrow> li_lsn (last xs))\<rparr>]"

section \<open>The invariant\<close>

fun seg_ok :: "(BufferTag \<Rightarrow> uint32) \<Rightarrow> log_idx_table_data_t \<Rightarrow> nat \<Rightarrow> log_seg_id_t \<Rightarrow> bool" where
  "seg_ok tag_hash t n s = (case slot t s of
     Seg_zero \<Rightarrow> False
   | Item_head h \<Rightarrow> h_head_seg h = s
       \<and> h_next_item h = last0 (bucket tag_hash t s (LOG_INDEX_MEM_TBL_HASH_PAGE tag_hash (h_tag h)))
       \<and> h_tail_seg h = last (chain t n s)
       \<and> 1 \<le> h_number h \<and> h_number h \<le> LOG_INDEX_ITEM_HEAD_LSN_NUM
       \<and> (last (chain t n s) \<noteq> s \<longrightarrow> h_number h = LOG_INDEX_ITEM_HEAD_LSN_NUM)
   | Item_seg g \<Rightarrow> 1 \<le> s_head_seg g \<and> s_head_seg g < s
       \<and> is_head (slot t (s_head_seg g))
       \<and> s_prev_seg g = last (chain t s (s_head_seg g))
       \<and> 1 \<le> s_number g \<and> s_number g \<le> LOG_INDEX_ITEM_SEG_LSN_NUM
       \<and> (last (chain t n (s_head_seg g)) \<noteq> s \<longrightarrow> s_number g = LOG_INDEX_ITEM_SEG_LSN_NUM))"

declare seg_ok.simps [simp del]

definition tbl_wf :: "(BufferTag \<Rightarrow> uint32) \<Rightarrow> nat \<Rightarrow> log_idx_table_data_t \<Rightarrow> bool" where
  "tbl_wf tag_hash n t \<longleftrightarrow>
     1 \<le> n \<and> n \<le> LOG_INDEX_MEM_TBL_SEG_NUM
   \<and> (\<forall>s\<ge>n. slot t s = Seg_zero)
   \<and> (\<forall>s\<in>{1..<n}. seg_ok tag_hash t n s)
   \<and> (\<forall>key<LOG_INDEX_MEM_TBL_HASH_NUM. tbl_hash t key = last0 (bucket tag_hash t n key))
   \<and> inj_on (\<lambda>s. slot_tag (slot t s)) {s\<in>{1..<n}. is_head (slot t s)}
   \<and> (\<forall>e\<in>set (orders t). fst e \<in> {1..<n} \<and> snd e < number_of (slot t (fst e)))
   \<and> distinct (orders t)
   \<and> (\<forall>h\<in>{1..<n}. is_head (slot t h) \<longrightarrow>
        filter (\<lambda>e. head_id t (fst e) = h) (orders t) = positions t n h)"

lemma tbl_wfD:
  assumes "tbl_wf tag_hash n t"
  shows "1 \<le> n" "n \<le> LOG_INDEX_MEM_TBL_SEG_NUM"
    and "\<And>s. n \<le> s \<Longrightarrow> slot t s = Seg_zero"
    and "\<And>s. 1 \<le> s \<Longrightarrow> s < n \<Longrightarrow> seg_ok tag_hash t n s"
    and "\<And>key. key < LOG_INDEX_MEM_TBL_HASH_NUM \<Longrightarrow> tbl_hash t key = last0 (bucket tag_hash t n key)"
    and "\<And>a b. 1 \<le> a \<Longrightarrow> a < n \<Longrightarrow> 1 \<le> b \<Longrightarrow> b < n \<Longrightarrow> is_head (slot t a) \<Longrightarrow> is_head (slot t b) \<Longrightarrow>
          slot_tag (slot t a) = slot_tag (slot t b) \<Longrightarrow> a = b"
    and "\<And>e. e \<in> set (orders t) \<Longrightarrow> 1 \<le> fst e \<and> fst e < n \<and> snd e < number_of (slot t (fst e))"
    and "distinct (orders t)"
    and "\<And>h. 1 \<le> h \<Longrightarrow> h < n \<Longrightarrow> is_head (slot t h) \<Longrightarrow>
          filter (\<lambda>e. head_id t (fst e) = h) (orders t) = positions t n h"
  using assms by (auto simp: tbl_wf_def inj_on_def)

lemma hash_page_less [simp]: "LOG_INDEX_MEM_TBL_HASH_PAGE tag_hash page < LOG_INDEX_MEM_TBL_HASH_NUM"
  by (simp add: LOG_INDEX_MEM_TBL_HASH_PAGE_def table_sizes)

subsection \<open>An empty table\<close>

definition empty_slots :: "log_idx_table_data_t \<Rightarrow> bool" where
  "empty_slots t \<longleftrightarrow> (\<forall>p. segment t p = Seg_zero) \<and> (\<forall>k. tbl_hash t k = 0) \<and> last_order t = 0"

lemma empty_wf: "empty_slots t \<Longrightarrow> tbl_wf tag_hash 1 t"
  by (auto simp: tbl_wf_def empty_slots_def slot_def orders_def bucket_def last0_def
      LOG_INDEX_MEM_TBL_SEG_NUM_def)

lemma empty_log: "empty_slots t \<Longrightarrow> tbl_log t = []"
  by (simp add: empty_slots_def tbl_log_def orders_def)

section \<open>Filters of index ranges\<close>

lemma filter_upt_Suc:
  "1 \<le> n \<Longrightarrow> filter P [1..<Suc n] = filter P [1..<n] @ (if P n then [n] else [])"
  by simp

lemma filter_upt_cut:
  assumes "1 \<le> s" "s \<le> m" "\<And>x. s \<le> x \<Longrightarrow> x < m \<Longrightarrow> \<not> P x"
  shows "filter P [1..<m] = filter P [1..<s]"
proof -
  have "[1..<m] = [1..<s] @ [s..<m]"
    using assms(1,2) by (metis le_add_diff_inverse upt_add_eq_append)
  then show ?thesis using assms(3) by (auto simp: filter_empty_conv)
qed

lemma last_filter_upt:
  assumes "filter P [1..<m] \<noteq> []" "s = last (filter P [1..<m])"
  shows "1 \<le> s" "s < m" "P s" "\<And>x. s < x \<Longrightarrow> x < m \<Longrightarrow> \<not> P x"
proof -
  have "s \<in> set (filter P [1..<m])" using assms by (metis last_in_set)
  then show "1 \<le> s" "s < m" "P s" by auto
  fix x assume x: "s < x" "x < m"
  show "\<not> P x"
  proof
    assume "P x"
    then have "x \<in> set (filter P [1..<m])" using x by auto
    moreover have "\<forall>y\<in>set xs. y \<le> last xs" if "sorted xs" for xs :: "nat list"
      using that by (induction xs) auto
    ultimately have "x \<le> s" using assms(2) by (metis sorted_wrt_filter sorted_upt)
    then show False using x by simp
  qed
qed

lemma last_filter_uptI:
  assumes "P s" "1 \<le> s" "s < m" "\<And>x. s < x \<Longrightarrow> x < m \<Longrightarrow> \<not> P x"
  shows "last (filter P [1..<m]) = s"
proof -
  have "filter P [1..<m] = filter P [1..<Suc s]"
    using assms by (intro filter_upt_cut) auto
  then show ?thesis using assms(1,2) by simp
qed

lemma last0_filter_uptI:
  assumes "P s" "1 \<le> s" "s < m" "\<And>x. s < x \<Longrightarrow> x < m \<Longrightarrow> \<not> P x"
  shows "last0 (filter P [1..<m]) = s"
proof -
  have "s \<in> set (filter P [1..<m])" using assms by auto
  then have "filter P [1..<m] \<noteq> []" by (metis emptyE set_empty)
  then show ?thesis unfolding last0_def using last_filter_uptI[of P s m] assms by simp
qed

section \<open>Reading a table\<close>

lemma get_head_slot:
  "slot t s = Item_head h \<Longrightarrow> 1 \<le> s \<Longrightarrow> s \<le> LOG_INDEX_MEM_TBL_SEG_NUM \<Longrightarrow> get_head t s = Inr h"
  by (simp add: get_head_def log_index_item_head_def LOG_INDEX_ITEM_HEAD_def slot_def)

lemma get_seg_slot:
  "slot t s = Item_seg g \<Longrightarrow> 1 \<le> s \<Longrightarrow> s \<le> LOG_INDEX_MEM_TBL_SEG_NUM \<Longrightarrow> get_seg t s = Inr g"
  by (simp add: get_seg_def log_index_item_seg_def LOG_INDEX_ITEM_HEAD_def slot_def)

lemma get_head_seg_slot:
  "1 \<le> s \<Longrightarrow> s \<le> LOG_INDEX_MEM_TBL_SEG_NUM \<Longrightarrow> get_head_seg t s = Inr (head_id t s)"
  by (simp add: get_head_seg_def log_index_item_seg_def LOG_INDEX_ITEM_HEAD_def slot_def)

lemma wf_head:
  assumes "tbl_wf tag_hash n t" "1 \<le> s" "s < n" "slot t s = Item_head h"
  shows "h_head_seg h = s"
    "h_next_item h = last0 (bucket tag_hash t s (LOG_INDEX_MEM_TBL_HASH_PAGE tag_hash (h_tag h)))"
    "h_tail_seg h = last (chain t n s)"
    "1 \<le> h_number h" "h_number h \<le> LOG_INDEX_ITEM_HEAD_LSN_NUM"
    "last (chain t n s) \<noteq> s \<Longrightarrow> h_number h = LOG_INDEX_ITEM_HEAD_LSN_NUM"
  using tbl_wfD(4)[OF assms(1-3)] assms(4) by (auto simp: seg_ok.simps)

lemma wf_seg:
  assumes "tbl_wf tag_hash n t" "1 \<le> s" "s < n" "slot t s = Item_seg g"
  shows "1 \<le> s_head_seg g" "s_head_seg g < s" "is_head (slot t (s_head_seg g))"
    "s_prev_seg g = last (chain t s (s_head_seg g))"
    "1 \<le> s_number g" "s_number g \<le> LOG_INDEX_ITEM_SEG_LSN_NUM"
    "last (chain t n (s_head_seg g)) \<noteq> s \<Longrightarrow> s_number g = LOG_INDEX_ITEM_SEG_LSN_NUM"
  using tbl_wfD(4)[OF assms(1-3)] assms(4) by (auto simp: seg_ok.simps)

lemma wf_slot_cases:
  assumes "tbl_wf tag_hash n t" "1 \<le> s" "s < n"
  obtains h where "slot t s = Item_head h" | g where "slot t s = Item_seg g"
  using tbl_wfD(4)[OF assms] by (cases "slot t s") (auto simp: seg_ok.simps)

lemma is_headE: "is_head x \<Longrightarrow> (\<And>h. x = Item_head h \<Longrightarrow> P) \<Longrightarrow> P"
  by (cases x) auto

lemma wf_head_id:
  assumes "tbl_wf tag_hash n t" "1 \<le> s" "s < n"
  shows "1 \<le> head_id t s" "head_id t s \<le> s" "is_head (slot t (head_id t s))"
    "is_head (slot t s) \<longleftrightarrow> head_id t s = s"
proof -
  have "1 \<le> head_id t s \<and> head_id t s \<le> s \<and> is_head (slot t (head_id t s))
      \<and> (is_head (slot t s) \<longleftrightarrow> head_id t s = s)"
  proof (rule wf_slot_cases[OF assms])
    fix h assume h: "slot t s = Item_head h"
    show ?thesis using wf_head(1)[OF assms h] h assms(2) by simp
  next
    fix g assume g: "slot t s = Item_seg g"
    show ?thesis using wf_seg(1-3)[OF assms g] g by simp
  qed
  then show "1 \<le> head_id t s" "head_id t s \<le> s" "is_head (slot t (head_id t s))"
    "is_head (slot t s) \<longleftrightarrow> head_id t s = s" by blast+
qed

lemma chain_last:
  assumes "tbl_wf tag_hash n t" "1 \<le> h" "h < m" "m \<le> n" "is_head (slot t h)"
  shows "chain t m h \<noteq> []" "h \<le> last (chain t m h)" "last (chain t m h) < m"
    "head_id t (last (chain t m h)) = h"
    "\<And>x. last (chain t m h) < x \<Longrightarrow> x < m \<Longrightarrow> head_id t x \<noteq> h"
proof -
  let ?P = "\<lambda>s. head_id t s = h"
  have h: "?P h" using wf_head_id(4)[OF assms(1,2)] assms by simp
  have "h \<in> set (filter ?P [1..<m])" using h assms by simp
  then have ne: "filter ?P [1..<m] \<noteq> []" by (metis emptyE set_empty)
  show "chain t m h \<noteq> []" using ne by (simp add: chain_def)
  note l = last_filter_upt[OF ne refl]
  show "last (chain t m h) < m" "head_id t (last (chain t m h)) = h"
    "\<And>x. last (chain t m h) < x \<Longrightarrow> x < m \<Longrightarrow> head_id t x \<noteq> h"
    unfolding chain_def by (fact l(2), fact l(3), fact l(4))
  show "h \<le> last (chain t m h)"
  proof (rule ccontr)
    assume "\<not> h \<le> last (chain t m h)"
    then have "last (filter ?P [1..<m]) < h" by (simp add: chain_def)
    from l(4)[OF this assms(3)] h show False by blast
  qed
qed

lemma exists_page_loop_find:
  assumes wf: "tbl_wf tag_hash n t"
  shows "m \<le> n \<Longrightarrow> exists_page_loop t page
      (last0 (bucket tag_hash t m (LOG_INDEX_MEM_TBL_HASH_PAGE tag_hash page)))
    = Some (Inr (last0 (filter (\<lambda>s. is_head (slot t s) \<and> slot_tag (slot t s) = page) [1..<m])))"
proof (induction m rule: less_induct)
  case (less m)
  let ?key = "LOG_INDEX_MEM_TBL_HASH_PAGE tag_hash page"
  let ?P = "\<lambda>s. is_head (slot t s) \<and> slot_tag (slot t s) = page"
  let ?Q = "\<lambda>s. is_head (slot t s) \<and> LOG_INDEX_MEM_TBL_HASH_PAGE tag_hash (slot_tag (slot t s)) = ?key"
  show ?case
  proof (cases "filter ?Q [1..<m] = []")
    case True
    then have "filter ?P [1..<m] = []" by (auto simp: filter_empty_conv)
    then show ?thesis using True
      by (subst exists_page_loop.simps)
        (simp add: bucket_def last0_def log_index_item_head_def LOG_INDEX_ITEM_HEAD_def)
  next
    case False
    define s where "s = last (filter ?Q [1..<m])"
    note s = last_filter_upt[OF False s_def]
    obtain h where h: "slot t s = Item_head h" using s(3) by (blast elim: is_headE)
    have sn: "s < n" using s(2) less.prems by simp
    have b: "last0 (bucket tag_hash t m ?key) = s"
      using False by (simp add: bucket_def last0_def s_def)
    have step: "exists_page_loop t page s =
        (if h_tag h = page then Some (Inr s) else exists_page_loop t page (h_next_item h))"
      using h s(1) sn tbl_wfD(2)[OF wf]
      by (subst exists_page_loop.simps)
        (simp add: log_index_item_head_def LOG_INDEX_ITEM_HEAD_def slot_def)
    show ?thesis
    proof (cases "h_tag h = page")
      case True
      have "last0 (filter ?P [1..<m]) = s"
      proof (rule last0_filter_uptI)
        show "\<not> ?P x" if "s < x" "x < m" for x using s(4)[OF that] by blast
      qed (use s True h in auto)
      then show ?thesis using b step True by simp
    next
      case False
      have "filter ?P [1..<m] = filter ?P [1..<s]"
      proof (rule filter_upt_cut)
        show "\<not> ?P x" if "s \<le> x" "x < m" for x
          using s(4)[of x] that False h by (cases "s = x") auto
      qed (use s in auto)
      moreover have "h_next_item h = last0 (bucket tag_hash t s ?key)"
        using wf_head(2)[OF wf s(1) sn h] s(3) h by simp
      ultimately show ?thesis using b step False less.IH[OF s(2)] sn by simp
    qed
  qed
qed

definition find_head :: "log_idx_table_data_t \<Rightarrow> nat \<Rightarrow> BufferTag \<Rightarrow> log_seg_id_t" where
  "find_head t n page = last0 (filter (\<lambda>s. is_head (slot t s) \<and> slot_tag (slot t s) = page) [1..<n])"

lemma exists_page_find:
  assumes "tbl_wf tag_hash n t"
  shows "log_index_mem_tbl_exists_page page t (LOG_INDEX_MEM_TBL_HASH_PAGE tag_hash page)
    = Some (Inr (find_head t n page))"
  using exists_page_loop_find[OF assms, of n] tbl_wfD(5)[OF assms]
  by (simp add: log_index_mem_tbl_exists_page_def find_head_def)

lemma in_chain_cases:
  assumes "tbl_wf tag_hash n t" "1 \<le> s" "s < n" "head_id t s = h"
  shows "s = h \<Longrightarrow> \<exists>x. slot t s = Item_head x" "s \<noteq> h \<Longrightarrow> \<exists>x. slot t s = Item_seg x \<and> s_head_seg x = h"
  using wf_slot_cases[OF assms(1-3)] wf_head_id(4)[OF assms(1-3)] assms(4)
  by (metis head_seg_of.simps(3) is_head.simps(1,3))+

lemma get_seg_prev_lsn_eq:
  assumes wf: "tbl_wf tag_hash n t" and s: "1 \<le> s" "s < n"
  shows "log_index_get_seg_prev_lsn t s i = Inr (prev_at t (s, i))"
proof -
  have le: "s \<le> LOG_INDEX_MEM_TBL_SEG_NUM" using s tbl_wfD(2)[OF wf] by simp
  note hs = get_head_seg_slot[OF s(1) le]
  show ?thesis
  proof (rule wf_slot_cases[OF wf s])
    fix h assume h: "slot t s = Item_head h"
    then show ?thesis
      using hs get_head_slot[OF h s(1) le] wf_head(1)[OF wf s h]
      by (simp add: log_index_get_seg_prev_lsn_def prev_at_def lsn_at_def)
  next
    fix g assume g: "slot t s = Item_seg g"
    note w = wf_seg[OF wf s g]
    define q where "q = s_prev_seg g"
    have q: "s_head_seg g \<le> q" "q < s" "head_id t q = s_head_seg g"
      using chain_last[OF wf w(1,2) less_imp_le[OF s(2)] w(3)] w(4) by (simp_all add: q_def)
    have qn: "1 \<le> q" "q < n" "q \<le> LOG_INDEX_MEM_TBL_SEG_NUM" using q s le w(1) by simp_all
    note qc = in_chain_cases[OF wf qn(1,2) q(3)]
    have base: "log_index_get_seg_prev_lsn t s i =
        (if i > 0 then Inr (lsn_at t (s, i - 1))
         else if q = s_head_seg g then
           rbind (get_head t q) (\<lambda>head. Inr (LOG_INDEX_COMBINE_LSN t (h_suffix_lsn head (h_number head - 1))))
         else rbind (get_seg t q) (\<lambda>seg. Inr (LOG_INDEX_COMBINE_LSN t (s_suffix_lsn seg (s_number seg - 1)))))"
      using hs get_seg_slot[OF g s(1) le] w(2) g
      by (simp add: log_index_get_seg_prev_lsn_def lsn_at_def q_def)
    show ?thesis
    proof (cases "q = s_head_seg g")
      case True
      then obtain x where "slot t q = Item_head x" using qc(1) by blast
      then show ?thesis using base True g get_head_slot[of t q x] qn
        by (simp add: prev_at_def lsn_at_def q_def[symmetric])
    next
      case False
      then obtain x where "slot t q = Item_seg x" using qc(2) by blast
      then show ?thesis using base False g get_seg_slot[of t q x] qn
        by (simp add: prev_at_def lsn_at_def q_def[symmetric])
    qed
  qed
qed

lemma get_seg_page_tag_eq:
  assumes wf: "tbl_wf tag_hash n t" and s: "1 \<le> s" "s < n"
  shows "log_index_get_seg_page_tag t s = Inr (tag_of t s)"
proof -
  have le: "s \<le> LOG_INDEX_MEM_TBL_SEG_NUM" using s tbl_wfD(2)[OF wf] by simp
  note w = wf_head_id[OF wf s]
  obtain h where h: "slot t (head_id t s) = Item_head h" using w(3) by (rule is_headE)
  show ?thesis
    using get_head_seg_slot[OF s(1) le] get_head_slot[OF h w(1)] w(2) le h
    by (simp add: log_index_get_seg_page_tag_def tag_of_def)
qed

lemma length_orders [simp]: "length (orders t) = last_order t"
  by (simp add: orders_def)

lemma length_tbl_log [simp]: "length (tbl_log t) = last_order t"
  by (simp add: tbl_log_def)

lemma get_order_lsn_eq:
  assumes wf: "tbl_wf tag_hash n t" and k: "k < last_order t"
  shows "log_index_get_order_lsn t k = Inr (li_lsn (tbl_log t ! k), Some (tbl_log t ! k))"
proof -
  obtain s i where e: "orders t ! k = (s, i)" by (rule prod.exhaust)
  have "(s, i) \<in> set (orders t)" using e k by (metis length_orders nth_mem)
  from tbl_wfD(7)[OF wf this] have s: "1 \<le> s" "s < n" "i < number_of (slot t s)" by auto
  have le: "s \<le> LOG_INDEX_MEM_TBL_SEG_NUM" using s tbl_wfD(2)[OF wf] by simp
  have si: "LOG_INDEX_SEG_ORDER (idx_order t k) = s" "LOG_INDEX_ID_ORDER (idx_order t k) = i"
    using e k by (simp_all add: orders_def)
  have l: "tbl_log t ! k = entry t (s, i)" using e k by (simp add: tbl_log_def)
  note rest = get_head_seg_slot[OF s(1) le] get_seg_prev_lsn_eq[OF wf s(1,2)]
    get_seg_page_tag_eq[OF wf s(1,2)]
  show ?thesis
  proof (rule wf_slot_cases[OF wf s(1,2)])
    fix h assume h: "slot t s = Item_head h"
    then show ?thesis
      using k s(3) rest get_head_slot[OF h s(1) le] wf_head(1)[OF wf s(1,2) h]
      by (simp add: log_index_get_order_lsn_def si l entry_def lsn_at_def)
  next
    fix g assume g: "slot t s = Item_seg g"
    then show ?thesis
      using k s(3) rest get_seg_slot[OF g s(1) le] wf_seg(2)[OF wf s(1,2) g]
      by (simp add: log_index_get_order_lsn_def si l entry_def lsn_at_def)
  qed
qed

lemma get_order_lsn_end:
  "last_order t \<le> k \<Longrightarrow> log_index_get_order_lsn t k = Inr (InvalidXLogRecPtr, None)"
  by (simp add: log_index_get_order_lsn_def)

text \<open>The head of a page, if the table has one, and the entries of the page.\<close>

lemma find_head_Some:
  assumes "find_head t n page \<noteq> 0"
  shows "1 \<le> find_head t n page" "find_head t n page < n"
    "is_head (slot t (find_head t n page))" "slot_tag (slot t (find_head t n page)) = page"
proof -
  let ?P = "\<lambda>s. is_head (slot t s) \<and> slot_tag (slot t s) = page"
  have ne: "filter ?P [1..<n] \<noteq> []" using assms by (auto simp: find_head_def last0_def)
  then have "find_head t n page = last (filter ?P [1..<n])" by (simp add: find_head_def last0_def)
  from last_filter_upt(1-3)[OF ne this]
  show "1 \<le> find_head t n page" "find_head t n page < n"
    "is_head (slot t (find_head t n page))" "slot_tag (slot t (find_head t n page)) = page"
    by blast+
qed

lemma find_head_None:
  assumes "find_head t n page = 0" "1 \<le> s" "s < n" "is_head (slot t s)"
  shows "slot_tag (slot t s) \<noteq> page"
proof
  let ?P = "\<lambda>s. is_head (slot t s) \<and> slot_tag (slot t s) = page"
  assume "slot_tag (slot t s) = page"
  then have "s \<in> set (filter ?P [1..<n])" using assms by simp
  then have ne: "filter ?P [1..<n] \<noteq> []" by (metis emptyE set_empty)
  from last_filter_upt(1)[OF this refl] assms(1) ne show False by (simp add: find_head_def last0_def)
qed

lemma tag_of_page_iff:
  assumes wf: "tbl_wf tag_hash n t" and s: "1 \<le> s" "s < n" and f: "find_head t n page = h" "h \<noteq> 0"
  shows "tag_of t s = page \<longleftrightarrow> head_id t s = h"
proof -
  have h: "1 \<le> h" "h < n" "is_head (slot t h)" "slot_tag (slot t h) = page"
    using find_head_Some[of t n page] f by simp_all
  note w = wf_head_id[OF wf s]
  show ?thesis
    using tbl_wfD(6)[OF wf w(1) _ h(1,2) w(3) h(3)] w(2) s(2) h(4) by (auto simp: tag_of_def)
qed

lemma page_log_positions:
  assumes wf: "tbl_wf tag_hash n t" and f: "find_head t n page = h" "h \<noteq> 0"
  shows "page_log page (tbl_log t) = map (entry t) (positions t n h)"
proof -
  have "filter (\<lambda>e. tag_of t (fst e) = page) (orders t) = filter (\<lambda>e. head_id t (fst e) = h) (orders t)"
    by (rule filter_cong[OF refl]) (use tag_of_page_iff[OF wf _ _ f] tbl_wfD(7)[OF wf] in blast)
  moreover have "filter (\<lambda>e. head_id t (fst e) = h) (orders t) = positions t n h"
    using tbl_wfD(9)[OF wf] find_head_Some[of t n page] f by simp
  ultimately show ?thesis
    by (simp add: page_log_def tbl_log_def filter_map o_def entry_def)
qed

lemma page_log_empty:
  assumes wf: "tbl_wf tag_hash n t" and f: "find_head t n page = 0"
  shows "page_log page (tbl_log t) = []"
proof -
  have "tag_of t (fst e) \<noteq> page" if "e \<in> set (orders t)" for e
    using tbl_wfD(7)[OF wf that] wf_head_id[OF wf, of "fst e"]
      find_head_None[OF f, of "head_id t (fst e)"] by (auto simp: tag_of_def)
  then show ?thesis by (auto simp: page_log_def tbl_log_def filter_empty_conv entry_def)
qed

end
