(* ===== verification/Log_Table_Insert.thy ===== *)
theory Log_Table_Insert
  imports Log_Table_Inv
begin

text \<open>
  The three ways to insert an LSN into a table (into the last segment of the page, into a new
  segment of the page, as a new page) keep the invariant of the table and append one entry to its
  contents.
\<close>

section \<open>Updates of one slot\<close>

definition put_slot :: "log_idx_table_data_t \<Rightarrow> log_seg_id_t \<Rightarrow> log_tbl_seg_t \<Rightarrow> log_idx_table_data_t" where
  "put_slot t s x = t\<lparr>segment := (segment t)(s - 1 := x)\<rparr>"

lemma put_slots: "put_head t s h = put_slot t s (Item_head h)" "put_seg t s g = put_slot t s (Item_seg g)"
  by (simp_all add: put_head_def put_seg_def put_slot_def)

lemma slot_put_slot [slot_simps]:
  "1 \<le> a \<Longrightarrow> 1 \<le> s \<Longrightarrow> slot (put_slot t s x) a = (if a = s then x else slot t a)"
  by (auto simp: slot_def put_slot_def)

lemma put_slot_fields [simp]:
  "idx_table_id (put_slot t s x) = idx_table_id t" "tbl_min_lsn (put_slot t s x) = tbl_min_lsn t"
  "tbl_max_lsn (put_slot t s x) = tbl_max_lsn t" "prefix_lsn (put_slot t s x) = prefix_lsn t"
  "last_order (put_slot t s x) = last_order t" "idx_order (put_slot t s x) = idx_order t"
  "tbl_hash (put_slot t s x) = tbl_hash t" "orders (put_slot t s x) = orders t"
  by (simp_all add: put_slot_def orders_def)

lemma slot_hash_update [simp]: "slot (t\<lparr>tbl_hash := f\<rparr>) s = slot t s"
  by (simp add: slot_def)

definition add_order :: "log_idx_table_data_t \<Rightarrow> uint16 \<Rightarrow> log_idx_table_data_t" where
  "add_order t v = t\<lparr>idx_order := (idx_order t)(last_order t := v), last_order := last_order t + 1\<rparr>"

lemma add_order_fields [simp]:
  "idx_table_id (add_order t v) = idx_table_id t" "tbl_min_lsn (add_order t v) = tbl_min_lsn t"
  "tbl_max_lsn (add_order t v) = tbl_max_lsn t" "prefix_lsn (add_order t v) = prefix_lsn t"
  "last_order (add_order t v) = Suc (last_order t)"
  "tbl_hash (add_order t v) = tbl_hash t" "slot (add_order t v) s = slot t s"
  by (simp_all add: add_order_def slot_def)

lemma orders_add_order:
  "orders (add_order t v) = orders t @ [(LOG_INDEX_SEG_ORDER v, LOG_INDEX_ID_ORDER v)]"
  by (simp add: orders_def add_order_def)

lemma ADD_ORDER_eq:
  assumes "s < LOG_INDEX_MEM_TBL_SEG_NUM" "i < 15"
  obtains v where "LOG_INDEX_MEM_TBL_ADD_ORDER t s i = Inr (add_order t v)"
    and "orders (add_order t v) = orders t @ [(s, i)]"
proof -
  have "unat (drop_bit LOG_INDEX_ORDER_IDX_SHIFT LOG_INDEX_ORDER_IDX_MASK) = 15"
    by (simp add: order_masks drop_bit_eq_div)
  then show thesis
    using assms order_round_trip[OF assms refl] orders_add_order that
    by (simp add: LOG_INDEX_MEM_TBL_ADD_ORDER_def add_order_def Let_def)
qed

section \<open>What depends on which part of the slots\<close>

lemma chain_cong:
  assumes "\<And>a. 1 \<le> a \<Longrightarrow> a < m \<Longrightarrow> head_id t' a = head_id t a"
  shows "chain t' m h = chain t m h"
  unfolding chain_def by (rule filter_cong[OF refl]) (simp add: assms)

lemma bucket_cong:
  assumes "\<And>a. 1 \<le> a \<Longrightarrow> a < m \<Longrightarrow> is_head (slot t' a) = is_head (slot t a)"
    and "\<And>a. 1 \<le> a \<Longrightarrow> a < m \<Longrightarrow> slot_tag (slot t' a) = slot_tag (slot t a)"
  shows "bucket tag_hash t' m key = bucket tag_hash t m key"
  unfolding bucket_def by (rule filter_cong[OF refl]) (simp add: assms)

lemma chain_Suc:
  "1 \<le> n \<Longrightarrow> chain t (Suc n) h = chain t n h @ (if head_id t n = h then [n] else [])"
  by (simp add: chain_def)

lemma bucket_Suc:
  "1 \<le> n \<Longrightarrow> bucket tag_hash t (Suc n) key = bucket tag_hash t n key @
     (if is_head (slot t n) \<and> LOG_INDEX_MEM_TBL_HASH_PAGE tag_hash (slot_tag (slot t n)) = key
      then [n] else [])"
  by (simp add: bucket_def)

text \<open>The part of a slot that stays when a chain grows.\<close>

fun core :: "log_tbl_seg_t \<Rightarrow> log_tbl_seg_t" where
  "core Seg_zero = Seg_zero"
| "core (Item_head h) = Item_head (h\<lparr>h_next_seg := 0, h_tail_seg := 0\<rparr>)"
| "core (Item_seg g) = Item_seg (g\<lparr>s_next_seg := 0\<rparr>)"

lemma core_eqD:
  assumes "core x = core y"
  shows "head_seg_of x = head_seg_of y" "is_head x = is_head y" "number_of x = number_of y"
    "suffix_of x = suffix_of y" "slot_tag x = slot_tag y"
    "y = Seg_zero \<Longrightarrow> x = Seg_zero"
    "y = Item_head h \<Longrightarrow> \<exists>k. x = Item_head k \<and> h_next_item k = h_next_item h \<and> h_prev_page_lsn k = h_prev_page_lsn h"
    "y = Item_seg g \<Longrightarrow> \<exists>k. x = Item_seg k \<and> s_prev_seg k = s_prev_seg g"
  using assms by (cases x; cases y; auto simp: log_item_head_t.defs log_item_seg_t.defs
      dest: arg_cong[where f = h_head_seg] arg_cong[where f = h_number] arg_cong[where f = h_suffix_lsn]
      arg_cong[where f = h_tag] arg_cong[where f = h_next_item] arg_cong[where f = h_prev_page_lsn]
      arg_cong[where f = s_head_seg] arg_cong[where f = s_number] arg_cong[where f = s_suffix_lsn]
      arg_cong[where f = s_prev_seg])+

definition same_core :: "nat \<Rightarrow> log_idx_table_data_t \<Rightarrow> log_idx_table_data_t \<Rightarrow> bool" where
  "same_core n t' t \<longleftrightarrow> prefix_lsn t' = prefix_lsn t
     \<and> (\<forall>a\<in>{1..<n}. core (slot t' a) = core (slot t a))"

lemma same_coreD:
  assumes "same_core n t' t" "1 \<le> a" "a < n"
  shows "core (slot t' a) = core (slot t a)" "head_id t' a = head_id t a"
    "is_head (slot t' a) = is_head (slot t a)" "number_of (slot t' a) = number_of (slot t a)"
    "suffix_of (slot t' a) = suffix_of (slot t a)" "slot_tag (slot t' a) = slot_tag (slot t a)"
  using assms core_eqD[of "slot t' a" "slot t a"] by (auto simp: same_core_def)

lemma same_core_lsn:
  "same_core n t' t \<Longrightarrow> 1 \<le> fst e \<Longrightarrow> fst e < n \<Longrightarrow> lsn_at t' e = lsn_at t e"
  using same_coreD(5)[of n t' t "fst e"]
  by (simp add: lsn_at_def same_core_def LOG_INDEX_COMBINE_LSN_def)

lemma wf_prev_seg:
  assumes "tbl_wf tag_hash n t" "1 \<le> s" "s < n" "slot t s = Item_seg g"
  shows "1 \<le> s_prev_seg g" "s_prev_seg g < s" "head_id t (s_prev_seg g) = s_head_seg g"
    "last (chain t n (s_head_seg g)) \<noteq> s_prev_seg g"
proof -
  note w = wf_seg[OF assms]
  note c = chain_last[OF assms(1) w(1,2) less_imp_le[OF assms(3)] w(3), folded w(4)]
  show "1 \<le> s_prev_seg g" "s_prev_seg g < s" "head_id t (s_prev_seg g) = s_head_seg g"
    using c(2-4) w(1) by auto
  have "head_id t s = s_head_seg g" using assms(4) by simp
  moreover have "s_head_seg g < n" using w(2) assms(3) by simp
  ultimately show "last (chain t n (s_head_seg g)) \<noteq> s_prev_seg g"
    using chain_last(5)[OF assms(1) w(1) _ le_refl w(3), of s] c(3) assms(3) by force
qed

lemma same_core_entry:
  assumes wf: "tbl_wf tag_hash n t" and sc: "same_core n t' t" and e: "1 \<le> fst e" "fst e < n"
  shows "entry t' e = entry t e"
proof -
  note w = wf_head_id[OF wf e]
  have tag: "tag_of t' (fst e) = tag_of t (fst e)"
    using same_coreD(2)[OF sc e] same_coreD(6)[OF sc w(1)] w(2) e(2) by (simp add: tag_of_def)
  have lsn: "lsn_at t' e = lsn_at t e" "lsn_at t' (fst e, snd e - 1) = lsn_at t (fst e, snd e - 1)"
    using same_core_lsn[OF sc] e by simp_all
  have "prev_at t' e = prev_at t e"
  proof (rule wf_slot_cases[OF wf e])
    fix h assume h: "slot t (fst e) = Item_head h"
    with core_eqD(7)[OF same_coreD(1)[OF sc e] h] show ?thesis using lsn by (auto simp: prev_at_def)
  next
    fix g assume g: "slot t (fst e) = Item_seg g"
    note p = wf_prev_seg[OF wf e g]
    have "lsn_at t' (s_prev_seg g, k) = lsn_at t (s_prev_seg g, k)" for k
      using same_core_lsn[OF sc, of "(s_prev_seg g, k)"] p e(2) by simp
    moreover have "number_of (slot t' (s_prev_seg g)) = number_of (slot t (s_prev_seg g))"
      using same_coreD(4)[OF sc p(1)] p(2) e(2) by simp
    ultimately show ?thesis
      using core_eqD(8)[OF same_coreD(1)[OF sc e] g] g lsn by (auto simp: prev_at_def)
  qed
  with tag lsn show ?thesis by (simp add: entry_def)
qed

lemma tbl_log_grow:
  assumes "orders t' = orders t @ [e]" "\<And>x. x \<in> set (orders t) \<Longrightarrow> entry t' x = entry t x"
  shows "tbl_log t' = tbl_log t @ [entry t' e]"
  using assms by (simp add: tbl_log_def)

section \<open>The positions of a page\<close>

lemma number_pos:
  assumes "tbl_wf tag_hash n t" "1 \<le> s" "s < n"
  shows "1 \<le> number_of (slot t s)" "number_of (slot t s) \<le> capacity (slot t s)"
    "number_of (slot t s) \<le> 10"
proof -
  have "1 \<le> number_of (slot t s) \<and> number_of (slot t s) \<le> capacity (slot t s)
      \<and> number_of (slot t s) \<le> 10"
  proof (rule wf_slot_cases[OF assms])
    fix h assume h: "slot t s = Item_head h"
    show ?thesis using wf_head(4,5)[OF assms h] h by (simp add: table_sizes)
  next
    fix g assume g: "slot t s = Item_seg g"
    show ?thesis using wf_seg(5,6)[OF assms g] g by (simp add: table_sizes)
  qed
  then show "1 \<le> number_of (slot t s)" "number_of (slot t s) \<le> capacity (slot t s)"
    "number_of (slot t s) \<le> 10" by blast+
qed

lemma positions_cong:
  assumes "chain t' n h = chain t n h" "\<And>s. s \<in> set (chain t n h) \<Longrightarrow> number_of (slot t' s) = number_of (slot t s)"
  shows "positions t' n h = positions t n h"
  unfolding positions_def assms(1) by (intro arg_cong[where f = concat] map_cong) (simp_all add: assms(2))

lemma set_chain: "s \<in> set (chain t n h) \<longleftrightarrow> 1 \<le> s \<and> s < n \<and> head_id t s = h"
  by (auto simp: chain_def)

lemma distinct_chain: "distinct (chain t n h)"
  by (simp add: chain_def)

lemma positions_last:
  assumes wf: "tbl_wf tag_hash n t" and h: "1 \<le> h" "h < n" "is_head (slot t h)"
  defines "s \<equiv> last (chain t n h)"
  shows "positions t n h \<noteq> []" "last (positions t n h) = (s, number_of (slot t s) - 1)"
proof -
  note c = chain_last[OF wf h(1,2) le_refl h(3)]
  have "1 \<le> s" "s < n" using c(2,3) h(1) by (simp_all add: s_def)
  then have pos: "1 \<le> number_of (slot t s)" by (rule number_pos[OF wf])
  have "chain t n h = butlast (chain t n h) @ [s]" using c(1) by (simp add: s_def)
  then have eq: "positions t n h = concat (map (\<lambda>s. map (Pair s) [0..<number_of (slot t s)])
      (butlast (chain t n h))) @ map (Pair s) [0..<number_of (slot t s)]"
    unfolding positions_def
    by (metis (no_types, lifting) append_Nil2 concat.simps concat_append list.simps(8,9) map_append)
  show "positions t n h \<noteq> []" "last (positions t n h) = (s, number_of (slot t s) - 1)"
    using pos unfolding eq by (auto simp: last_map)
qed

lemma page_log_last:
  assumes wf: "tbl_wf tag_hash n t" and f: "find_head t n page = h" "h \<noteq> 0"
  defines "s \<equiv> last (chain t n h)"
  shows "page_log page (tbl_log t) \<noteq> []"
    "li_lsn (last (page_log page (tbl_log t))) = lsn_at t (s, number_of (slot t s) - 1)"
proof -
  have h: "1 \<le> h" "h < n" "is_head (slot t h)" using find_head_Some[of t n page] f by simp_all
  note p = positions_last[OF wf h]
  show "page_log page (tbl_log t) \<noteq> []"
    "li_lsn (last (page_log page (tbl_log t))) = lsn_at t (s, number_of (slot t s) - 1)"
    unfolding page_log_positions[OF wf f] using p by (simp_all add: last_map entry_def s_def)
qed

section \<open>Appending to the last segment\<close>

fun bump :: "uint32 \<Rightarrow> log_tbl_seg_t \<Rightarrow> log_tbl_seg_t" where
  "bump v Seg_zero = Seg_zero"
| "bump v (Item_head h) = Item_head (h\<lparr>h_suffix_lsn := (h_suffix_lsn h)(h_number h := v),
     h_number := h_number h + 1\<rparr>)"
| "bump v (Item_seg g) = Item_seg (g\<lparr>s_suffix_lsn := (s_suffix_lsn g)(s_number g := v),
     s_number := s_number g + 1\<rparr>)"

lemma bump_simps [simp]:
  "head_seg_of (bump v x) = head_seg_of x" "is_head (bump v x) = is_head x"
  "slot_tag (bump v x) = slot_tag x"
  by (cases x; simp)+

lemma bump_number: "x \<noteq> Seg_zero \<Longrightarrow> number_of (bump v x) = Suc (number_of x)"
  by (cases x) auto

lemma bump_suffix: "x \<noteq> Seg_zero \<Longrightarrow> suffix_of (bump v x) = (suffix_of x)(number_of x := v)"
  by (cases x) auto

lemma seg_ok_cong:
  assumes "seg_ok tag_hash t n s" "chain t' n = chain t n" "chain t' s = chain t s"
    "\<And>key. bucket tag_hash t' s key = bucket tag_hash t s key"
    "\<And>a. 1 \<le> a \<Longrightarrow> a < s \<Longrightarrow> is_head (slot t' a) = is_head (slot t a)"
    "slot t' s = slot t s \<or> (\<exists>v. slot t' s = bump v (slot t s) \<and> number_of (slot t s) < capacity (slot t s)
       \<and> last (chain t n (head_id t s)) = s)"
  shows "seg_ok tag_hash t' n s"
proof (cases "slot t s")
  case Seg_zero
  then show ?thesis using assms(1) by (simp add: seg_ok.simps)
next
  case (Item_head h)
  then show ?thesis using assms by (auto simp: seg_ok.simps)
next
  case (Item_seg g)
  then show ?thesis using assms by (auto simp: seg_ok.simps)
qed

lemma positions_bump:
  assumes c: "chain t' n h = chain t n h" "chain t n h \<noteq> []" "last (chain t n h) = s"
    and num: "\<And>a. a \<in> set (chain t n h) \<Longrightarrow> a \<noteq> s \<Longrightarrow> number_of (slot t' a) = number_of (slot t a)"
      "number_of (slot t' s) = Suc (number_of (slot t s))"
  shows "positions t' n h = positions t n h @ [(s, number_of (slot t s))]"
proof -
  let ?b = "butlast (chain t n h)"
  have ch: "chain t n h = ?b @ [s]" using c(2,3) by (metis append_butlast_last_id)
  have "s \<notin> set ?b" using distinct_chain[of t n h] ch by (metis distinct_append disjoint_insert(1) list.simps(15))
  then have "number_of (slot t' a) = number_of (slot t a)" if "a \<in> set ?b" for a
    using num(1) in_set_butlastD[OF that] that by metis
  then have "map (\<lambda>a. map (Pair a) [0..<number_of (slot t' a)]) ?b = map (\<lambda>a. map (Pair a) [0..<number_of (slot t a)]) ?b"
    by simp
  then show ?thesis
    unfolding positions_def c(1) by (subst (1 2) ch) (simp add: num(2) del: map_eq_conv)
qed

lemma bump_frame:
  assumes "t' = add_order (put_slot t s (bump v (slot t s))) w" "1 \<le> s"
  shows "\<And>a. 1 \<le> a \<Longrightarrow> slot t' a = (if a = s then bump v (slot t s) else slot t a)"
    and "\<And>m. chain t' m = chain t m"
    and "\<And>m key. bucket tag_hash t' m key = bucket tag_hash t m key"
proof -
  show sl: "\<And>a. 1 \<le> a \<Longrightarrow> slot t' a = (if a = s then bump v (slot t s) else slot t a)"
    using assms by (simp add: slot_simps)
  show "\<And>m. chain t' m = chain t m"
    by (rule ext, rule chain_cong) (simp add: sl)
  show "\<And>m key. bucket tag_hash t' m key = bucket tag_hash t m key"
    by (rule bucket_cong) (simp_all add: sl)
qed

lemma bump_wf:
  assumes wf: "tbl_wf tag_hash n t" and h: "1 \<le> h" "h < n" "is_head (slot t h)"
    and s: "s = last (chain t n h)" and room: "number_of (slot t s) < capacity (slot t s)"
    and t': "t' = add_order (put_slot t s (bump v (slot t s))) w"
    and ord: "orders t' = orders t @ [(s, number_of (slot t s))]"
  shows "tbl_wf tag_hash n t'"
proof -
  note c = chain_last[OF wf h(1,2) le_refl h(3), folded s]
  have s1: "1 \<le> s" "s < n" using c(2,3) h(1) by simp_all
  note f = bump_frame[OF t' s1(1)]
  have nz: "slot t s \<noteq> Seg_zero" using number_pos(1)[OF wf s1] by (auto simp del: One_nat_def)
  have num: "1 \<le> a \<Longrightarrow> number_of (slot t' a) = number_of (slot t a) + (if a = s then 1 else 0)" for a
    using f(1)[of a] bump_number[OF nz] by simp
  have hid: "1 \<le> a \<Longrightarrow> head_id t' a = head_id t a" and ish: "1 \<le> a \<Longrightarrow> is_head (slot t' a) = is_head (slot t a)"
    and tg: "1 \<le> a \<Longrightarrow> slot_tag (slot t' a) = slot_tag (slot t a)" for a
    using f(1)[of a] by simp_all
  have segs: "seg_ok tag_hash t' n a" if "1 \<le> a" "a < n" for a
    by (rule seg_ok_cong[OF tbl_wfD(4)[OF wf that]])
      (use f(1)[of a] ish that room c(4) s in \<open>auto simp: f(2,3)\<close>)
  have pos: "filter (\<lambda>e. head_id t' (fst e) = k) (orders t') = positions t' n k"
    if k: "1 \<le> k" "k < n" "is_head (slot t k)" for k
  proof -
    have "filter (\<lambda>e. head_id t' (fst e) = k) (orders t) = filter (\<lambda>e. head_id t (fst e) = k) (orders t)"
      by (rule filter_cong[OF refl]) (use tbl_wfD(7)[OF wf] hid in simp)
    then have *: "filter (\<lambda>e. head_id t' (fst e) = k) (orders t') =
        positions t n k @ (if h = k then [(s, number_of (slot t s))] else [])"
      using tbl_wfD(9)[OF wf k] ord c(4) hid[OF s1(1)] by simp
    show ?thesis
    proof (cases "h = k")
      case True
      then show ?thesis using * positions_bump[of t' n k t s] f(2) c(1) s s1 num
        by (simp add: set_chain)
    next
      case False
      have "positions t' n k = positions t n k"
        by (rule positions_cong) (use f(2) num c(4) False in \<open>auto simp: set_chain\<close>)
      then show ?thesis using * False by simp
    qed
  qed
  show ?thesis
    unfolding tbl_wf_def
  proof (intro conjI ballI allI impI)
    show "slot t' a = Seg_zero" if "n \<le> a" for a
      using tbl_wfD(3)[OF wf that] f(1)[of a] that s1 by simp
    show "tbl_hash t' key = last0 (bucket tag_hash t' n key)" if "key < LOG_INDEX_MEM_TBL_HASH_NUM" for key
      using tbl_wfD(5)[OF wf that] f(3) by (simp add: t')
    show "inj_on (\<lambda>s. slot_tag (slot t' s)) {s \<in> {1..<n}. is_head (slot t' s)}"
      using tbl_wfD(6)[OF wf] by (auto simp: inj_on_def ish tg)
    show "fst e \<in> {1..<n}" "snd e < number_of (slot t' (fst e))" if "e \<in> set (orders t')" for e
      using that tbl_wfD(7)[OF wf, of e] s1 num[of "fst e"] by (auto simp: ord)
    show "distinct (orders t')"
      using tbl_wfD(7)[OF wf, of "(s, number_of (slot t s))"] tbl_wfD(8)[OF wf] by (auto simp: ord)
    show "filter (\<lambda>e. head_id t' (fst e) = k) (orders t') = positions t' n k"
      if "k \<in> {1..<n}" "is_head (slot t' k)" for k
      using pos that ish by simp
  qed (use segs tbl_wfD(1,2)[OF wf] in auto)
qed

lemma bump_log:
  assumes wf: "tbl_wf tag_hash n t" and h: "1 \<le> h" "h < n" "is_head (slot t h)"
    and s: "s = last (chain t n h)"
    and t': "t' = add_order (put_slot t s (bump v (slot t s))) w"
    and ord: "orders t' = orders t @ [(s, number_of (slot t s))]"
  shows "tbl_log t' = tbl_log t @ [\<lparr>li_tag = slot_tag (slot t h), li_lsn = LOG_INDEX_COMBINE_LSN t v,
    li_prev_lsn = lsn_at t (s, number_of (slot t s) - 1)\<rparr>]"
proof -
  note c = chain_last[OF wf h(1,2) le_refl h(3), folded s]
  have s1: "1 \<le> s" "s < n" using c(2,3) h(1) by simp_all
  note f = bump_frame[OF t' s1(1)]
  have pos: "1 \<le> number_of (slot t s)" by (rule number_pos[OF wf s1])
  then have nz: "slot t s \<noteq> Seg_zero" by auto
  have pre: "prefix_lsn t' = prefix_lsn t" by (simp add: t')
  have lsn: "lsn_at t' (a, i) = lsn_at t (a, i)" if "1 \<le> a" "a \<noteq> s \<or> i < number_of (slot t s)" for a i
    using that f(1)[of a] bump_suffix[OF nz, of v] pre by (auto simp: lsn_at_def LOG_INDEX_COMBINE_LSN_def)
  have tag: "1 \<le> a \<Longrightarrow> a < n \<Longrightarrow> tag_of t' a = tag_of t a" for a
    using wf_head_id(1)[OF wf, of a] f(1)[of a] f(1)[of "head_id t a"]
    by (cases "a = s") (simp_all add: tag_of_def)
  have prev: "prev_at t' (a, i) = prev_at t (a, i)" if a: "1 \<le> a" "a < n" and i: "i < number_of (slot t a)" for a i
  proof (rule wf_slot_cases[OF wf a])
    fix x assume "slot t a = Item_head x"
    then show ?thesis using f(1)[OF a(1)] lsn[of a "i - 1"] a i by (auto simp: prev_at_def)
  next
    fix g assume g: "slot t a = Item_seg g"
    note p = wf_prev_seg[OF wf a g]
    have "head_id t (s_prev_seg g) = h \<Longrightarrow> s_prev_seg g \<noteq> s" using p(3,4) s by auto
    then have "s_prev_seg g \<noteq> s" using c(4) by auto
    then have "lsn_at t' (s_prev_seg g, k) = lsn_at t (s_prev_seg g, k)"
      "slot t' (s_prev_seg g) = slot t (s_prev_seg g)" for k
      using lsn[OF p(1)] f(1)[OF p(1)] by simp_all
    then show ?thesis using f(1)[OF a(1)] g lsn[of a "i - 1"] a i by (auto simp: prev_at_def)
  qed
  have old: "entry t' x = entry t x" if "x \<in> set (orders t)" for x
    using tbl_wfD(7)[OF wf that] tag[of "fst x"] lsn[of "fst x" "snd x"] prev[of "fst x" "snd x"]
    by (auto simp: entry_def)
  have "lsn_at t' (s, number_of (slot t s)) = LOG_INDEX_COMBINE_LSN t v"
    using f(1)[OF s1(1)] bump_suffix[OF nz, of v] pre by (simp add: lsn_at_def LOG_INDEX_COMBINE_LSN_def)
  moreover have "prev_at t' (s, number_of (slot t s)) = lsn_at t (s, number_of (slot t s) - 1)"
    using pos lsn[OF s1(1), of "number_of (slot t s) - 1"] by (simp add: prev_at_def)
  moreover have "tag_of t' s = slot_tag (slot t h)"
    using tag[OF s1] c(4) by (simp add: tag_of_def)
  ultimately show ?thesis using tbl_log_grow[OF ord old] by (simp add: entry_def)
qed

section \<open>Taking a new slot\<close>

lemma same_core_chain:
  assumes "same_core n t' t" "m \<le> n"
  shows "chain t' m h = chain t m h" "bucket tag_hash t' m key = bucket tag_hash t m key"
  using assms same_coreD[OF assms(1)] by (auto intro!: chain_cong bucket_cong)

lemma positions_new:
  assumes sc: "same_core n t' t" and n: "1 \<le> n"
  shows "positions t' (Suc n) k = positions t n k @
    (if head_id t' n = k then map (Pair n) [0..<number_of (slot t' n)] else [])"
proof -
  have "map (\<lambda>s. map (Pair s) [0..<number_of (slot t' s)]) (chain t n k)
      = map (\<lambda>s. map (Pair s) [0..<number_of (slot t s)]) (chain t n k)"
    by (rule map_cong[OF refl]) (simp add: set_chain same_coreD(4)[OF sc])
  then show ?thesis
    using chain_Suc[OF n, of t' k] same_core_chain(1)[OF sc le_refl, of k]
    by (simp add: positions_def del: map_eq_conv)
qed

text \<open>
  What the two insertions that take the slot \<open>n\<close> have in common: the old slots keep their contents
  and the order array gets the first position of the new slot.
\<close>

lemma new_slot_wf:
  assumes wf: "tbl_wf tag_hash n t" and n: "n < LOG_INDEX_MEM_TBL_SEG_NUM"
    and sc: "same_core n t' t" and rest: "\<And>a. n < a \<Longrightarrow> slot t' a = Seg_zero"
    and ord: "orders t' = orders t @ [(n, 0)]" and num: "number_of (slot t' n) = 1"
    and ok: "\<And>a. 1 \<le> a \<Longrightarrow> a \<le> n \<Longrightarrow> seg_ok tag_hash t' (Suc n) a"
    and hash: "\<And>key. key < LOG_INDEX_MEM_TBL_HASH_NUM \<Longrightarrow>
      tbl_hash t' key = last0 (bucket tag_hash t' (Suc n) key)"
    and new: "is_head (slot t' n) \<Longrightarrow> find_head t n (slot_tag (slot t' n)) = 0"
  shows "tbl_wf tag_hash (Suc n) t'"
proof -
  note n1 = tbl_wfD(1)[OF wf]
  note c = same_coreD[OF sc]
  have old: "1 \<le> fst e \<and> fst e < n \<and> snd e < number_of (slot t (fst e))" if "e \<in> set (orders t)" for e
    using tbl_wfD(7)[OF wf that] .
  have pos: "filter (\<lambda>e. head_id t' (fst e) = k) (orders t') = positions t' (Suc n) k"
    if k: "1 \<le> k" "k < Suc n" "is_head (slot t' k)" for k
  proof -
    have "filter (\<lambda>e. head_id t' (fst e) = k) (orders t) = filter (\<lambda>e. head_id t (fst e) = k) (orders t)"
      by (rule filter_cong[OF refl]) (use old c(2) in simp)
    also have "\<dots> = positions t n k"
    proof (cases "k = n")
      case True
      have "head_id t a \<noteq> n" if "1 \<le> a" "a < n" for a using wf_head_id(2)[OF wf that] that by simp
      then have "filter (\<lambda>e. head_id t (fst e) = n) (orders t) = []" "positions t n n = []"
        using old by (auto simp: filter_empty_conv positions_def chain_def)
      with True show ?thesis by simp
    next
      case False
      then show ?thesis using tbl_wfD(9)[OF wf, of k] k c(3)[of k] by simp
    qed
    finally show ?thesis using positions_new[OF sc n1, of k] num by (simp add: ord)
  qed
  have inj: "a = b" if ab: "1 \<le> a" "a < Suc n" "1 \<le> b" "b < Suc n" and hh: "is_head (slot t' a)" "is_head (slot t' b)"
    and eq: "slot_tag (slot t' a) = slot_tag (slot t' b)" for a b
  proof -
    have no: "slot_tag (slot t' x) \<noteq> slot_tag (slot t' n)"
      if "1 \<le> x" "x < n" "is_head (slot t' x)" "is_head (slot t' n)" for x
      using find_head_None[OF new[OF that(4)] that(1,2)] c(3,6)[OF that(1,2)] that(3) by simp
    show ?thesis
      using tbl_wfD(6)[OF wf, of a b] c(3,6)[of a] c(3,6)[of b] no[of a] no[of b] ab hh eq
      by (metis less_Suc_eq)
  qed
  show ?thesis
    unfolding tbl_wf_def
  proof (intro conjI ballI allI impI)
    show "inj_on (\<lambda>s. slot_tag (slot t' s)) {s \<in> {1..<Suc n}. is_head (slot t' s)}"
      using inj by (auto simp: inj_on_def)
    show "fst e \<in> {1..<Suc n}" "snd e < number_of (slot t' (fst e))" if "e \<in> set (orders t')" for e
      using that old[of e] n1 c(4)[of "fst e"] num by (auto simp: ord)
    show "distinct (orders t')"
      using old[of "(n, 0)"] tbl_wfD(8)[OF wf] by (auto simp: ord)
  qed (use n rest ok hash pos in auto)
qed

lemma new_slot_log:
  assumes wf: "tbl_wf tag_hash n t" and sc: "same_core n t' t" and ord: "orders t' = orders t @ [(n, 0)]"
  shows "tbl_log t' = tbl_log t @ [entry t' (n, 0)]"
  using tbl_log_grow[OF ord] same_core_entry[OF wf sc] tbl_wfD(7)[OF wf] by blast

lemma new_seg_wf:
  assumes wf: "tbl_wf tag_hash n t" and n: "n < LOG_INDEX_MEM_TBL_SEG_NUM"
    and h: "1 \<le> h" "h < n" "is_head (slot t h)"
    and s: "s = last (chain t n h)" and full: "number_of (slot t s) = capacity (slot t s)"
    and sc: "same_core n t' t" and rest: "\<And>a. n < a \<Longrightarrow> slot t' a = Seg_zero"
    and ord: "orders t' = orders t @ [(n, 0)]"
    and g: "slot t' n = Item_seg g" "s_head_seg g = h" "s_prev_seg g = s" "s_number g = 1"
    and tail: "\<And>a x k. 1 \<le> a \<Longrightarrow> a < n \<Longrightarrow> slot t a = Item_head x \<Longrightarrow> slot t' a = Item_head k \<Longrightarrow>
      h_tail_seg k = (if a = h then n else h_tail_seg x)"
    and hash: "tbl_hash t' = tbl_hash t"
  shows "tbl_wf tag_hash (Suc n) t'"
proof (rule new_slot_wf[OF wf n sc rest ord])
  note n1 = tbl_wfD(1)[OF wf]
  note c = same_coreD[OF sc]
  note sch = same_core_chain[OF sc]
  have ch: "chain t' (Suc n) a = chain t n a @ (if a = h then [n] else [])" for a
    using chain_Suc[OF n1, of t' a] sch(1)[OF le_refl] g by auto
  show "number_of (slot t' n) = 1" using g by simp
  show "find_head t n (slot_tag (slot t' n)) = 0" if "is_head (slot t' n)" using that g by simp
  show "tbl_hash t' key = last0 (bucket tag_hash t' (Suc n) key)" if "key < LOG_INDEX_MEM_TBL_HASH_NUM" for key
    using tbl_wfD(5)[OF wf that] bucket_Suc[OF n1, of tag_hash t'] sch(2)[OF le_refl] g hash by simp
  show "seg_ok tag_hash t' (Suc n) a" if a: "1 \<le> a" "a \<le> n" for a
  proof (cases "a = n")
    case True
    have "is_head (slot t' h)" using c(3)[OF h(1,2)] h(3) by simp
    then show ?thesis using g h s ch True sch(1)[OF le_refl] by (simp add: seg_ok.simps table_sizes)
  next
    case False
    then have an: "a < n" using a by simp
    show ?thesis
    proof (rule wf_slot_cases[OF wf a(1) an])
      fix x assume x: "slot t a = Item_head x"
      note w = wf_head[OF wf a(1) an x]
      obtain k where k: "slot t' a = Item_head k" "h_next_item k = h_next_item x"
        using core_eqD(7)[OF c(1)[OF a(1) an] x] by blast
      have eqs: "h_head_seg k = a" "h_number k = h_number x" "h_tag k = h_tag x"
        using c(2,4,6)[OF a(1) an] x k w(1) by auto
      have "h_number x = 2" if "a = h"
        using that full x w(6) s by (cases "s = h") (auto simp: table_sizes)
      moreover have "bucket tag_hash t' a key = bucket tag_hash t a key" for key
        using sch(2) an by simp
      ultimately show ?thesis
        using k eqs w tail[OF a(1) an x k(1)] ch[of a] an by (auto simp: seg_ok.simps table_sizes)
    next
      fix x assume x: "slot t a = Item_seg x"
      note w = wf_seg[OF wf a(1) an x]
      obtain k where k: "slot t' a = Item_seg k" "s_prev_seg k = s_prev_seg x"
        using core_eqD(8)[OF c(1)[OF a(1) an] x] by blast
      have eqs: "s_head_seg k = s_head_seg x" "s_number k = s_number x"
        using c(2,4)[OF a(1) an] x k by auto
      have hx: "is_head (slot t' (s_head_seg x))" using c(3)[OF w(1)] w(2,3) an by simp
      have "s_number x = 10" if "s_head_seg x = h"
        using that full x w(7) s by (cases "s = a") (auto simp: table_sizes)
      moreover have "chain t' a key = chain t a key" for key
        using sch(1) an by simp
      ultimately show ?thesis
        using k eqs w hx ch[of "s_head_seg x"] an by (auto simp: seg_ok.simps table_sizes)
    qed
  qed
qed

lemma new_item_wf:
  assumes wf: "tbl_wf tag_hash n t" and n: "n < LOG_INDEX_MEM_TBL_SEG_NUM"
    and fresh: "find_head t n page = 0"
    and old: "\<And>a. 1 \<le> a \<Longrightarrow> a < n \<Longrightarrow> slot t' a = slot t a" "prefix_lsn t' = prefix_lsn t"
    and rest: "\<And>a. n < a \<Longrightarrow> slot t' a = Seg_zero"
    and ord: "orders t' = orders t @ [(n, 0)]"
    and k: "slot t' n = Item_head k" "h_head_seg k = n" "h_tail_seg k = n" "h_number k = 1" "h_tag k = page"
      "h_next_item k = tbl_hash t (LOG_INDEX_MEM_TBL_HASH_PAGE tag_hash page)"
    and hash: "tbl_hash t' = (tbl_hash t)(LOG_INDEX_MEM_TBL_HASH_PAGE tag_hash page := n)"
  shows "tbl_wf tag_hash (Suc n) t'"
proof -
  note n1 = tbl_wfD(1)[OF wf]
  have sc: "same_core n t' t" using old by (simp add: same_core_def)
  note sch = same_core_chain[OF sc]
  have ch: "chain t' (Suc n) a = chain t n a @ (if a = n then [n] else [])" for a
    using chain_Suc[OF n1, of t' a] sch(1)[OF le_refl] k by auto
  show ?thesis
  proof (rule new_slot_wf[OF wf n sc rest ord])
    show "number_of (slot t' n) = 1" using k by simp
    show "find_head t n (slot_tag (slot t' n)) = 0" using fresh k by simp
    show "tbl_hash t' key = last0 (bucket tag_hash t' (Suc n) key)" if "key < LOG_INDEX_MEM_TBL_HASH_NUM" for key
      using tbl_wfD(5)[OF wf that] bucket_Suc[OF n1, of tag_hash t' key] sch(2)[OF le_refl] k hash
      by (auto simp: last0_def)
    show "seg_ok tag_hash t' (Suc n) a" if a: "1 \<le> a" "a \<le> n" for a
    proof (cases "a = n")
      case True
      then show ?thesis
        using k ch[of n] sch(2)[OF le_refl] tbl_wfD(5)[OF wf hash_page_less]
        by (simp add: seg_ok.simps table_sizes)
    next
      case False
      then have an: "a < n" using a by simp
      have ok: "seg_ok tag_hash t n a" by (rule tbl_wfD(4)[OF wf a(1) an])
      have "bucket tag_hash t' a key = bucket tag_hash t a key" "chain t' a key = chain t a key" for key
        using sch an by simp_all
      then show ?thesis
        using ok old(1)[OF a(1) an] ch False an old(1)
        by (auto simp: seg_ok.simps split: log_tbl_seg_t.splits)
    qed
  qed
qed

section \<open>The insertions of the program\<close>

text \<open>The outcome of an insertion of \<open>info\<close> into the table \<open>t\<close>.\<close>

definition inserted ::
    "(BufferTag \<Rightarrow> uint32) \<Rightarrow> nat \<Rightarrow> log_idx_table_data_t \<Rightarrow> log_index_lsn_t \<Rightarrow> log_idx_table_data_t \<Rightarrow> bool" where
  "inserted tag_hash n t info t' \<longleftrightarrow> tbl_wf tag_hash n t' \<and> tbl_log t' = spec_insert (tbl_log t) info
     \<and> prefix_lsn t' = prefix_lsn t \<and> idx_table_id t' = idx_table_id t
     \<and> tbl_min_lsn t' = tbl_min_lsn t \<and> tbl_max_lsn t' = tbl_max_lsn t"

lemma spec_insert_known:
  "page_log (li_tag info) L \<noteq> [] \<Longrightarrow> spec_insert L info = L @ [\<lparr>li_tag = li_tag info,
     li_lsn = li_lsn info, li_prev_lsn = li_lsn (last (page_log (li_tag info) L))\<rparr>]"
  by (cases info) (simp add: spec_insert_def split: list.split)

lemma spec_insert_fresh: "page_log (li_tag info) L = [] \<Longrightarrow> spec_insert L info = L @ [info]"
  by (simp add: spec_insert_def)

lemma INSERT_LSN_INFO_eq:
  assumes "i = 0 \<or> LOG_INDEX_COMBINE_LSN t (suffix (i - 1)) < li_lsn info"
    and "LOG_INDEX_SAME_TABLE_LSN_PREFIX t (li_lsn info)"
  shows "LOG_INDEX_INSERT_LSN_INFO suffix i info =
    Inr (suffix(i := ucast (drop_bit 32 (push_bit 32 (li_lsn info)))))"
proof -
  let ?v = "ucast (drop_bit 32 (push_bit 32 (li_lsn info))) :: uint32"
  have v: "LOG_INDEX_COMBINE_LSN t ?v = li_lsn info" by (rule combine_split[OF assms(2)])
  have "i = 0 \<or> suffix (i - 1) < ?v"
    using assms(1) combine_less_iff[of t "suffix (i - 1)" ?v] unfolding v by blast
  then show ?thesis by (auto simp: LOG_INDEX_INSERT_LSN_INFO_def Let_def)
qed

lemma mem_seg_full_eq:
  assumes wf: "tbl_wf tag_hash n (tbl_data m)"
    and h: "1 \<le> h" "h < n" "is_head (slot (tbl_data m) h)"
    and s: "s = last (chain (tbl_data m) n h)"
  shows "log_index_mem_seg_full m h =
    Inr (number_of (slot (tbl_data m) s) = capacity (slot (tbl_data m) s))"
proof -
  let ?t = "tbl_data m"
  obtain x where x: "slot ?t h = Item_head x" using h(3) by (rule is_headE)
  note c = chain_last[OF wf h(1,2) le_refl h(3), folded s]
  have s1: "1 \<le> s" "s < n" using c(2,3) h(1) by simp_all
  have le: "h \<le> LOG_INDEX_MEM_TBL_SEG_NUM" "s \<le> LOG_INDEX_MEM_TBL_SEG_NUM"
    using tbl_wfD(2)[OF wf] h(2) s1 by simp_all
  note gh = get_head_slot[OF x h(1) le(1)]
  note tl = wf_head(3)[OF wf h(1,2) x, folded s]
  show ?thesis
  proof (cases "s = h")
    case True
    then show ?thesis using gh tl x h(1) by (simp add: log_index_mem_seg_full_def)
  next
    case False
    then obtain g where g: "slot ?t s = Item_seg g" using in_chain_cases(2)[OF wf s1 c(4)] by blast
    show ?thesis using gh tl False g get_seg_slot[OF g s1(1) le(2)] h(1)
      by (simp add: log_index_mem_seg_full_def)
  qed
qed

lemma append_lsn_eq:
  assumes wf: "tbl_wf tag_hash n (tbl_data m)"
    and h: "1 \<le> h" "h < n" "is_head (slot (tbl_data m) h)"
    and s: "s = last (chain (tbl_data m) n h)"
    and room: "number_of (slot (tbl_data m) s) < capacity (slot (tbl_data m) s)"
    and pre: "LOG_INDEX_SAME_TABLE_LSN_PREFIX (tbl_data m) (li_lsn info)"
    and gt: "lsn_at (tbl_data m) (s, number_of (slot (tbl_data m) s) - 1) < li_lsn info"
  shows "log_index_append_lsn m h info = Inr (number_of (slot (tbl_data m) s),
    m\<lparr>tbl_data := put_slot (tbl_data m) s
        (bump (ucast (drop_bit 32 (push_bit 32 (li_lsn info)))) (slot (tbl_data m) s))\<rparr>)"
proof -
  let ?t = "tbl_data m"
  obtain x where x: "slot ?t h = Item_head x" using h(3) by (rule is_headE)
  note c = chain_last[OF wf h(1,2) le_refl h(3), folded s]
  have s1: "1 \<le> s" "s < n" using c(2,3) h(1) by simp_all
  have le: "h \<le> LOG_INDEX_MEM_TBL_SEG_NUM" "s \<le> LOG_INDEX_MEM_TBL_SEG_NUM"
    using tbl_wfD(2)[OF wf] h(2) s1 by simp_all
  note gh = get_head_slot[OF x h(1) le(1)]
  note tl = wf_head(3)[OF wf h(1,2) x, folded s]
  have ins: "LOG_INDEX_INSERT_LSN_INFO (suffix_of (slot ?t s)) (number_of (slot ?t s)) info =
      Inr ((suffix_of (slot ?t s))(number_of (slot ?t s) := ucast (drop_bit 32 (push_bit 32 (li_lsn info)))))"
    by (rule INSERT_LSN_INFO_eq[OF _ pre]) (use gt in \<open>simp add: lsn_at_def\<close>)
  show ?thesis
  proof (cases "s = h")
    case True
    then show ?thesis using gh tl x h(1) ins room
      by (simp add: log_index_append_lsn_def put_slots Let_def)
  next
    case False
    then obtain g where g: "slot ?t s = Item_seg g" using in_chain_cases(2)[OF wf s1 c(4)] by blast
    show ?thesis using gh tl False g get_seg_slot[OF g s1(1) le(2)] h(1) ins room
      by (simp add: log_index_append_lsn_def put_slots Let_def)
  qed
qed

lemma insert_append_ok:
  assumes wf: "tbl_wf tag_hash n (tbl_data m)" and f: "find_head (tbl_data m) n (li_tag info) = h" "h \<noteq> 0"
    and nf: "log_index_mem_seg_full m h = Inr False"
    and pre: "LOG_INDEX_SAME_TABLE_LSN_PREFIX (tbl_data m) (li_lsn info)"
    and gt: "li_lsn (last (page_log (li_tag info) (tbl_log (tbl_data m)))) < li_lsn info"
  obtains t' where "insert_append m h info = Inr (m\<lparr>tbl_data := t'\<rparr>)" "inserted tag_hash n (tbl_data m) info t'"
proof -
  let ?t = "tbl_data m" and ?v = "ucast (drop_bit 32 (push_bit 32 (li_lsn info))) :: uint32"
  define s where "s = last (chain ?t n h)"
  define t1 where "t1 = put_slot ?t s (bump ?v (slot ?t s))"
  have h: "1 \<le> h" "h < n" "is_head (slot ?t h)" "slot_tag (slot ?t h) = li_tag info"
    using find_head_Some[of ?t n "li_tag info"] f by simp_all
  note c = chain_last[OF wf h(1,2) le_refl h(3), folded s_def]
  have s1: "1 \<le> s" "s < n" using c(2,3) h(1) by simp_all
  have room: "number_of (slot ?t s) < capacity (slot ?t s)"
    using mem_seg_full_eq[OF wf h(1-3) s_def] nf number_pos(2)[OF wf s1] by simp
  note pl = page_log_last[OF wf f, folded s_def]
  have ap: "log_index_append_lsn m h info = Inr (number_of (slot ?t s), m\<lparr>tbl_data := t1\<rparr>)"
    unfolding t1_def by (rule append_lsn_eq[OF wf h(1-3) s_def room pre]) (use gt pl in simp)
  obtain x where x: "slot ?t h = Item_head x" using h(3) by (rule is_headE)
  obtain y where y: "slot t1 h = Item_head y" "h_tail_seg y = s"
    using x wf_head(3)[OF wf h(1,2) x, folded s_def] h(1) s1(1)
    by (cases "h = s") (auto simp: t1_def slot_simps)
  have sn: "s < LOG_INDEX_MEM_TBL_SEG_NUM" "number_of (slot ?t s) < 15"
    using s1 tbl_wfD(2)[OF wf] number_pos(3)[OF wf s1] by simp_all
  obtain w where w: "LOG_INDEX_MEM_TBL_ADD_ORDER t1 s (number_of (slot ?t s)) = Inr (add_order t1 w)"
    "orders (add_order t1 w) = orders t1 @ [(s, number_of (slot ?t s))]"
    by (rule ADD_ORDER_eq[OF sn])
  have gh: "get_head t1 h = Inr y"
    by (rule get_head_slot[OF y(1) h(1)]) (use h(2) tbl_wfD(2)[OF wf] in simp)
  have run: "insert_append m h info = Inr (m\<lparr>tbl_data := add_order t1 w\<rparr>)"
    using ap gh y(2) w(1) by (simp add: insert_append_def)
  have o: "orders (add_order t1 w) = orders ?t @ [(s, number_of (slot ?t s))]"
    using w(2) by (simp add: t1_def)
  have t': "add_order t1 w = add_order (put_slot ?t s (bump ?v (slot ?t s))) w" by (simp add: t1_def)
  have "tbl_log (add_order t1 w) = spec_insert (tbl_log ?t) info"
    using bump_log[OF wf h(1-3) s_def t' o] h(4) pl(2) combine_split[OF pre] spec_insert_known[OF pl(1)]
    by simp
  then have "inserted tag_hash n ?t info (add_order t1 w)"
    using bump_wf[OF wf h(1-3) s_def room t' o] by (simp add: inserted_def t1_def)
  with run that show thesis by blast
qed

lemma free_slot_get:
  assumes "tbl_wf tag_hash n t" "n < LOG_INDEX_MEM_TBL_SEG_NUM"
  shows "get_head t n = Inr zero_head" "get_seg t n = Inr zero_seg"
  using assms tbl_wfD(1)[OF assms(1)] tbl_wfD(3)[OF assms(1) le_refl]
  by (simp_all add: get_head_def get_seg_def log_index_item_head_def log_index_item_seg_def
      LOG_INDEX_ITEM_HEAD_def slot_def)

lemma insert_new_item_ok:
  assumes wf: "tbl_wf tag_hash n (tbl_data m)" and n: "n < LOG_INDEX_MEM_TBL_SEG_NUM"
    and f: "find_head (tbl_data m) n (li_tag info) = 0"
    and pre: "LOG_INDEX_SAME_TABLE_LSN_PREFIX (tbl_data m) (li_lsn info)"
  obtains t' where "insert_at_dst m True h (LOG_INDEX_MEM_TBL_HASH_PAGE tag_hash (li_tag info)) n info
      = Inr (m\<lparr>tbl_data := t'\<rparr>)" "inserted tag_hash (Suc n) (tbl_data m) info t'"
proof -
  let ?t = "tbl_data m" and ?key = "LOG_INDEX_MEM_TBL_HASH_PAGE tag_hash (li_tag info)"
  let ?v = "ucast (drop_bit 32 (push_bit 32 (li_lsn info))) :: uint32"
  note n1 = tbl_wfD(1)[OF wf]
  define k where "k = \<lparr>h_head_seg = n, h_next_item = tbl_hash ?t ?key, h_next_seg = 0, h_tail_seg = n,
    h_tag = li_tag info, h_number = 1, h_prev_page_lsn = li_prev_lsn info, h_suffix_lsn = (\<lambda>_. 0)(0 := ?v)\<rparr>"
  define t1 where "t1 = (put_slot ?t n (Item_head k))\<lparr>tbl_hash := (tbl_hash ?t)(?key := n)\<rparr>"
  have ins: "LOG_INDEX_INSERT_LSN_INFO (\<lambda>_. 0) 0 info = Inr ((\<lambda>_. 0)(0 := ?v))"
    by (rule INSERT_LSN_INFO_eq[OF _ pre]) simp
  have run1: "log_index_insert_new_item info m ?key n = Inr (m\<lparr>tbl_data := t1\<rparr>)"
    using free_slot_get(1)[OF wf n] ins
    by (simp add: log_index_insert_new_item_def zero_head_def put_slots t1_def k_def Let_def)
  obtain w where w: "LOG_INDEX_MEM_TBL_ADD_ORDER t1 n 0 = Inr (add_order t1 w)"
    "orders (add_order t1 w) = orders t1 @ [(n, 0)]"
    by (rule ADD_ORDER_eq[of n 0]) (use n in auto)
  have sl: "slot (add_order t1 w) a = (if a = n then Item_head k else slot ?t a)" if "1 \<le> a" for a
    using that n1 slot_put_slot[of a n ?t "Item_head k"] by (simp add: t1_def)
  have o: "orders (add_order t1 w) = orders ?t @ [(n, 0)]"
    using w(2) by (simp add: t1_def orders_def)
  have pre': "prefix_lsn (add_order t1 w) = prefix_lsn ?t" by (simp add: t1_def)
  have wf': "tbl_wf tag_hash (Suc n) (add_order t1 w)"
    by (rule new_item_wf[OF wf n f _ pre' _ o])
      (use sl n1 tbl_wfD(3)[OF wf] in \<open>auto simp: k_def t1_def\<close>)
  have sc: "same_core n (add_order t1 w) ?t" using sl pre' by (simp add: same_core_def)
  have "entry (add_order t1 w) (n, 0) = info"
    using sl[OF n1] combine_split[OF pre] pre'
    by (simp add: entry_def tag_of_def lsn_at_def prev_at_def k_def LOG_INDEX_COMBINE_LSN_def)
  then have "tbl_log (add_order t1 w) = spec_insert (tbl_log ?t) info"
    using new_slot_log[OF wf sc o] spec_insert_fresh[OF page_log_empty[OF wf f]] by simp
  then have "inserted tag_hash (Suc n) ?t info (add_order t1 w)"
    using wf' by (simp add: inserted_def t1_def)
  moreover have "insert_at_dst m True h ?key n info = Inr (m\<lparr>tbl_data := add_order t1 w\<rparr>)"
    using run1 w(1) by (simp add: insert_at_dst_def)
  ultimately show thesis using that by blast
qed

text \<open>The table after \<open>log_index_insert_new_seg\<close>, by its slots.\<close>

definition seg_added ::
    "log_idx_table_data_t \<Rightarrow> nat \<Rightarrow> log_seg_id_t \<Rightarrow> log_seg_id_t \<Rightarrow> uint32 \<Rightarrow> log_idx_table_data_t \<Rightarrow> bool" where
  "seg_added t n h s v t' \<longleftrightarrow>
     slot t' n = Item_seg \<lparr>s_head_seg = h, s_next_seg = 0, s_prev_seg = s, s_number = 1,
                   s_suffix_lsn = (\<lambda>_. 0)(0 := v)\<rparr>
   \<and> (\<forall>a>n. slot t' a = Seg_zero)
   \<and> (\<forall>a\<in>{1..<n}. core (slot t' a) = core (slot t a))
   \<and> (\<forall>a\<in>{1..<n}. \<forall>y k. slot t a = Item_head y \<longrightarrow> slot t' a = Item_head k \<longrightarrow>
        h_tail_seg k = (if a = h then n else h_tail_seg y))
   \<and> orders t' = orders t \<and> tbl_hash t' = tbl_hash t
   \<and> prefix_lsn t' = prefix_lsn t \<and> idx_table_id t' = idx_table_id t
   \<and> tbl_min_lsn t' = tbl_min_lsn t \<and> tbl_max_lsn t' = tbl_max_lsn t"

lemma insert_new_seg_eq:
  assumes wf: "tbl_wf tag_hash n (tbl_data m)" and n: "n < LOG_INDEX_MEM_TBL_SEG_NUM"
    and x: "slot (tbl_data m) h = Item_head x" "1 \<le> h" "h < n"
    and s: "s = last (chain (tbl_data m) n h)"
    and pre: "LOG_INDEX_SAME_TABLE_LSN_PREFIX (tbl_data m) (li_lsn info)"
  defines "v \<equiv> ucast (drop_bit 32 (push_bit 32 (li_lsn info))) :: uint32"
  obtains t' where "log_index_insert_new_seg m h n info = Inr (m\<lparr>tbl_data := t'\<rparr>)"
    "seg_added (tbl_data m) n h s v t'"
proof -
  let ?t = "tbl_data m"
  define g where "g = \<lparr>s_head_seg = h, s_next_seg = 0, s_prev_seg = s, s_number = 1, s_suffix_lsn = (\<lambda>_. 0)(0 := v)\<rparr>"
  note n1 = tbl_wfD(1)[OF wf]
  have ih: "is_head (slot ?t h)" using x by simp
  note c = chain_last[OF wf x(2,3) le_refl ih, folded s]
  have s1: "1 \<le> s" "s < n" using c(2,3) x(2) by simp_all
  note tl = wf_head(3)[OF wf x(2,3,1), folded s]
  have gh: "get_head ?t h = Inr x" by (rule get_head_slot[OF x(1,2)]) (use x n in simp)
  have ins: "LOG_INDEX_INSERT_LSN_INFO (\<lambda>_. 0) 0 info = Inr ((\<lambda>_. 0)(0 := v))"
    unfolding v_def by (rule INSERT_LSN_INFO_eq[OF _ pre]) simp
  have z: "\<And>a. n < a \<Longrightarrow> slot ?t a = Seg_zero" using tbl_wfD(3)[OF wf] by simp
  show thesis
  proof (cases "s = h")
    case True
    define t' where "t' = put_slot (put_slot (put_slot ?t h (Item_head (x\<lparr>h_next_seg := n\<rparr>))) h
      (Item_head (x\<lparr>h_next_seg := n, h_tail_seg := n\<rparr>))) n (Item_seg g)"
    have "slot (put_slot ?t h (Item_head (x\<lparr>h_next_seg := n\<rparr>))) h = Item_head (x\<lparr>h_next_seg := n\<rparr>)"
      using x by (simp add: slot_simps)
    then have gh': "get_head (put_slot ?t h (Item_head (x\<lparr>h_next_seg := n\<rparr>))) h = Inr (x\<lparr>h_next_seg := n\<rparr>)"
      by (rule get_head_slot) (use x n in auto)
    have "log_index_insert_new_seg m h n info = Inr (m\<lparr>tbl_data := t'\<rparr>)"
      using gh gh' free_slot_get(2)[OF wf n] tl True ins
      by (simp add: log_index_insert_new_seg_def put_slots t'_def g_def zero_seg_def)
    moreover have "seg_added ?t n h s v t'"
      unfolding seg_added_def
    proof (intro conjI ballI allI impI)
      show "core (slot t' a) = core (slot ?t a)" if "a \<in> {1..<n}" for a
        using that x n1 by (auto simp: t'_def slot_simps)
    qed (use x n1 z in \<open>auto simp: t'_def slot_simps g_def split: if_splits\<close>)
    ultimately show thesis by (rule that)
  next
    case False
    then obtain p where p: "slot ?t s = Item_seg p" using in_chain_cases(2)[OF wf s1 c(4)] by blast
    define t1 where "t1 = put_slot ?t s (Item_seg (p\<lparr>s_next_seg := n\<rparr>))"
    define t' where "t' = put_slot (put_slot t1 h (Item_head (x\<lparr>h_tail_seg := n\<rparr>))) n (Item_seg g)"
    have "slot t1 h = Item_head x" using x s1 False by (simp add: slot_simps t1_def)
    then have gh': "get_head t1 h = Inr x" by (rule get_head_slot) (use x n in auto)
    have gs: "get_seg ?t s = Inr p" by (rule get_seg_slot[OF p s1(1)]) (use s1 n in simp)
    have "log_index_insert_new_seg m h n info = Inr (m\<lparr>tbl_data := t'\<rparr>)"
      using gh gh' gs free_slot_get(2)[OF wf n] tl False ins
      by (simp add: log_index_insert_new_seg_def put_slots t'_def t1_def g_def zero_seg_def)
    moreover have "seg_added ?t n h s v t'"
      unfolding seg_added_def
    proof (intro conjI ballI allI impI)
      show "core (slot t' a) = core (slot ?t a)" if "a \<in> {1..<n}" for a
        using that x n1 p s1 by (auto simp: t'_def t1_def slot_simps)
    qed (use x n1 z p s1 in \<open>auto simp: t'_def t1_def slot_simps g_def split: if_splits\<close>)
    ultimately show thesis by (rule that)
  qed
qed

lemma insert_new_seg_ok:
  assumes wf: "tbl_wf tag_hash n (tbl_data m)" and n: "n < LOG_INDEX_MEM_TBL_SEG_NUM"
    and f: "find_head (tbl_data m) n (li_tag info) = h" "h \<noteq> 0"
    and full: "log_index_mem_seg_full m h = Inr True"
    and pre: "LOG_INDEX_SAME_TABLE_LSN_PREFIX (tbl_data m) (li_lsn info)"
  obtains t' where "insert_at_dst m False h key n info = Inr (m\<lparr>tbl_data := t'\<rparr>)"
    "inserted tag_hash (Suc n) (tbl_data m) info t'"
proof -
  let ?t = "tbl_data m" and ?v = "ucast (drop_bit 32 (push_bit 32 (li_lsn info))) :: uint32"
  define s where "s = last (chain ?t n h)"
  note n1 = tbl_wfD(1)[OF wf]
  have h: "1 \<le> h" "h < n" "is_head (slot ?t h)" "slot_tag (slot ?t h) = li_tag info"
    using find_head_Some[of ?t n "li_tag info"] f by simp_all
  obtain x where x: "slot ?t h = Item_head x" using h(3) by (rule is_headE)
  note c = chain_last[OF wf h(1,2) le_refl h(3), folded s_def]
  have s1: "1 \<le> s" "s < n" using c(2,3) h(1) by simp_all
  have fl: "number_of (slot ?t s) = capacity (slot ?t s)"
    using mem_seg_full_eq[OF wf h(1-3) s_def] full by simp
  obtain t1 where run: "log_index_insert_new_seg m h n info = Inr (m\<lparr>tbl_data := t1\<rparr>)"
    and t1: "seg_added ?t n h s ?v t1"
    by (rule insert_new_seg_eq[OF wf n x h(1,2) s_def pre])
  note r1 = t1[unfolded seg_added_def, THEN conjunct1]
  note q2 = t1[unfolded seg_added_def, THEN conjunct2] note r2 = q2[THEN conjunct1]
  note q3 = q2[THEN conjunct2] note r3 = q3[THEN conjunct1]
  note q4 = q3[THEN conjunct2] note r4 = q4[THEN conjunct1]
  note fs = q4[THEN conjunct2]
  have z: "slot t1 a = Seg_zero" if "n < a" for a using r2 that by blast
  have co: "core (slot t1 a) = core (slot ?t a)" if "1 \<le> a" "a < n" for a
    using r3 that by (meson atLeastLessThan_iff)
  have tl: "h_tail_seg k = (if a = h then n else h_tail_seg y)"
    if "1 \<le> a" "a < n" "slot ?t a = Item_head y" "slot t1 a = Item_head k" for a y k
    using r4 that by (meson atLeastLessThan_iff)
  obtain w where w: "LOG_INDEX_MEM_TBL_ADD_ORDER t1 n 0 = Inr (add_order t1 w)"
    "orders (add_order t1 w) = orders t1 @ [(n, 0)]"
    by (rule ADD_ORDER_eq[of n 0]) (use n in auto)
  let ?t' = "add_order t1 w"
  have o: "orders ?t' = orders ?t @ [(n, 0)]" using w(2) fs by simp
  have sc: "same_core n ?t' ?t" using co fs by (simp add: same_core_def)
  have r1': "slot ?t' n = Item_seg \<lparr>s_head_seg = h, s_next_seg = 0, s_prev_seg = s, s_number = 1,
      s_suffix_lsn = (\<lambda>_. 0)(0 := ?v)\<rparr>" using r1 by simp
  have wf': "tbl_wf tag_hash (Suc n) ?t'"
  proof (rule new_seg_wf[OF wf n h(1-3) s_def fl sc _ o r1'])
    show "h_tail_seg k = (if a = h then n else h_tail_seg y)"
      if "1 \<le> a" "a < n" "slot ?t a = Item_head y" "slot ?t' a = Item_head k" for a y k
      using tl[OF that(1-3)] that(4) by simp
  qed (simp_all add: r1 z fs)
  have "entry ?t' (n, 0) = \<lparr>li_tag = li_tag info, li_lsn = li_lsn info,
      li_prev_lsn = lsn_at ?t (s, number_of (slot ?t s) - 1)\<rparr>"
    using r1 fs combine_split[OF pre] h same_coreD(6)[OF sc h(1,2)] same_coreD(4,5)[OF sc s1]
    by (simp add: entry_def tag_of_def lsn_at_def prev_at_def LOG_INDEX_COMBINE_LSN_def)
  then have "tbl_log ?t' = spec_insert (tbl_log ?t) info"
    using new_slot_log[OF wf sc o] page_log_last[OF wf f, folded s_def] spec_insert_known by simp
  then have "inserted tag_hash (Suc n) ?t info ?t'"
    using wf' fs by (simp add: inserted_def)
  moreover have "insert_at_dst m False h key n info = Inr (m\<lparr>tbl_data := ?t'\<rparr>)"
    using run w(1) by (simp add: insert_at_dst_def)
  ultimately show thesis using that by blast
qed

section \<open>The pages of a table\<close>

text \<open>Logs as the server makes them: the previous LSN of the first entry of a page is invalid.\<close>

definition no_prev :: "log_index_lsn_t list \<Rightarrow> bool" where
  "no_prev L \<longleftrightarrow> (\<forall>page. page_log page L \<noteq> [] \<longrightarrow> li_prev_lsn (hd (page_log page L)) = InvalidXLogRecPtr)"

lemma tbl_find_eq:
  assumes "tbl_wf th n t"
  shows "log_index_tbl_find page t (LOG_INDEX_MEM_TBL_HASH_PAGE th page) =
    Some (Inr (if find_head t n page = 0 then None else Some (find_head t n page - 1)))"
proof -
  have "find_head t n page \<le> LOG_INDEX_MEM_TBL_SEG_NUM"
    using find_head_Some(2)[of t n page] tbl_wfD(2)[OF assms] by (cases "find_head t n page = 0") auto
  then show ?thesis
    using exists_page_find[OF assms]
    by (simp add: log_index_tbl_find_def log_index_item_head_def LOG_INDEX_ITEM_HEAD_def)
qed

lemma item_bounds:
  assumes wf: "tbl_wf th n t" and f: "find_head t n page = h" "h \<noteq> 0" and x: "slot t h = Item_head x"
  shows "log_index_item_max_lsn t x = Inr (li_lsn (last (page_log page (tbl_log t))))"
    "LOG_INDEX_COMBINE_LSN t (h_suffix_lsn x 0) = li_lsn (hd (page_log page (tbl_log t)))"
    "h_prev_page_lsn x = li_prev_lsn (hd (page_log page (tbl_log t)))"
proof -
  have h: "1 \<le> h" "h < n" "is_head (slot t h)" using find_head_Some[of t n page] f by simp_all
  define s where "s = last (chain t n h)"
  note c = chain_last[OF wf h(1,2) le_refl h(3), folded s_def]
  have s1: "1 \<le> s" "s < n" using c(2,3) h(1) by simp_all
  have le: "s \<le> LOG_INDEX_MEM_TBL_SEG_NUM" using s1 tbl_wfD(2)[OF wf] by simp
  note pl = page_log_last[OF wf f, folded s_def]
  note w = wf_head[OF wf h(1,2) x, folded s_def]
  show "log_index_item_max_lsn t x = Inr (li_lsn (last (page_log page (tbl_log t))))"
  proof (cases "s = h")
    case True
    then show ?thesis using w(1,3) x pl(2) by (simp add: log_index_item_max_lsn_def lsn_at_def)
  next
    case False
    then obtain g where g: "slot t s = Item_seg g" using in_chain_cases(2)[OF wf s1 c(4)] by blast
    show ?thesis using w(1,3) False get_seg_slot[OF g s1(1) le] g pl(2)
      by (simp add: log_index_item_max_lsn_def lsn_at_def)
  qed
  have "hd (positions t n h) = (h, 0)" "positions t n h \<noteq> []"
  proof -
    have "head_id t a \<noteq> h" if "1 \<le> a" "a < h" for a using wf_head_id(2)[OF wf that(1)] that h(2) by simp
    then have "chain t h h = []" by (auto simp: chain_def filter_empty_conv)
    moreover have "[1..<n] = [1..<h] @ h # [Suc h..<n]"
      using h(1,2) by (metis le_add_diff_inverse less_imp_le upt_add_eq_append upt_conv_Cons)
    ultimately have "chain t n h = h # filter (\<lambda>s. head_id t s = h) [Suc h..<n]"
      using wf_head_id(4)[OF wf h(1,2)] h(3) by (simp add: chain_def)
    then show "hd (positions t n h) = (h, 0)" "positions t n h \<noteq> []"
      using number_pos(1)[OF wf h(1,2)] by (auto simp: positions_def upt_conv_Cons)
  qed
  then show "LOG_INDEX_COMBINE_LSN t (h_suffix_lsn x 0) = li_lsn (hd (page_log page (tbl_log t)))"
    "h_prev_page_lsn x = li_prev_lsn (hd (page_log page (tbl_log t)))"
    using x unfolding page_log_positions[OF wf f] by (simp_all add: hd_map entry_def lsn_at_def prev_at_def)
qed

lemma sorted_hd_last:
  assumes "sorted_wrt (<) (map (f :: _ \<Rightarrow> XLogRecPtr) xs)"
  shows "\<forall>e\<in>set xs. f (hd xs) \<le> f e" "\<forall>e\<in>set xs. f e \<le> f (last xs)"
proof -
  show "\<forall>e\<in>set xs. f (hd xs) \<le> f e" using assms by (cases xs) auto
  show "\<forall>e\<in>set xs. f e \<le> f (last xs)"
    using assms by (cases xs rule: rev_cases) (auto simp: sorted_wrt_append)
qed

end
