(* ===== verification/Hash_Fn.thy ===== *)
theory Hash_Fn
  imports Polar_Prelude
begin

text \<open>
  The hash functions of \<open>common/hashfn.c\<close> on a little-endian machine: \<open>hash_bytes\<close> and
  \<open>hash_bytes_extended\<close> with their word-aligned and unaligned code paths, the shortcuts for 32 bit
  keys, and the wrappers the hash tables use. The results: both code paths compute the same hash,
  the mixing step can be undone, the 64 bit hash without seed extends the 32 bit hash, and the
  shortcuts agree with the general functions.
\<close>

section \<open>Mixing\<close>

definition pg_rotate_left32 :: "uint32 \<Rightarrow> nat \<Rightarrow> uint32" where
  "pg_rotate_left32 word n = push_bit n word OR drop_bit (32 - n) word"

type_synonym hash_state = "uint32 \<times> uint32 \<times> uint32"

definition mix :: "hash_state \<Rightarrow> hash_state" where
  "mix s = (case s of (a, b, c) \<Rightarrow>
    (let a = a - c; a = a XOR pg_rotate_left32 c 4; c = c + b;
         b = b - a; b = b XOR pg_rotate_left32 a 6; a = a + c;
         c = c - b; c = c XOR pg_rotate_left32 b 8; b = b + a;
         a = a - c; a = a XOR pg_rotate_left32 c 16; c = c + b;
         b = b - a; b = b XOR pg_rotate_left32 a 19; a = a + c;
         c = c - b; c = c XOR pg_rotate_left32 b 4; b = b + a
     in (a, b, c)))"

definition final :: "hash_state \<Rightarrow> hash_state" where
  "final s = (case s of (a, b, c) \<Rightarrow>
    (let c = c XOR b; c = c - pg_rotate_left32 b 14;
         a = a XOR c; a = a - pg_rotate_left32 c 11;
         b = b XOR a; b = b - pg_rotate_left32 a 25;
         c = c XOR b; c = c - pg_rotate_left32 b 16;
         a = a XOR c; a = a - pg_rotate_left32 c 4;
         b = b XOR a; b = b - pg_rotate_left32 a 14;
         c = c XOR b; c = c - pg_rotate_left32 b 24
     in (a, b, c)))"

section \<open>The two code paths\<close>

text \<open>\<open>(uint32) k[i] << n\<close>\<close>

definition shifted :: "uint8 list \<Rightarrow> nat \<Rightarrow> nat \<Rightarrow> uint32" where
  "shifted k i n = push_bit n (ucast (k ! i))"

text \<open>\<open>ka[i]\<close> for the key read as an array of 32 bit words.\<close>

definition word_at :: "uint8 list \<Rightarrow> nat \<Rightarrow> uint32" where
  "word_at k i = le_word (take 4 (drop (4 * i) k))"

function aligned_loop :: "hash_state \<Rightarrow> uint8 list \<Rightarrow> hash_state \<times> uint8 list" where
  "aligned_loop (a, b, c) k =
    (if length k \<ge> 12
     then aligned_loop (mix (a + word_at k 0, b + word_at k 1, c + word_at k 2)) (drop 12 k)
     else ((a, b, c), k))"
  by pat_completeness auto
termination by (relation "measure (\<lambda>(_, k). length k)") auto

text \<open>The switch on the number of bytes left; a case without \<open>break\<close> runs into the next one.\<close>

definition aligned_tail :: "hash_state \<Rightarrow> uint8 list \<Rightarrow> hash_state" where
  "aligned_tail s k = (case s of (a, b, c) \<Rightarrow>
    (let len = length k;
         c = (if len \<ge> 11 then c + shifted k 10 24 else c);
         c = (if len \<ge> 10 then c + shifted k 9 16 else c);
         c = (if len \<ge> 9 then c + shifted k 8 8 else c)
     in if len \<ge> 8 then (a + word_at k 0, b + word_at k 1, c)
        else
          let b = (if len \<ge> 7 then b + shifted k 6 16 else b);
              b = (if len \<ge> 6 then b + shifted k 5 8 else b);
              b = (if len \<ge> 5 then b + ucast (k ! 4) else b)
          in if len \<ge> 4 then (a + word_at k 0, b, c)
             else
               let a = (if len \<ge> 3 then a + shifted k 2 16 else a);
                   a = (if len \<ge> 2 then a + shifted k 1 8 else a);
                   a = (if len \<ge> 1 then a + ucast (k ! 0) else a)
               in (a, b, c)))"

function unaligned_loop :: "hash_state \<Rightarrow> uint8 list \<Rightarrow> hash_state \<times> uint8 list" where
  "unaligned_loop (a, b, c) k =
    (if length k \<ge> 12
     then unaligned_loop (mix
       (a + (ucast (k ! 0) + shifted k 1 8 + shifted k 2 16 + shifted k 3 24),
        b + (ucast (k ! 4) + shifted k 5 8 + shifted k 6 16 + shifted k 7 24),
        c + (ucast (k ! 8) + shifted k 9 8 + shifted k 10 16 + shifted k 11 24))) (drop 12 k)
     else ((a, b, c), k))"
  by pat_completeness auto
termination by (relation "measure (\<lambda>(_, k). length k)") auto

definition unaligned_tail :: "hash_state \<Rightarrow> uint8 list \<Rightarrow> hash_state" where
  "unaligned_tail s k = (case s of (a, b, c) \<Rightarrow>
    (let len = length k;
         c = (if len \<ge> 11 then c + shifted k 10 24 else c);
         c = (if len \<ge> 10 then c + shifted k 9 16 else c);
         c = (if len \<ge> 9 then c + shifted k 8 8 else c);
         b = (if len \<ge> 8 then b + shifted k 7 24 else b);
         b = (if len \<ge> 7 then b + shifted k 6 16 else b);
         b = (if len \<ge> 6 then b + shifted k 5 8 else b);
         b = (if len \<ge> 5 then b + ucast (k ! 4) else b);
         a = (if len \<ge> 4 then a + shifted k 3 24 else a);
         a = (if len \<ge> 3 then a + shifted k 2 16 else a);
         a = (if len \<ge> 2 then a + shifted k 1 8 else a);
         a = (if len \<ge> 1 then a + ucast (k ! 0) else a)
     in (a, b, c)))"

declare aligned_loop.simps [simp del] unaligned_loop.simps [simp del]

section \<open>The hash functions\<close>

definition hash_init :: "nat \<Rightarrow> uint32" where
  "hash_init len = 0x9e3779b9 + of_nat len + 3923095"

text \<open>\<open>aligned\<close> tells whether the address of the key is a multiple of four.\<close>

definition hash_bytes :: "bool \<Rightarrow> uint8 list \<Rightarrow> uint32" where
  "hash_bytes aligned k =
    (let i = hash_init (length k);
         (s, rest) = (if aligned then aligned_loop (i, i, i) k else unaligned_loop (i, i, i) k);
         s = (if aligned then aligned_tail s rest else unaligned_tail s rest);
         (a, b, c) = final s
     in c)"

definition hash_bytes_extended :: "bool \<Rightarrow> uint8 list \<Rightarrow> uint64 \<Rightarrow> uint64" where
  "hash_bytes_extended aligned k seed =
    (let i = hash_init (length k);
         s = (if seed \<noteq> 0 then mix (i + ucast (drop_bit 32 seed), i + ucast seed, i) else (i, i, i));
         (s, rest) = (if aligned then aligned_loop s k else unaligned_loop s k);
         s = (if aligned then aligned_tail s rest else unaligned_tail s rest);
         (a, b, c) = final s
     in push_bit 32 (ucast b) OR ucast c)"

definition hash_bytes_uint32 :: "uint32 \<Rightarrow> uint32" where
  "hash_bytes_uint32 k =
    (let i = 0x9e3779b9 + 4 + 3923095;
         (a, b, c) = final (i + k, i, i)
     in c)"

definition hash_bytes_uint32_extended :: "uint32 \<Rightarrow> uint64 \<Rightarrow> uint64" where
  "hash_bytes_uint32_extended k seed =
    (let i = 0x9e3779b9 + 4 + 3923095;
         (a, b, c) = (if seed \<noteq> 0 then mix (i + ucast (drop_bit 32 seed), i + ucast seed, i) else (i, i, i));
         (a, b, c) = final (a + k, b, c)
     in push_bit 32 (ucast b) OR ucast c)"

text \<open>The key of \<open>string_hash\<close> is the memory at the pointer; the string ends at its first zero byte.\<close>

definition string_hash :: "bool \<Rightarrow> uint8 list \<Rightarrow> nat \<Rightarrow> uint32" where
  "string_hash aligned key keysize =
    (let s_len = length (takeWhile (\<lambda>b. b \<noteq> 0) key);
         s_len = min s_len (keysize - 1)
     in hash_bytes aligned (take s_len key))"

definition tag_hash :: "bool \<Rightarrow> uint8 list \<Rightarrow> nat \<Rightarrow> uint32" where
  "tag_hash aligned key keysize = hash_bytes aligned (take keysize key)"

definition uint32_hash :: "uint8 list \<Rightarrow> uint32" where
  "uint32_hash key = hash_bytes_uint32 (word_at key 0)"

section \<open>Words from bytes\<close>

lemma bit_shifted: "bit (shifted k i n) j \<longleftrightarrow> n \<le> j \<and> j < 32 \<and> bit (k ! i) (j - n)"
  by (auto simp: shifted_def bit_simps)

lemma le_word_4:
  "le_word [b0, b1, b2, b3] =
    (ucast b0 + push_bit 8 (ucast b1) + push_bit 16 (ucast b2) + push_bit 24 (ucast b3) :: uint32)"
proof -
  let ?a = "ucast b0 :: uint32" and ?b = "push_bit 8 (ucast b1) :: uint32"
  let ?c = "push_bit 16 (ucast b2) :: uint32" and ?d = "push_bit 24 (ucast b3) :: uint32"
  have ab: "?a + ?b = ?a OR ?b"
    by (rule disjunctive_add) (auto simp: bit_simps dest: bit_uint8_less)
  have abc: "(?a OR ?b) + ?c = ?a OR ?b OR ?c"
    by (subst disjunctive_add) (auto simp: bit_simps or.assoc dest: bit_uint8_less)
  have abcd: "(?a OR ?b OR ?c) + ?d = ?a OR ?b OR ?c OR ?d"
    by (subst disjunctive_add) (auto simp: bit_simps or.assoc dest: bit_uint8_less)
  have "le_word [b0, b1, b2, b3] = ?a OR ?b OR ?c OR ?d"
    by (rule bit_word_eqI) (auto simp: bit_simps)
  then show ?thesis by (simp only: ab abc abcd)
qed

lemma word_at_bytes:
  assumes "4 * i + 4 \<le> length k"
  shows "word_at k i = ucast (k ! (4 * i)) + shifted k (4 * i + 1) 8 + shifted k (4 * i + 2) 16
    + shifted k (4 * i + 3) 24"
proof -
  have "take 4 (drop (4 * i) k) = [k ! (4 * i), k ! (4 * i + 1), k ! (4 * i + 2), k ! (4 * i + 3)]"
    using assms by (intro nth_equalityI) (auto simp: less_Suc_eq numeral_eq_Suc)
  then show ?thesis by (simp only: word_at_def le_word_4 shifted_def)
qed

lemma word_at_012:
  "length k \<ge> 4 \<Longrightarrow> word_at k 0 = ucast (k ! 0) + shifted k 1 8 + shifted k 2 16 + shifted k 3 24"
  "length k \<ge> 8 \<Longrightarrow> word_at k 1 = ucast (k ! 4) + shifted k 5 8 + shifted k 6 16 + shifted k 7 24"
  "length k \<ge> 12 \<Longrightarrow> word_at k 2 = ucast (k ! 8) + shifted k 9 8 + shifted k 10 16 + shifted k 11 24"
  using word_at_bytes[of 0 k] word_at_bytes[of 1 k] word_at_bytes[of 2 k] by (simp_all add: numeral_2_eq_2)

section \<open>The code paths agree\<close>

lemma loops_eq: "aligned_loop s k = unaligned_loop s k"
proof (induction s k rule: aligned_loop.induct)
  case (1 a b c k)
  show ?case
  proof (cases "length k \<ge> 12")
    case True
    then show ?thesis
      using 1[OF True] word_at_012[of k]
      by (subst aligned_loop.simps, subst unaligned_loop.simps) (simp del: One_nat_def)
  next
    case False
    then show ?thesis by (simp add: aligned_loop.simps unaligned_loop.simps)
  qed
qed

lemma tails_eq: "aligned_tail s k = unaligned_tail s k"
proof (cases s)
  case (fields a b c)
  show ?thesis
    using word_at_012(1,2)[of k]
    by (simp add: aligned_tail_def unaligned_tail_def fields Let_def ac_simps del: One_nat_def)
qed

section \<open>Mixing can be undone\<close>

text \<open>The six lines of the macro, as three line shapes with their rotations, and their inverses.\<close>

fun line1 :: "nat \<Rightarrow> hash_state \<Rightarrow> hash_state" where
  "line1 k (a, b, c) = ((a - c) XOR pg_rotate_left32 c k, b, c + b)"

fun line2 :: "nat \<Rightarrow> hash_state \<Rightarrow> hash_state" where
  "line2 k (a, b, c) = (a + c, (b - a) XOR pg_rotate_left32 a k, c)"

fun line3 :: "nat \<Rightarrow> hash_state \<Rightarrow> hash_state" where
  "line3 k (a, b, c) = (a, b + a, (c - b) XOR pg_rotate_left32 b k)"

fun unline1 :: "nat \<Rightarrow> hash_state \<Rightarrow> hash_state" where
  "unline1 k (a, b, c) = ((a XOR pg_rotate_left32 (c - b) k) + (c - b), b, c - b)"

fun unline2 :: "nat \<Rightarrow> hash_state \<Rightarrow> hash_state" where
  "unline2 k (a, b, c) = (a - c, (b XOR pg_rotate_left32 (a - c) k) + (a - c), c)"

fun unline3 :: "nat \<Rightarrow> hash_state \<Rightarrow> hash_state" where
  "unline3 k (a, b, c) = (a, b - a, (c XOR pg_rotate_left32 (b - a) k) + (b - a))"

lemma mix_lines: "mix s = line3 4 (line2 19 (line1 16 (line3 8 (line2 6 (line1 4 s)))))"
  by (cases s) (simp only: mix_def prod.case line1.simps line2.simps line3.simps Let_def)

definition unmix :: "hash_state \<Rightarrow> hash_state" where
  "unmix s = unline1 4 (unline2 6 (unline3 8 (unline1 16 (unline2 19 (unline3 4 s)))))"

lemma unlines [simp]:
  "unline1 k (line1 k s) = s" "line1 k (unline1 k s) = s"
  "unline2 k (line2 k s) = s" "line2 k (unline2 k s) = s"
  "unline3 k (line3 k s) = s" "line3 k (unline3 k s) = s"
  by (cases s; simp add: xor.assoc)+

lemma mix_unmix_inverse: "unmix (mix s) = s" "mix (unmix s) = s"
  by (simp_all add: mix_lines unmix_def)

section \<open>Results\<close>

lemma low_half: "(ucast (push_bit 32 (ucast (b :: uint32)) OR ucast (c :: uint32) :: uint64) :: uint32) = c"
  by (rule bit_word_eqI) (auto simp: bit_simps)

lemma loop_short: "length k < 12 \<Longrightarrow> aligned_loop s k = (s, k)"
  by (cases s) (simp add: aligned_loop.simps)

lemma tail_4: "length k = 4 \<Longrightarrow> aligned_tail (a, b, c) k = (a + word_at k 0, b, c)"
  by (simp add: aligned_tail_def Let_def)

lemma word_at_le_bytes: "word_at (le_bytes 4 (w :: uint32)) 0 = w"
  by (simp add: word_at_def)

text \<open>C16. The hash of a key does not depend on where it lies in memory: the code path for
  word-aligned keys and the one for other keys compute the same 32 bit hash and the same 64 bit
  hash, for every key, of any length, and every seed.\<close>

theorem hash_alignment:
  "hash_bytes True k = hash_bytes False k \<and>
   hash_bytes_extended True k seed = hash_bytes_extended False k seed"
  by (simp add: hash_bytes_def hash_bytes_extended_def loops_eq tails_eq)

text \<open>C17. The mixing step of the hash can be undone, as its comment says: no information of the
  three words is lost.\<close>

theorem mix_reversible: "unmix (mix s) = s \<and> mix (unmix s) = s \<and> bij mix"
  by (metis mix_unmix_inverse bij_betw_byWitness image_subset_iff UNIV_I top_greatest)

text \<open>C18. The variants of the hash agree: the 64 bit hash without a seed extends the 32 bit hash (its
  lower half is that hash), and the functions for a 32 bit key give the hash of its four bytes.\<close>

theorem hash_variants_agree:
  "ucast (hash_bytes_extended aligned k 0) = hash_bytes aligned k \<and>
   hash_bytes_uint32 w = hash_bytes aligned (le_bytes 4 w) \<and>
   hash_bytes_uint32_extended w seed = hash_bytes_extended aligned (le_bytes 4 w) seed"
proof -
  have "hash_bytes aligned (le_bytes 4 w) = hash_bytes True (le_bytes 4 w)"
    "hash_bytes_extended aligned (le_bytes 4 w) seed = hash_bytes_extended True (le_bytes 4 w) seed"
    by (cases aligned; simp add: hash_bytes_def hash_bytes_extended_def loops_eq tails_eq)+
  moreover have "hash_bytes_uint32 w = hash_bytes True (le_bytes 4 w)"
    by (simp add: hash_bytes_uint32_def hash_bytes_def hash_init_def loop_short tail_4 word_at_le_bytes)
  moreover have "hash_bytes_uint32_extended w seed = hash_bytes_extended True (le_bytes 4 w) seed"
    by (simp add: hash_bytes_uint32_extended_def hash_bytes_extended_def hash_init_def loop_short tail_4
        word_at_le_bytes Let_def split: prod.split)
  moreover have "ucast (hash_bytes_extended aligned k 0) = hash_bytes aligned k"
    by (simp add: hash_bytes_extended_def hash_bytes_def low_half Let_def split: prod.split)
  ultimately show ?thesis by simp
qed

end
