(* ===== verification/Bloom_Filter.thy ===== *)
theory Bloom_Filter
  imports Hash_Fn
begin

text \<open>
  The Bloom filter of \<open>lib/bloomfilter.c\<close>, with the function the logindex uses to lay a filter over a
  buffer (\<open>polar_bloom_init_struct\<close>). The locale \<open>approx_set\<close> is what a client may rely on: an element
  that was added is never reported as missing. The number of hash functions that \<open>optimal_k\<close> aims at
  comes from the floating point library and is a parameter.
\<close>

section \<open>The filter\<close>

definition MAX_HASH_FUNCS :: nat where "MAX_HASH_FUNCS = 10"

record bloom_filter =
  k_hash_funcs :: nat
  seed :: uint64
  m_bits :: nat
  bitset :: "uint8 list"

function my_bloom_power_loop :: "nat \<Rightarrow> int \<Rightarrow> int" where
  "my_bloom_power_loop target_bitset_bits bloom_power =
    (if target_bitset_bits > 0 \<and> bloom_power < 32
     then my_bloom_power_loop (target_bitset_bits div 2) (bloom_power + 1)
     else bloom_power)"
  by pat_completeness auto
termination by (relation "measure fst") auto

declare my_bloom_power_loop.simps [simp del]

definition my_bloom_power :: "nat \<Rightarrow> int" where
  "my_bloom_power target_bitset_bits = my_bloom_power_loop target_bitset_bits (- 1)"

text \<open>\<open>rint_log\<close> stands for \<open>rint(log(2.0) * bitset_bits / total_elems)\<close>.\<close>

definition optimal_k :: "(nat \<Rightarrow> nat \<Rightarrow> int) \<Rightarrow> nat \<Rightarrow> nat \<Rightarrow> nat" where
  "optimal_k rint_log bitset_bits total_elems =
    nat (max 1 (min (rint_log bitset_bits total_elems) (int MAX_HASH_FUNCS)))"

definition bloom_create :: "(nat \<Rightarrow> nat \<Rightarrow> int) \<Rightarrow> nat \<Rightarrow> nat \<Rightarrow> uint64 \<Rightarrow> bloom_filter" where
  "bloom_create rint_log total_elems bloom_work_mem sd =
    (let bitset_bytes = min (bloom_work_mem * 1024) (total_elems * 2);
         bitset_bytes = max (1024 * 1024) bitset_bytes;
         bloom_power = my_bloom_power (bitset_bytes * 8);
         bitset_bits = 2 ^ nat bloom_power;
         bitset_bytes = bitset_bits div 8
     in \<lparr>k_hash_funcs = optimal_k rint_log bitset_bits total_elems, seed = sd, m_bits = bitset_bits,
         bitset = replicate bitset_bytes 0\<rparr>)"

text \<open>
  \<open>mod_m\<close> of a 32 bit value; \<open>m\<close> is a power of two up to \<open>2 ^ 32\<close>, so \<open>m - 1\<close> has no bit beyond the
  lower 32.
\<close>

definition mod_m :: "uint32 \<Rightarrow> nat \<Rightarrow> uint32" where
  "mod_m val m = val AND of_nat (m - 1)"

fun k_hashes_loop :: "nat \<Rightarrow> uint32 \<Rightarrow> uint32 \<Rightarrow> nat \<Rightarrow> nat \<Rightarrow> uint32 list" where
  "k_hashes_loop m x y i 0 = []"
| "k_hashes_loop m x y i (Suc n) =
    (let x = mod_m (x + y) m; y = mod_m (y + of_nat i) m
     in x # k_hashes_loop m x y (i + 1) n)"

text \<open>\<open>elem\<close> is the bytes of the element, at a word-aligned address or not.\<close>

definition k_hashes :: "bloom_filter \<Rightarrow> bool \<Rightarrow> uint8 list \<Rightarrow> uint32 list" where
  "k_hashes flt aligned elem =
    (let h = hash_bytes_extended aligned elem (seed flt);
         x = mod_m (ucast h) (m_bits flt);
         y = mod_m (ucast (drop_bit 32 h)) (m_bits flt)
     in x # k_hashes_loop (m_bits flt) x y 1 (k_hash_funcs flt - 1))"

definition set_hash_bit :: "uint32 \<Rightarrow> uint8 list \<Rightarrow> uint8 list" where
  "set_hash_bit h bs = (let i = unat (drop_bit 3 h) in
     bs[i := bs ! i OR push_bit (unat (h AND 7)) 1])"

definition test_hash_bit :: "uint8 list \<Rightarrow> uint32 \<Rightarrow> bool" where
  "test_hash_bit bs h \<longleftrightarrow> bs ! unat (drop_bit 3 h) AND push_bit (unat (h AND 7)) 1 \<noteq> 0"

definition bloom_add_element :: "bool \<Rightarrow> bloom_filter \<Rightarrow> uint8 list \<Rightarrow> bloom_filter" where
  "bloom_add_element aligned flt elem =
    flt\<lparr>bitset := fold set_hash_bit (k_hashes flt aligned elem) (bitset flt)\<rparr>"

definition bloom_lacks_element :: "bool \<Rightarrow> bloom_filter \<Rightarrow> uint8 list \<Rightarrow> bool" where
  "bloom_lacks_element aligned flt elem \<longleftrightarrow>
     (\<exists>h\<in>set (k_hashes flt aligned elem). \<not> test_hash_bit (bitset flt) h)"

text \<open>
  A filter over a buffer: the first 24 bytes of the buffer hold the fields, the rest is the bitset,
  whose contents are kept.
\<close>

definition polar_bloom_init_struct ::
    "(nat \<Rightarrow> nat \<Rightarrow> int) \<Rightarrow> uint8 list \<Rightarrow> nat \<Rightarrow> uint64 \<Rightarrow> bloom_filter" where
  "polar_bloom_init_struct rint_log bits total_elems sd =
    (let bloom_power = my_bloom_power (length bits * 8);
         bitset_bits = 2 ^ nat bloom_power
     in \<lparr>k_hash_funcs = optimal_k rint_log bitset_bits total_elems, seed = sd, m_bits = bitset_bits,
         bitset = bits\<rparr>)"

section \<open>Bits and bounds\<close>

lemma mod_m_less:
  assumes "p \<le> 32"
  shows "unat (mod_m val (2 ^ p)) < 2 ^ p"
proof -
  have "(of_nat (2 ^ p - 1) :: uint32) = mask p"
    by (simp add: mask_eq_exp_minus_1 of_nat_diff)
  then have "unat (mod_m val (2 ^ p)) = take_bit p (unat val)"
    by (simp add: mod_m_def take_bit_eq_mask[symmetric] unsigned_take_bit_eq)
  then show ?thesis by (simp add: take_bit_nat_less_exp)
qed

lemma k_hashes_loop_less:
  "p \<le> 32 \<Longrightarrow> h \<in> set (k_hashes_loop (2 ^ p) x y i n) \<Longrightarrow> unat h < 2 ^ p"
  by (induction "2 ^ p :: nat" x y i n rule: k_hashes_loop.induct) (auto simp: Let_def mod_m_less)

text \<open>A filter that the constructors make: the bitset has at least \<open>m\<close> bits.\<close>

definition filter_ok :: "bloom_filter \<Rightarrow> bool" where
  "filter_ok flt \<longleftrightarrow> (\<exists>p\<le>32. m_bits flt = 2 ^ p) \<and> m_bits flt \<le> 8 * length (bitset flt)
     \<and> 1 \<le> k_hash_funcs flt \<and> k_hash_funcs flt \<le> MAX_HASH_FUNCS"

lemma k_hashes_less:
  assumes "filter_ok flt" "h \<in> set (k_hashes flt aligned elem)"
  shows "unat h < m_bits flt"
proof -
  obtain p where p: "p \<le> 32" "m_bits flt = 2 ^ p" using assms(1) by (auto simp: filter_ok_def)
  show ?thesis
    using assms(2) k_hashes_loop_less[OF p(1)] mod_m_less[OF p(1)]
    by (auto simp: k_hashes_def Let_def p(2))
qed

lemma hash_byte_less:
  assumes "unat h < 8 * n"
  shows "unat (drop_bit 3 (h :: uint32)) < n"
proof -
  have "unat (drop_bit 3 h) = unat h div 8"
    using unsigned_less[of h, where 'a = nat]
    by (simp only: unsigned_drop_bit_eq) (simp add: drop_bit_eq_div take_bit_eq_mod)
  then show ?thesis using assms by simp
qed

lemma low3_less: "unat (h AND 7 :: uint32) < 8"
proof -
  have "(7 :: uint32) = mask 3" by (simp add: mask_eq_exp_minus_1)
  then have "unat (h AND 7) = take_bit 3 (unat h)"
    by (simp only: take_bit_eq_mask[symmetric] unsigned_take_bit_eq)
  then show ?thesis using take_bit_nat_less_exp[of 3 "unat h"] by simp
qed

lemma test_hash_bit_iff: "test_hash_bit bs h \<longleftrightarrow> bit (bs ! unat (drop_bit 3 h)) (unat (h AND 7))"
  unfolding test_hash_bit_def by (rule bit_iff_and_push_bit_not_eq_0[symmetric])

lemma length_set_hash_bit [simp]: "length (set_hash_bit h bs) = length bs"
  by (simp add: set_hash_bit_def Let_def)

lemma test_set_hash_bit:
  assumes "unat (drop_bit 3 h) < length bs"
  shows "test_hash_bit (set_hash_bit h bs) h"
  using assms low3_less[of h]
  by (simp add: test_hash_bit_iff set_hash_bit_def Let_def bit_simps)

lemma test_set_other: "test_hash_bit bs h \<Longrightarrow> test_hash_bit (set_hash_bit g bs) h"
  by (cases "unat (drop_bit 3 g) < length bs"; cases "unat (drop_bit 3 g) = unat (drop_bit 3 h)")
    (auto simp: test_hash_bit_iff set_hash_bit_def Let_def bit_simps nth_list_update list_update_beyond)

lemma length_fold_set [simp]: "length (fold set_hash_bit hs bs) = length bs"
  by (induction hs arbitrary: bs) auto

lemma test_fold_keep: "test_hash_bit bs h \<Longrightarrow> test_hash_bit (fold set_hash_bit hs bs) h"
  by (induction hs arbitrary: bs) (auto simp: test_set_other)

lemma test_fold_set:
  assumes "h \<in> set hs" "\<And>g. g \<in> set hs \<Longrightarrow> unat (drop_bit 3 g) < length bs"
  shows "test_hash_bit (fold set_hash_bit hs bs) h"
  using assms by (induction hs arbitrary: bs) (auto simp: test_fold_keep test_set_hash_bit)

lemma k_hashes_aligned: "k_hashes flt a elem = k_hashes flt b elem"
  by (cases a; cases b; simp add: k_hashes_def hash_bytes_extended_def loops_eq tails_eq)

lemma k_hashes_bitset [simp]: "k_hashes (flt\<lparr>bitset := bs\<rparr>) aligned elem = k_hashes flt aligned elem"
  by (simp add: k_hashes_def)

section \<open>The number of bits\<close>

lemma my_bloom_power_loop_value:
  "0 < t \<Longrightarrow> b < 32 \<Longrightarrow> \<exists>j. my_bloom_power_loop t b = b + 1 + int j \<and> b + 1 + int j \<le> 32 \<and>
     2 ^ j \<le> t \<and> (t < 2 ^ Suc j \<or> b + 1 + int j = 32)"
proof (induction t b rule: my_bloom_power_loop.induct)
  case (1 t b)
  have r: "my_bloom_power_loop t b = my_bloom_power_loop (t div 2) (b + 1)"
    using 1 by (subst my_bloom_power_loop.simps) simp
  show ?case
  proof (cases "0 < t div 2 \<and> b + 1 < 32")
    case True
    then obtain j where j: "my_bloom_power_loop (t div 2) (b + 1) = b + 1 + 1 + int j"
      "b + 1 + 1 + int j \<le> 32" "2 ^ j \<le> t div 2" "t div 2 < 2 ^ Suc j \<or> b + 1 + 1 + int j = 32"
      using 1 by blast
    have "2 ^ Suc j \<le> t" using j(3) by simp
    moreover have "t < 2 ^ Suc (Suc j) \<or> b + 1 + int (Suc j) = 32" using j(4) by auto
    ultimately show ?thesis using r j by (intro exI[of _ "Suc j"]) auto
  next
    case False
    then have "my_bloom_power_loop (t div 2) (b + 1) = b + 1"
      by (subst my_bloom_power_loop.simps) auto
    moreover have "t < 2 ^ Suc 0 \<or> b + 1 = 32" using False 1(3) by auto
    ultimately show ?thesis using r 1 by (intro exI[of _ 0]) auto
  qed
qed

lemma my_bloom_power_value:
  assumes "0 < t"
  obtains j where "my_bloom_power t = int j" "j \<le> 32" "2 ^ j \<le> t" "t < 2 ^ Suc j \<or> j = 32"
  using my_bloom_power_loop_value[OF assms, of "- 1"] by (auto simp: my_bloom_power_def)

lemma optimal_k_bounds: "1 \<le> optimal_k rint_log b e" "optimal_k rint_log b e \<le> MAX_HASH_FUNCS"
  by (auto simp: optimal_k_def MAX_HASH_FUNCS_def)

lemma bloom_init_ok:
  assumes "bits \<noteq> []"
  shows "filter_ok (polar_bloom_init_struct rint_log bits total_elems sd)"
proof -
  obtain j where "my_bloom_power (length bits * 8) = int j" "j \<le> 32" "2 ^ j \<le> length bits * 8"
    by (rule my_bloom_power_value[of "length bits * 8"]) (use assms in auto)
  then show ?thesis
    using optimal_k_bounds by (auto simp: polar_bloom_init_struct_def filter_ok_def Let_def)
qed

lemma bloom_create_ok: "filter_ok (bloom_create rint_log total_elems work_mem sd)"
proof -
  let ?n = "max (1024 * 1024) (min (work_mem * 1024) (total_elems * 2)) :: nat"
  obtain j where j: "my_bloom_power (?n * 8) = int j" "j \<le> 32" "?n * 8 < 2 ^ Suc j \<or> j = 32"
    by (rule my_bloom_power_value[of "?n * 8"]) auto
  have "3 \<le> j"
  proof (rule ccontr)
    assume "\<not> 3 \<le> j"
    then have "(2 :: nat) ^ Suc j \<le> 2 ^ 3" by (intro power_increasing) auto
    then show False using j(3) \<open>\<not> 3 \<le> j\<close> by simp
  qed
  then have "8 * (2 ^ j div 8) = (2 ^ j :: nat)"
    using le_imp_power_dvd[of 3 j "2 :: nat"] by simp
  then show ?thesis
    using j optimal_k_bounds
    by (auto simp: bloom_create_def filter_ok_def Let_def)
qed

section \<open>What a client may rely on\<close>

locale approx_set =
  fixes ok :: "'s \<Rightarrow> bool" and add :: "'s \<Rightarrow> 'e \<Rightarrow> 's" and lacks :: "'s \<Rightarrow> 'e \<Rightarrow> bool"
  assumes ok_add: "ok s \<Longrightarrow> ok (add s e)"
    and lacks_add: "ok s \<Longrightarrow> \<not> lacks (add s e) e"
    and lacks_keep: "ok s \<Longrightarrow> \<not> lacks s e \<Longrightarrow> \<not> lacks (add s x) e"
begin

lemma fold_keep: "ok s \<Longrightarrow> \<not> lacks s e \<Longrightarrow> \<not> lacks (fold (\<lambda>x s. add s x) es s) e"
  by (induction es arbitrary: s) (auto simp: ok_add lacks_keep)

lemma fold_ok: "ok s \<Longrightarrow> ok (fold (\<lambda>x s. add s x) es s)"
  by (induction es arbitrary: s) (auto simp: ok_add)

lemma no_false_negative: "ok s \<Longrightarrow> e \<in> set es \<Longrightarrow> \<not> lacks (fold (\<lambda>x s. add s x) es s) e"
  by (induction es arbitrary: s) (auto simp: ok_add lacks_add fold_keep)

end

lemma bloom_lacks_added:
  assumes "filter_ok flt"
  shows "\<not> bloom_lacks_element a' (bloom_add_element a flt e) e"
proof -
  have "unat (drop_bit 3 h) < length (bitset flt)" if "h \<in> set (k_hashes flt True e)" for h
    using k_hashes_less[OF assms that] assms by (intro hash_byte_less) (auto simp: filter_ok_def)
  then show ?thesis
    using test_fold_set k_hashes_aligned[of flt a e True] k_hashes_aligned[of flt a' e True]
    by (auto simp: bloom_lacks_element_def bloom_add_element_def)
qed

interpretation bloom: approx_set filter_ok "bloom_add_element aligned" "bloom_lacks_element aligned'"
  for aligned aligned'
proof unfold_locales
  show "filter_ok (bloom_add_element aligned s e)" if "filter_ok s" for s e
    using that by (simp add: filter_ok_def bloom_add_element_def)
  show "\<not> bloom_lacks_element aligned' (bloom_add_element aligned s x) e"
    if "\<not> bloom_lacks_element aligned' s e" for s e x
    using that test_fold_keep by (auto simp: bloom_lacks_element_def bloom_add_element_def)
qed (rule bloom_lacks_added)

section \<open>Results\<close>

lemma fold_add_fields:
  "k_hash_funcs (fold (\<lambda>x f. bloom_add_element a f x) es flt) = k_hash_funcs flt"
  "seed (fold (\<lambda>x f. bloom_add_element a f x) es flt) = seed flt"
  "m_bits (fold (\<lambda>x f. bloom_add_element a f x) es flt) = m_bits flt"
  "length (bitset (fold (\<lambda>x f. bloom_add_element a f x) es flt)) = length (bitset flt)"
  by (induction es arbitrary: flt) (auto simp: bloom_add_element_def)

lemma bloom_relay:
  fixes rint_log bits total_elems sd a es
  defines "flt \<equiv> fold (\<lambda>x f. bloom_add_element a f x) es (polar_bloom_init_struct rint_log bits total_elems sd)"
  shows "polar_bloom_init_struct rint_log (bitset flt) total_elems sd = flt"
proof -
  have "length (bitset flt) = length bits"
    by (simp add: flt_def fold_add_fields) (simp add: polar_bloom_init_struct_def Let_def)
  then show ?thesis
    using fold_add_fields(1-3)[of a es "polar_bloom_init_struct rint_log bits total_elems sd"]
    unfolding flt_def[symmetric] by (cases flt) (simp add: polar_bloom_init_struct_def Let_def)
qed

lemma length_k_hashes_loop [simp]: "length (k_hashes_loop m x y i n) = n"
  by (induction n arbitrary: x y i) (auto simp: Let_def)

text \<open>C14. No false negatives, over the life of a stored filter: lay a filter over a buffer, add the
  elements \<open>es\<close>, keep the bytes of the bitset, lay a filter over these bytes later. The later filter
  does not report any element of \<open>es\<close> as missing, wherever in memory the elements lie.\<close>

theorem bloom_no_false_negatives:
  assumes "bits \<noteq> []" "e \<in> set es"
  shows "\<not> bloom_lacks_element a' (polar_bloom_init_struct rint_log
     (bitset (fold (\<lambda>x f. bloom_add_element a f x) es (polar_bloom_init_struct rint_log bits n sd))) n sd) e"
  unfolding bloom_relay by (rule bloom.no_false_negative[OF bloom_init_ok[OF assms(1)] assms(2)])

theorem bloom_no_false_negatives_witness:
  "\<not> bloom_lacks_element False (polar_bloom_init_struct (\<lambda>_ _. 3)
     (bitset (fold (\<lambda>x f. bloom_add_element True f x) [[1, 2, 3], [4]]
       (polar_bloom_init_struct (\<lambda>_ _. 3) [0, 0, 0, 0] 2 0))) 2 0) [4]"
  by (rule bloom_no_false_negatives) simp_all

text \<open>C15. The filter stays within its arrays: a filter laid over a buffer uses at most
  \<open>MAX_HASH_FUNCS\<close> hash values per element, the size of the array they are kept in, and the byte each
  of them addresses lies in the buffer. The number of bits is the largest power of two that fits, up
  to \<open>2 ^ 32\<close>.\<close>

theorem bloom_in_bounds:
  assumes "bits \<noteq> []"
  shows "length (k_hashes (polar_bloom_init_struct rint_log bits n sd) a e) \<le> MAX_HASH_FUNCS \<and>
    (\<forall>h \<in> set (k_hashes (polar_bloom_init_struct rint_log bits n sd) a e).
       unat (drop_bit 3 h) < length bits) \<and>
    (\<exists>j\<le>32. m_bits (polar_bloom_init_struct rint_log bits n sd) = 2 ^ j \<and> 2 ^ j \<le> 8 * length bits \<and>
       (8 * length bits < 2 ^ Suc j \<or> j = 32))"
proof (intro conjI ballI)
  let ?f = "polar_bloom_init_struct rint_log bits n sd"
  have ok: "filter_ok ?f" by (rule bloom_init_ok[OF assms])
  show "length (k_hashes ?f a e) \<le> MAX_HASH_FUNCS"
    using ok by (simp add: filter_ok_def k_hashes_def Let_def)
  show "unat (drop_bit 3 h) < length bits" if "h \<in> set (k_hashes ?f a e)" for h
  proof (rule hash_byte_less)
    show "unat h < 8 * length bits"
      using k_hashes_less[OF ok that] ok by (simp add: filter_ok_def polar_bloom_init_struct_def Let_def)
  qed
  obtain j where "my_bloom_power (length bits * 8) = int j" "j \<le> 32" "2 ^ j \<le> length bits * 8"
    "length bits * 8 < 2 ^ Suc j \<or> j = 32"
    by (rule my_bloom_power_value[of "length bits * 8"]) (use assms in auto)
  then show "\<exists>j\<le>32. m_bits ?f = 2 ^ j \<and> 2 ^ j \<le> 8 * length bits \<and> (8 * length bits < 2 ^ Suc j \<or> j = 32)"
    by (auto simp: polar_bloom_init_struct_def Let_def mult.commute intro!: exI[of _ j])
qed

theorem bloom_in_bounds_witness:
  "length (k_hashes (polar_bloom_init_struct (\<lambda>_ _. 20) (replicate 40 0) 2 0) True [1]) \<le> MAX_HASH_FUNCS \<and>
    list_all (\<lambda>h. unat (drop_bit 3 h) < 40)
      (k_hashes (polar_bloom_init_struct (\<lambda>_ _. 20) (replicate 40 0) 2 0) True [1]) \<and>
    (\<exists>j\<le>32. m_bits (polar_bloom_init_struct (\<lambda>_ _. 20) (replicate 40 0) 2 0) = 2 ^ j \<and>
       2 ^ j \<le> (320 :: nat) \<and> (320 < (2 :: nat) ^ Suc j \<or> j = 32))"
proof -
  have "replicate 40 (0 :: uint8) \<noteq> []" by simp
  from bloom_in_bounds[OF this, of "\<lambda>_ _. 20" 2 0 True "[1]"] show ?thesis
    by (simp only: list_all_iff length_replicate) simp
qed

end
