(* ===== verification/Log_Store.thy ===== *)
theory Log_Store
  imports Log_Table_Insert Bloom_Filter
begin

text \<open>
  The logindex on shared storage, from \<open>polar_logindex.c\<close>: the meta file, the segment files of 64
  tables each, the Bloom filter pages, and the operations that write, read and truncate them. A
  segment file is the list of the tables in it, addressed by their position. The pages of the Bloom
  filters are what the SLRU cache holds for them. Checksums, the floating point library, failures of
  the operating system and the local file cache are fields of an environment.
\<close>

section \<open>Data\<close>

datatype log_index_io_err_t = LOG_INDEX_OPEN_FAILED | LOG_INDEX_SEEK_FAILED | LOG_INDEX_READ_FAILED
  | LOG_INDEX_WRITE_FAILED | LOG_INDEX_FSYNC_FAILED | LOG_INDEX_CLOSE_FAILED | LOG_INDEX_CRC_FAILED

definition LOG_INDEX_MAGIC :: nat where "LOG_INDEX_MAGIC = 0xFDFE"
definition LOG_INDEX_VERSION :: nat where "LOG_INDEX_VERSION = 2"
definition LOG_INDEX_TABLE_NUM_PER_FILE :: nat where "LOG_INDEX_TABLE_NUM_PER_FILE = 64"

record log_index_file_segment_t =
  segment_no :: nat
  seg_max_lsn :: XLogRecPtr
  seg_max_idx_table_id :: nat
  seg_min_idx_table_id :: nat

record log_index_meta_t =
  magic :: nat
  version :: nat
  meta_max_idx_table_id :: nat
  min_segment_info :: log_index_file_segment_t
  start_lsn :: XLogRecPtr
  meta_max_lsn :: XLogRecPtr
  meta_crc :: uint32

definition zero_meta :: log_index_meta_t where
  "zero_meta = \<lparr>magic = 0, version = 0, meta_max_idx_table_id = 0,
     min_segment_info = \<lparr>segment_no = 0, seg_max_lsn = 0, seg_max_idx_table_id = 0,
       seg_min_idx_table_id = 0\<rparr>,
     start_lsn = 0, meta_max_lsn = 0, meta_crc = 0\<rparr>"

record log_file_table_bloom_t =
  bloom_tid :: nat
  bloom_min_lsn :: XLogRecPtr
  bloom_max_lsn :: XLogRecPtr
  bloom_buf_size :: nat
  bloom_crc :: uint32
  bloom_bytes :: "uint8 list"

text \<open>
  The filter bytes of a table take 4096 bytes less the 32 bytes of the header; the filter puts its
  own 24 byte header in front of the bits.
\<close>

definition LOG_INDEX_FILE_TBL_BLOOM_SIZE :: nat where "LOG_INDEX_FILE_TBL_BLOOM_SIZE = 4096"
definition bloom_bits_size :: nat where "bloom_bits_size = LOG_INDEX_FILE_TBL_BLOOM_SIZE - 32 - 24"
definition LOG_INDEX_BLOOM_ELEMS_NUM :: nat where "LOG_INDEX_BLOOM_ELEMS_NUM = 819"

definition zero_bloom :: log_file_table_bloom_t where
  "zero_bloom = \<lparr>bloom_tid = 0, bloom_min_lsn = 0, bloom_max_lsn = 0, bloom_buf_size = 0, bloom_crc = 0,
     bloom_bytes = replicate bloom_bits_size 0\<rparr>"

record log_table_cache_t =
  cache_valid :: bool
  cache_min_idx_table_id :: nat
  cache_max_idx_table_id :: nat
  cache_data :: "log_idx_table_data_t list"

text \<open>
  The files of the logindex directory, and the state about them in shared memory: the copy of the
  meta data, the number of the last segment file that was set aside for later use, and the last
  segment file read by this process.
\<close>

record log_store =
  meta_file :: "log_index_meta_t option"
  tbl_files :: "nat \<Rightarrow> log_idx_table_data_t list option"
  bloom_pages :: "nat \<Rightarrow> nat \<Rightarrow> log_file_table_bloom_t"
  meta :: log_index_meta_t
  max_allocated_seg_no :: nat
  table_cache :: log_table_cache_t

record io_env =
  crc_tbl :: "log_idx_table_data_t \<Rightarrow> uint32"
  crc_meta :: "log_index_meta_t \<Rightarrow> uint32"
  crc_bloom :: "log_file_table_bloom_t \<Rightarrow> uint32"
  rint_log :: "nat \<Rightarrow> nat \<Rightarrow> int"
  fails :: "log_index_io_err_t \<Rightarrow> bool"
  rename_fails :: bool
  polar_is_standby :: bool
  polar_max_logindex_files :: nat
  segment_cache :: "(nat \<Rightarrow> log_idx_table_data_t list option \<Rightarrow> log_idx_table_data_t list option) option"

section \<open>Where a table lies\<close>

text \<open>Table ids are 64 bit and start from 1; \<open>(tid) - 1\<close> of the invalid id 0 wraps around.\<close>

definition tid_pred :: "nat \<Rightarrow> nat" where
  "tid_pred tid = (if tid = 0 then 2 ^ 64 - 1 else tid - 1)"

definition LOG_INDEX_FILE_TABLE_SEGMENT_NO :: "nat \<Rightarrow> nat" where
  "LOG_INDEX_FILE_TABLE_SEGMENT_NO tid = tid_pred tid div LOG_INDEX_TABLE_NUM_PER_FILE"

text \<open>The offset in a segment file, counted in tables.\<close>

definition LOG_INDEX_FILE_TABLE_SEGMENT_OFFSET :: "nat \<Rightarrow> nat" where
  "LOG_INDEX_FILE_TABLE_SEGMENT_OFFSET tid = tid_pred tid mod LOG_INDEX_TABLE_NUM_PER_FILE"

definition LOG_INDEX_TBL_BLOOM_PAGE_NO :: "nat \<Rightarrow> nat" where
  "LOG_INDEX_TBL_BLOOM_PAGE_NO tid = tid_pred tid * LOG_INDEX_FILE_TBL_BLOOM_SIZE div 8192"

definition LOG_INDEX_TBL_BLOOM_PAGE_OFFSET :: "nat \<Rightarrow> nat" where
  "LOG_INDEX_TBL_BLOOM_PAGE_OFFSET tid = tid_pred tid * LOG_INDEX_FILE_TBL_BLOOM_SIZE mod 8192"

section \<open>The meta file\<close>

definition log_index_data_compatible :: "io_env \<Rightarrow> log_index_meta_t \<Rightarrow> bool" where
  "log_index_data_compatible env mt =
    (if version mt = 1 then \<not> polar_is_standby env
     else version mt = LOG_INDEX_VERSION)"

text \<open>
  The result is whether the meta data is usable, and what is in the caller's buffer afterwards. A
  read that fails leaves the zeroed buffer.
\<close>

definition log_index_get_meta :: "io_env \<Rightarrow> log_store \<Rightarrow> bool \<times> log_index_meta_t" where
  "log_index_get_meta env st =
    (case meta_file st of
       None \<Rightarrow> (False, zero_meta)
     | Some mt \<Rightarrow>
         if fails env LOG_INDEX_OPEN_FAILED \<or> fails env LOG_INDEX_READ_FAILED then (False, zero_meta)
         else if magic mt \<noteq> LOG_INDEX_MAGIC then (False, mt)
         else
           let crc = meta_crc mt;
               mt = mt\<lparr>meta_crc := crc_meta env (mt\<lparr>meta_crc := 0\<rparr>)\<rparr>
           in if crc \<noteq> meta_crc mt then (False, mt)
              else if version mt \<noteq> LOG_INDEX_VERSION \<and> \<not> log_index_data_compatible env mt then (False, mt)
              else (True, mt))"

text \<open>
  \<open>polar_log_index_write_meta\<close> of the meta data in shared memory, which both callers pass. Without
  \<open>update\<close> the file is created.
\<close>

definition polar_log_index_write_meta :: "io_env \<Rightarrow> log_store \<Rightarrow> bool \<Rightarrow> log_store result" where
  "polar_log_index_write_meta env st update =
    (let mt = meta st;
         mt = (if meta_max_lsn mt \<noteq> InvalidXLogRecPtr then mt\<lparr>start_lsn := meta_max_lsn mt\<rparr> else mt);
         mt = mt\<lparr>magic := LOG_INDEX_MAGIC, version := LOG_INDEX_VERSION, meta_crc := 0\<rparr>;
         mt = mt\<lparr>meta_crc := crc_meta env mt\<rparr>
     in if fails env LOG_INDEX_OPEN_FAILED \<or> (update \<and> meta_file st = None) then Inl PANIC
        else if fails env LOG_INDEX_WRITE_FAILED then Inl PANIC
        else if fails env LOG_INDEX_FSYNC_FAILED then Inl PANIC
        else Inr (st\<lparr>meta := mt, meta_file := Some mt\<rparr>))"

section \<open>Bloom data of a table\<close>

definition tag_bytes :: "BufferTag \<Rightarrow> uint8 list" where
  "tag_bytes page = le_bytes 4 (spcNode (rnode page)) @ le_bytes 4 (dbNode (rnode page))
     @ le_bytes 4 (relNode (rnode page)) @ le_bytes 4 (of_int (forkNum page) :: uint32)
     @ le_bytes 4 (blockNum page)"

definition page_hash :: "BufferTag \<Rightarrow> uint32" where
  "page_hash page = tag_hash True (tag_bytes page) 20"

text \<open>The walk over the pages of one hash slot, with the bounds of the LSNs and the filter so far.\<close>

partial_function (option) calc_bloom_chain ::
    "log_idx_table_data_t \<Rightarrow> XLogRecPtr \<times> XLogRecPtr \<times> bloom_filter \<Rightarrow> log_seg_id_t
      \<Rightarrow> (XLogRecPtr \<times> XLogRecPtr \<times> bloom_filter) result option" where
  "calc_bloom_chain t acc seg =
    (case log_index_item_head seg of
       Inl e \<Rightarrow> Some (Inl e)
     | Inr None \<Rightarrow> Some (Inr acc)
     | Inr (Some p) \<Rightarrow>
         (case head_at t p of
            Inl e \<Rightarrow> Some (Inl e)
          | Inr item \<Rightarrow>
              (case log_index_item_max_lsn t item of
                 Inl e \<Rightarrow> Some (Inl e)
               | Inr item_max \<Rightarrow>
                   (case acc of (mn, mx, flt) \<Rightarrow>
                      calc_bloom_chain t
                        (min mn (LOG_INDEX_COMBINE_LSN t (h_suffix_lsn item 0)),
                         max mx item_max,
                         bloom_add_element True flt (tag_bytes (h_tag item)))
                        (h_next_item item)))))"

fun calc_bloom_slots ::
    "log_idx_table_data_t \<Rightarrow> nat list \<Rightarrow> XLogRecPtr \<times> XLogRecPtr \<times> bloom_filter
      \<Rightarrow> (XLogRecPtr \<times> XLogRecPtr \<times> bloom_filter) result option" where
  "calc_bloom_slots t [] acc = Some (Inr acc)"
| "calc_bloom_slots t (i # is) acc =
    (if tbl_hash t i \<noteq> LOG_INDEX_TBL_INVALID_SEG then
       (case calc_bloom_chain t acc (tbl_hash t i) of
          None \<Rightarrow> None
        | Some (Inl e) \<Rightarrow> Some (Inl e)
        | Some (Inr acc) \<Rightarrow> calc_bloom_slots t is acc)
     else calc_bloom_slots t is acc)"

definition log_index_calc_bloom ::
    "io_env \<Rightarrow> log_idx_table_data_t \<Rightarrow> log_file_table_bloom_t \<Rightarrow> log_file_table_bloom_t result option" where
  "log_index_calc_bloom env t bloom =
    (let flt = polar_bloom_init_struct (rint_log env) (bloom_bytes bloom) LOG_INDEX_BLOOM_ELEMS_NUM 0
     in case calc_bloom_slots t [0..<LOG_INDEX_MEM_TBL_HASH_NUM]
               (bloom_min_lsn bloom, bloom_max_lsn bloom, flt) of
          None \<Rightarrow> None
        | Some (Inl e) \<Rightarrow> Some (Inl e)
        | Some (Inr (mn, mx, flt)) \<Rightarrow>
            Some (Inr (bloom\<lparr>bloom_min_lsn := mn, bloom_max_lsn := mx, bloom_bytes := bitset flt\<rparr>)))"

definition log_index_get_bloom_data ::
    "io_env \<Rightarrow> log_idx_table_data_t \<Rightarrow> nat \<Rightarrow> log_file_table_bloom_t \<Rightarrow> log_file_table_bloom_t result option" where
  "log_index_get_bloom_data env t tid bloom =
    (let bloom = bloom\<lparr>bloom_tid := tid, bloom_max_lsn := InvalidXLogRecPtr, bloom_min_lsn := UINT64_MAX,
                       bloom_buf_size := LOG_INDEX_FILE_TBL_BLOOM_SIZE - 32\<rparr>
     in case log_index_calc_bloom env t bloom of
          None \<Rightarrow> None
        | Some (Inl e) \<Rightarrow> Some (Inl e)
        | Some (Inr bloom) \<Rightarrow>
            let bloom = bloom\<lparr>bloom_crc := 0\<rparr>
            in Some (Inr (bloom\<lparr>bloom_crc := crc_bloom env bloom\<rparr>)))"

text \<open>
  \<open>log_index_save_bloom\<close>: the first table of a page clears the page in the cache, the other one reads
  it.
\<close>

definition log_index_save_bloom :: "log_store \<Rightarrow> nat \<Rightarrow> log_file_table_bloom_t \<Rightarrow> log_store" where
  "log_index_save_bloom st tid bloom =
    (let pageno = LOG_INDEX_TBL_BLOOM_PAGE_NO tid;
         offset = LOG_INDEX_TBL_BLOOM_PAGE_OFFSET tid;
         page = (if offset = 0 then (\<lambda>_. zero_bloom) else bloom_pages st pageno)
     in st\<lparr>bloom_pages := (bloom_pages st)(pageno := page(offset := bloom))\<rparr>)"

definition log_index_get_tbl_bloom :: "log_store \<Rightarrow> nat \<Rightarrow> log_file_table_bloom_t" where
  "log_index_get_tbl_bloom st tid =
    bloom_pages st (LOG_INDEX_TBL_BLOOM_PAGE_NO tid) (LOG_INDEX_TBL_BLOOM_PAGE_OFFSET tid)"

section \<open>Segment files\<close>

text \<open>Writing beyond the end of a file fills the gap with zeros.\<close>

definition file_write :: "log_idx_table_data_t list \<Rightarrow> nat \<Rightarrow> log_idx_table_data_t \<Rightarrow> log_idx_table_data_t list" where
  "file_write xs i t = (if i < length xs then xs[i := t]
     else xs @ replicate (i - length xs) zero_table @ [t])"

definition log_index_open_table_file :: "io_env \<Rightarrow> log_store \<Rightarrow> nat \<Rightarrow> bool \<Rightarrow> log_index_io_err_t + log_store" where
  "log_index_open_table_file env st tid readonly =
    (let segno = LOG_INDEX_FILE_TABLE_SEGMENT_NO tid;
         offset = LOG_INDEX_FILE_TABLE_SEGMENT_OFFSET tid
     in if fails env LOG_INDEX_OPEN_FAILED then Inl LOG_INDEX_OPEN_FAILED
        else case tbl_files st segno of
               Some f \<Rightarrow> Inr st
             | None \<Rightarrow>
                 if \<not> readonly \<and> offset = 0 then Inr (st\<lparr>tbl_files := (tbl_files st)(segno := Some [])\<rparr>)
                 else Inl LOG_INDEX_OPEN_FAILED)"

definition log_index_read_table_data ::
    "io_env \<Rightarrow> log_store \<Rightarrow> nat \<Rightarrow> log_index_io_err_t + log_idx_table_data_t" where
  "log_index_read_table_data env st tid =
    (let segno = LOG_INDEX_FILE_TABLE_SEGMENT_NO tid;
         offset = LOG_INDEX_FILE_TABLE_SEGMENT_OFFSET tid
     in case log_index_open_table_file env st tid True of
          Inl e \<Rightarrow> Inl e
        | Inr _ \<Rightarrow>
            (case tbl_files st segno of
               None \<Rightarrow> Inl LOG_INDEX_OPEN_FAILED
             | Some f \<Rightarrow>
                 if fails env LOG_INDEX_READ_FAILED \<or> length f \<le> offset then Inl LOG_INDEX_READ_FAILED
                 else
                   let t = f ! offset;
                       crc = tbl_crc t;
                       t = t\<lparr>tbl_crc := crc_tbl env (t\<lparr>tbl_crc := 0\<rparr>)\<rparr>
                   in if crc \<noteq> tbl_crc t then Inl LOG_INDEX_CRC_FAILED else Inr t))"

text \<open>The table as it is in memory after the call, and the store.\<close>

definition log_index_save_table ::
    "io_env \<Rightarrow> log_store \<Rightarrow> log_idx_table_data_t \<Rightarrow> log_file_table_bloom_t
      \<Rightarrow> log_idx_table_data_t \<times> (log_index_io_err_t + log_store)" where
  "log_index_save_table env st t bloom =
    (let segno = LOG_INDEX_FILE_TABLE_SEGMENT_NO (idx_table_id t);
         offset = LOG_INDEX_FILE_TABLE_SEGMENT_OFFSET (idx_table_id t);
         t = t\<lparr>tbl_min_lsn := bloom_min_lsn bloom, tbl_max_lsn := bloom_max_lsn bloom, tbl_crc := 0\<rparr>;
         t = t\<lparr>tbl_crc := crc_tbl env t\<rparr>
     in (t, if fails env LOG_INDEX_WRITE_FAILED then Inl LOG_INDEX_WRITE_FAILED
            else if fails env LOG_INDEX_FSYNC_FAILED then Inl LOG_INDEX_FSYNC_FAILED
            else case tbl_files st segno of
                   None \<Rightarrow> Inl LOG_INDEX_WRITE_FAILED
                 | Some f \<Rightarrow> Inr (st\<lparr>tbl_files := (tbl_files st)(segno := Some (file_write f offset t))\<rparr>)))"

text \<open>Every known cause is reported as FATAL.\<close>

fun log_index_report_io_error :: "log_index_io_err_t \<Rightarrow> elevel" where
  "log_index_report_io_error LOG_INDEX_OPEN_FAILED = FATAL"
| "log_index_report_io_error LOG_INDEX_SEEK_FAILED = FATAL"
| "log_index_report_io_error LOG_INDEX_READ_FAILED = FATAL"
| "log_index_report_io_error LOG_INDEX_WRITE_FAILED = FATAL"
| "log_index_report_io_error LOG_INDEX_FSYNC_FAILED = FATAL"
| "log_index_report_io_error LOG_INDEX_CLOSE_FAILED = FATAL"
| "log_index_report_io_error LOG_INDEX_CRC_FAILED = FATAL"

text \<open>
  \<open>log_index_write_table_data\<close>: an active table of a snapshot that flushes active tables is copied
  first, so that only the copy gets the bounds and the checksum.
\<close>

definition log_index_write_table_data ::
    "io_env \<Rightarrow> log_store \<Rightarrow> bool \<Rightarrow> log_mem_table_t
      \<Rightarrow> (log_mem_table_t \<times> (log_index_io_err_t + log_store)) result option" where
  "log_index_write_table_data env st flush_active_table m =
    (let tid = idx_table_id (tbl_data m)
     in case log_index_open_table_file env st tid False of
          Inl e \<Rightarrow> Some (Inr (m, Inl e))
        | Inr st \<Rightarrow>
            (case log_index_get_bloom_data env (tbl_data m) tid zero_bloom of
               None \<Rightarrow> None
             | Some (Inl e) \<Rightarrow> Some (Inl e)
             | Some (Inr bloom) \<Rightarrow>
                 let st = log_index_save_bloom st tid bloom;
                     (t, ret) = log_index_save_table env st (tbl_data m) bloom;
                     m' = (if tbl_state m = STATE_ACTIVE \<and> flush_active_table then m else m\<lparr>tbl_data := t\<rparr>)
                 in Some (Inr (m', ret))))"

text \<open>The meta data after the table \<open>tid\<close> was written.\<close>

definition meta_add_table :: "log_index_meta_t \<Rightarrow> nat \<Rightarrow> XLogRecPtr \<Rightarrow> log_index_meta_t" where
  "meta_add_table mt tid l =
    (let mt = mt\<lparr>meta_max_idx_table_id := max (meta_max_idx_table_id mt) tid,
                 meta_max_lsn := max (meta_max_lsn mt) l\<rparr>;
         segment_no' = LOG_INDEX_FILE_TABLE_SEGMENT_NO tid;
         min_seg = min_segment_info mt;
         min_seg = min_seg\<lparr>segment_no := min (segment_no min_seg) segment_no'\<rparr>;
         min_seg = (if segment_no min_seg = segment_no' then
                      min_seg\<lparr>seg_max_lsn := max l (seg_max_lsn min_seg),
                              seg_max_idx_table_id := max tid (seg_max_idx_table_id min_seg),
                              seg_min_idx_table_id := segment_no min_seg * LOG_INDEX_TABLE_NUM_PER_FILE + 1\<rparr>
                    else min_seg)
     in mt\<lparr>min_segment_info := min_seg\<rparr>)"

definition log_index_write_table ::
    "io_env \<Rightarrow> log_store \<Rightarrow> bool \<Rightarrow> log_mem_table_t
      \<Rightarrow> (bool \<times> log_store \<times> log_mem_table_t) result option" where
  "log_index_write_table env st flush_active_table m =
    (let tid = idx_table_id (tbl_data m)
     in if tid = meta_max_idx_table_id (meta st) + 1 then
          let active_state_before_write = (tbl_state m = STATE_ACTIVE)
          in case log_index_write_table_data env st flush_active_table m of
               None \<Rightarrow> None
             | Some (Inl e) \<Rightarrow> Some (Inl e)
             | Some (Inr (m, Inl e)) \<Rightarrow> Some (Inl (log_index_report_io_error e))
             | Some (Inr (m, Inr st)) \<Rightarrow>
                 if active_state_before_write then Some (Inr (True, st, m))
                 else
                   let st = st\<lparr>meta := meta_add_table (meta st) tid (tbl_max_lsn (tbl_data m))\<rparr>
                   in Some (rbind (polar_log_index_write_meta env st True) (\<lambda>st.
                              Inr (True, st, m\<lparr>tbl_state := STATE_FLUSHED\<rparr>)))
        else Some (Inr (False, st, m)))"

section \<open>Reading a segment file\<close>

text \<open>The last table of the file that is not left over from an earlier use of the file.\<close>

fun cache_max_id :: "nat \<Rightarrow> nat \<Rightarrow> log_idx_table_data_t list \<Rightarrow> nat" where
  "cache_max_id min_id max_id [] = LOG_INDEX_TABLE_INVALID_ID"
| "cache_max_id min_id max_id (t # rev_ts) =
    (if min_id \<le> idx_table_id t \<and> idx_table_id t \<le> max_id then idx_table_id t
     else cache_max_id min_id max_id rev_ts)"

definition read_segment_tables ::
    "io_env \<Rightarrow> log_store \<Rightarrow> nat \<Rightarrow> log_index_io_err_t + log_idx_table_data_t list" where
  "read_segment_tables env st segno =
    (if fails env LOG_INDEX_OPEN_FAILED then Inl LOG_INDEX_OPEN_FAILED
     else case tbl_files st segno of
            None \<Rightarrow> Inl LOG_INDEX_OPEN_FAILED
          | Some f \<Rightarrow>
              if fails env LOG_INDEX_READ_FAILED \<or> f = [] then Inl LOG_INDEX_READ_FAILED
              else Inr (take LOG_INDEX_TABLE_NUM_PER_FILE f))"

text \<open>\<open>None\<close> when the file is not the expected one.\<close>

definition log_index_read_seg_file ::
    "io_env \<Rightarrow> log_store \<Rightarrow> nat \<Rightarrow> (log_index_io_err_t + log_table_cache_t) option" where
  "log_index_read_seg_file env st segno =
    (let mt = meta st;
         first = segno * LOG_INDEX_TABLE_NUM_PER_FILE;
         delta_table = (if meta_max_idx_table_id mt \<ge> first then meta_max_idx_table_id mt - first else 0);
         content =
           (case segment_cache env of
              Some cache_read \<Rightarrow>
                if delta_table \<ge> LOG_INDEX_TABLE_NUM_PER_FILE then
                  (case cache_read segno (tbl_files st segno) of None \<Rightarrow> Inl LOG_INDEX_READ_FAILED | Some ts \<Rightarrow> Inr ts)
                else read_segment_tables env st segno
            | None \<Rightarrow> read_segment_tables env st segno)
     in case content of
          Inl e \<Rightarrow> Some (Inl e)
        | Inr ts \<Rightarrow>
            let min_id = first + 1
            in if idx_table_id (hd ts) \<noteq> min_id \<or> min_id > meta_max_idx_table_id mt then None
               else Some (Inr \<lparr>cache_valid = True, cache_min_idx_table_id = min_id,
                               cache_max_idx_table_id = cache_max_id min_id (meta_max_idx_table_id mt) (rev ts),
                               cache_data = ts\<rparr>))"

section \<open>Truncation\<close>

definition log_index_update_min_segment :: "io_env \<Rightarrow> log_store \<Rightarrow> log_store result" where
  "log_index_update_min_segment env st =
    (let mt = meta st;
         min_seg = min_segment_info mt;
         min_seg = min_seg\<lparr>segment_no := segment_no min_seg + 1\<rparr>;
         min_seg = min_seg\<lparr>seg_min_idx_table_id := segment_no min_seg * LOG_INDEX_TABLE_NUM_PER_FILE + 1\<rparr>
     in rbind
          (if LOG_INDEX_FILE_TABLE_SEGMENT_NO (meta_max_idx_table_id mt) = segment_no min_seg
           then Inr (min_seg\<lparr>seg_max_idx_table_id := meta_max_idx_table_id mt,
                             seg_max_lsn := meta_max_lsn mt\<rparr>)
           else
             let max_id = (segment_no min_seg + 1) * LOG_INDEX_TABLE_NUM_PER_FILE
             in case log_index_read_table_data env st max_id of
                  Inl e \<Rightarrow> Inl PANIC
                | Inr t \<Rightarrow> Inr (min_seg\<lparr>seg_max_idx_table_id := max_id, seg_max_lsn := tbl_max_lsn t\<rparr>))
          (\<lambda>min_seg.
             polar_log_index_write_meta env (st\<lparr>meta := mt\<lparr>min_segment_info := min_seg\<rparr>\<rparr>) True))"

text \<open>The unused segment file becomes the next one to be written, or is removed.\<close>

definition log_index_rename_segment_file :: "io_env \<Rightarrow> log_store \<Rightarrow> nat \<Rightarrow> bool \<times> log_store" where
  "log_index_rename_segment_file env st old_seg_no =
    (let max_seg_no = LOG_INDEX_FILE_TABLE_SEGMENT_NO (meta_max_idx_table_id (meta st));
         max_seg_no = max max_seg_no (max_allocated_seg_no st);
         new_seg_no = max_seg_no + 1
     in if rename_fails env \<or> tbl_files st old_seg_no = None then (False, st)
        else (True, st\<lparr>tbl_files := (tbl_files st)(new_seg_no := tbl_files st old_seg_no, old_seg_no := None),
                       max_allocated_seg_no := new_seg_no\<rparr>))"

definition log_index_truncate_tbl :: "io_env \<Rightarrow> log_store \<Rightarrow> nat \<Rightarrow> nat \<Rightarrow> log_store" where
  "log_index_truncate_tbl env st min_segment_no max_segment_no =
    (let (renamed, st') =
           (if max_segment_no - min_segment_no < polar_max_logindex_files env
            then log_index_rename_segment_file env st min_segment_no
            else (False, st))
     in if renamed then st' else st\<lparr>tbl_files := (tbl_files st)(min_segment_no := None)\<rparr>)"

text \<open>
  The loop of \<open>log_index_truncate\<close>; the result carries the last table id that is not needed any more,
  up to whose page the Bloom filters are dropped, and the last segment number that was truncated.
\<close>

partial_function (option) truncate_loop ::
    "io_env \<Rightarrow> log_store \<Rightarrow> XLogRecPtr \<Rightarrow> nat \<Rightarrow> nat \<Rightarrow> (log_store \<times> nat \<times> nat) result option" where
  "truncate_loop env st l min_segment_no max_unused_tid =
    (let mt = meta st; min_seg = min_segment_info mt
     in if meta_crc mt = 0 \<or> XLogRecPtrIsInvalid (meta_max_lsn mt) \<or> XLogRecPtrIsInvalid (seg_max_lsn min_seg)
           \<or> seg_max_lsn min_seg \<ge> l
        then Some (Inr (st, min_segment_no, max_unused_tid))
        else if \<not> LOG_INDEX_FILE_TABLE_SEGMENT_NO (meta_max_idx_table_id mt) \<ge> segment_no min_seg
        then Some (Inl PANIC)
        else if \<not> meta_max_idx_table_id mt \<ge> seg_max_idx_table_id min_seg then Some (Inl PANIC)
        else if LOG_INDEX_FILE_TABLE_SEGMENT_NO (meta_max_idx_table_id mt) = segment_no min_seg
        then Some (Inr (st, min_segment_no, max_unused_tid))
        else
          let max_segment_no = LOG_INDEX_FILE_TABLE_SEGMENT_NO (meta_max_idx_table_id mt);
              min_segment_no = segment_no min_seg;
              max_unused_tid = seg_max_idx_table_id min_seg
          in case log_index_update_min_segment env st of
               Inl e \<Rightarrow> Some (Inl e)
             | Inr st \<Rightarrow>
                 let max_segment_no = max (max_allocated_seg_no st) max_segment_no
                 in truncate_loop env (log_index_truncate_tbl env st min_segment_no max_segment_no) l
                      min_segment_no max_unused_tid)"

text \<open>\<open>SimpleLruTruncate\<close> drops whole files of pages, up to the one that holds the given page.\<close>

definition SLRU_PAGES_PER_SEGMENT :: nat where "SLRU_PAGES_PER_SEGMENT = 32"

definition log_index_truncate_bloom :: "log_store \<Rightarrow> nat \<Rightarrow> log_store" where
  "log_index_truncate_bloom st max_unused_tid =
    (if max_unused_tid \<noteq> LOG_INDEX_TABLE_INVALID_ID then
       let bloom_page = LOG_INDEX_TBL_BLOOM_PAGE_NO max_unused_tid
       in st\<lparr>bloom_pages := (\<lambda>p. if p div SLRU_PAGES_PER_SEGMENT < bloom_page div SLRU_PAGES_PER_SEGMENT
                                 then (\<lambda>_. zero_bloom) else bloom_pages st p)\<rparr>
     else st)"

definition log_index_truncate :: "io_env \<Rightarrow> log_store \<Rightarrow> XLogRecPtr \<Rightarrow> log_store result option" where
  "log_index_truncate env st l =
    (case truncate_loop env st l 0 LOG_INDEX_TABLE_INVALID_ID of
       None \<Rightarrow> None
     | Some (Inl e) \<Rightarrow> Some (Inl e)
     | Some (Inr (st, min_segment_no, max_unused_tid)) \<Rightarrow> Some (Inr (log_index_truncate_bloom st max_unused_tid)))"

definition polar_logindex_truncate :: "io_env \<Rightarrow> log_store \<Rightarrow> XLogRecPtr \<Rightarrow> log_store result option" where
  "polar_logindex_truncate env st l =
    (if \<not> XLogRecPtrIsInvalid l then log_index_truncate env st l else Some (Inr st))"

definition polar_get_logindex_snapshot_storage_min_lsn :: "io_env \<Rightarrow> log_store \<Rightarrow> XLogRecPtr result" where
  "polar_get_logindex_snapshot_storage_min_lsn env st =
    (let tid = seg_min_idx_table_id (min_segment_info (meta st))
     in if tid \<noteq> LOG_INDEX_TABLE_INVALID_ID then
          (case log_index_read_table_data env st tid of
             Inl e \<Rightarrow> Inl PANIC
           | Inr t \<Rightarrow> Inr (tbl_min_lsn t))
        else Inr InvalidXLogRecPtr)"

definition polar_logindex_set_start_lsn :: "io_env \<Rightarrow> log_store \<Rightarrow> XLogRecPtr \<Rightarrow> log_store result" where
  "polar_logindex_set_start_lsn env st l =
    rbind (POLAR_ASSERT_PANIC (\<not> XLogRecPtrIsInvalid l)) (\<lambda>_.
    polar_log_index_write_meta env (st\<lparr>meta := (meta st)\<lparr>start_lsn := l\<rparr>\<rparr>) False)"

end
