(* ===== verification/Log_Snapshot.thy ===== *)
theory Log_Snapshot
  imports Log_Store
begin

text \<open>
  The logindex snapshot of \<open>polar_logindex.c\<close>: a ring of tables in shared memory, one of them active,
  and the operations that insert LSNs, switch the active table, write full tables to storage, load
  tables back and promote a replica. Each operation is one atomic step: the process that inserts is
  the only one that changes the active table, and the others hold the lock of the table they touch.
  Where the code sleeps and tries again, a parameter stands for what the other processes do in
  between.
\<close>

section \<open>State\<close>

record log_index_promoted_info_t =
  old_primary_saved_max_lsn :: XLogRecPtr
  old_primary_saved_max_tid :: nat
  old_primary_max_inserted_lsn :: XLogRecPtr
  old_primary_max_tid :: nat

definition zero_promoted_info :: log_index_promoted_info_t where
  "zero_promoted_info = \<lparr>old_primary_saved_max_lsn = 0, old_primary_saved_max_tid = 0,
     old_primary_max_inserted_lsn = 0, old_primary_max_tid = 0\<rparr>"

text \<open>
  The flags \<open>POLAR_LOGINDEX_STATE_INITIALIZED\<close>, \<open>ADDING\<close> and \<open>WRITABLE\<close> of the state word are three
  fields; \<open>last_flush_max_lsn\<close> and \<open>last_max_table_id\<close> are the static variables of the functions
  that flush, in the one process that calls them. \<open>asked\<close> counts how often the callback
  \<open>table_flushable\<close> was consulted.
\<close>

record log_index_snapshot_t =
  mem_tbl_size :: nat
  mem_table :: "nat \<Rightarrow> log_mem_table_t"
  active_table :: nat
  snap_max_lsn :: XLogRecPtr
  max_parsed_lsn :: XLogRecPtr
  max_idx_table_id :: nat
  state_initialized :: bool
  state_adding :: bool
  state_writable :: bool
  flush_active_table :: bool
  promoted_info :: log_index_promoted_info_t
  store :: log_store
  last_flush_max_lsn :: XLogRecPtr
  last_max_table_id :: nat
  asked :: nat

text \<open>\<open>table_flushable n m\<close> is the answer of the callback the snapshot was created with when it is asked
  for the table \<open>m\<close> after \<open>n\<close> earlier questions: it depends on how far the WAL has been flushed or
  replayed by then, which is outside the snapshot.\<close>

record snap_env = io_env +
  table_flushable :: "nat \<Rightarrow> log_mem_table_t \<Rightarrow> bool"
  polar_logindex_table_batch_size :: nat

text \<open>The callback of the snapshots that redo uses. \<open>pos n\<close> is the position that
  \<open>POLAR_LOGINDEX_FLUSHABLE_LSN\<close> reads the \<open>n\<close>-th time: what is replayed during recovery, else what is
  flushed of the WAL.\<close>

definition polar_logindex_mem_table_max_lsn :: "log_mem_table_t \<Rightarrow> XLogRecPtr" where
  "polar_logindex_mem_table_max_lsn m = tbl_max_lsn (tbl_data m)"

definition polar_logindex_redo_table_flushable :: "(nat \<Rightarrow> XLogRecPtr) \<Rightarrow> nat \<Rightarrow> log_mem_table_t \<Rightarrow> bool" where
  "polar_logindex_redo_table_flushable pos n m \<longleftrightarrow> pos n > polar_logindex_mem_table_max_lsn m"

abbreviation put_table :: "log_index_snapshot_t \<Rightarrow> nat \<Rightarrow> log_mem_table_t \<Rightarrow> log_index_snapshot_t" where
  "put_table s mid m \<equiv> s\<lparr>mem_table := (mem_table s)(mid := m)\<rparr>"

abbreviation LOG_INDEX_MEM_TBL_TID :: "log_mem_table_t \<Rightarrow> nat" where
  "LOG_INDEX_MEM_TBL_TID m \<equiv> idx_table_id (tbl_data m)"

text \<open>The slot of the table \<open>tid\<close> in the ring.\<close>

definition tid_slot :: "log_index_snapshot_t \<Rightarrow> nat \<Rightarrow> nat" where
  "tid_slot s tid = tid_pred tid mod mem_tbl_size s"

definition LOG_INDEX_MEM_TBL_FULL :: "log_mem_table_t \<Rightarrow> bool" where
  "LOG_INDEX_MEM_TBL_FULL m \<longleftrightarrow> free_head m = LOG_INDEX_MEM_TBL_SEG_NUM"

definition LOG_INDEX_MEM_TBL_IS_NEW :: "log_mem_table_t \<Rightarrow> bool" where
  "LOG_INDEX_MEM_TBL_IS_NEW m \<longleftrightarrow> tbl_max_lsn (tbl_data m) = InvalidXLogRecPtr
     \<and> tbl_min_lsn (tbl_data m) = UINT64_MAX \<and> prefix_lsn (tbl_data m) = 0 \<and> free_head m = 1"

definition LOG_INDEX_MEM_TBL_NEW_ACTIVE :: "log_index_snapshot_t \<Rightarrow> nat \<Rightarrow> XLogRecPtr \<Rightarrow> log_index_snapshot_t" where
  "LOG_INDEX_MEM_TBL_NEW_ACTIVE s mid l =
    (let tid = max_idx_table_id s + 1; m = mem_table s mid
     in (put_table s mid (m\<lparr>tbl_data := (tbl_data m)\<lparr>idx_table_id := tid, tbl_max_lsn := InvalidXLogRecPtr,
            tbl_min_lsn := UINT64_MAX, prefix_lsn := ucast (drop_bit 32 l)\<rparr>,
            free_head := 1, tbl_state := STATE_ACTIVE\<rparr>))\<lparr>max_idx_table_id := tid\<rparr>)"

section \<open>Writing a full table\<close>

definition log_index_table_saved_before_promote ::
    "log_index_snapshot_t \<Rightarrow> log_mem_table_t \<Rightarrow> bool result" where
  "log_index_table_saved_before_promote s m =
    (let info = promoted_info s
     in if old_primary_saved_max_tid info \<noteq> LOG_INDEX_TABLE_INVALID_ID then
          if LOG_INDEX_MEM_TBL_TID m = old_primary_saved_max_tid info
             \<and> tbl_max_lsn (tbl_data m) \<noteq> old_primary_saved_max_lsn info
          then Inl PANIC
          else Inr (LOG_INDEX_MEM_TBL_TID m \<le> old_primary_saved_max_tid info)
        else Inr False)"

definition log_index_force_save_table ::
    "snap_env \<Rightarrow> log_index_snapshot_t \<Rightarrow> nat \<Rightarrow> log_index_snapshot_t result option" where
  "log_index_force_save_table env s mid =
    (let m = mem_table s mid
     in if \<not> state_writable s then
          let (ok, mt) = log_index_get_meta (io_env.truncate env) (store s);
              s = s\<lparr>store := (store s)\<lparr>meta := mt\<rparr>\<rparr>
          in if \<not> ok then Some (Inl FATAL)
             else if meta_max_idx_table_id mt \<ge> LOG_INDEX_MEM_TBL_TID m
             then Some (Inr (put_table s mid (m\<lparr>tbl_state := STATE_FLUSHED\<rparr>)))
             else Some (Inr s)
        else if table_flushable env (asked s) m then
          let s = s\<lparr>asked := asked s + 1\<rparr>
          in (case log_index_table_saved_before_promote s m of
             Inl e \<Rightarrow> Some (Inl e)
           | Inr True \<Rightarrow> Some (Inr (put_table s mid (m\<lparr>tbl_state := STATE_FLUSHED\<rparr>)))
           | Inr False \<Rightarrow>
               (case log_index_write_table (io_env.truncate env) (store s) (flush_active_table s) m of
                  None \<Rightarrow> None
                | Some (Inl e) \<Rightarrow> Some (Inl e)
                | Some (Inr (succeed, st, m)) \<Rightarrow>
                    if \<not> succeed then Some (Inl FATAL)
                    else Some (Inr (put_table (s\<lparr>store := st\<rparr>) mid m))))
        else Some (Inr (s\<lparr>asked := asked s + 1\<rparr>)))"

section \<open>The active table\<close>

text \<open>One turn of the loop of \<open>log_index_wait_active\<close>, under the lock of the table.\<close>

definition wait_active_turn ::
    "snap_env \<Rightarrow> log_index_snapshot_t \<Rightarrow> nat \<Rightarrow> XLogRecPtr \<Rightarrow> log_index_snapshot_t result option" where
  "wait_active_turn env s mid l =
    (case (if tbl_state (mem_table s mid) = STATE_INACTIVE then log_index_force_save_table env s mid
           else Some (Inr s)) of
       None \<Rightarrow> None
     | Some (Inl e) \<Rightarrow> Some (Inl e)
     | Some (Inr s) \<Rightarrow>
         let s = (if tbl_state (mem_table s mid) = STATE_FLUSHED then put_table s mid zero_mem_table else s);
             s = (if tbl_state (mem_table s mid) = STATE_FREE then LOG_INDEX_MEM_TBL_NEW_ACTIVE s mid l else s)
         in Some (Inr s))"

partial_function (option) log_index_wait_active ::
    "snap_env \<Rightarrow> (log_index_snapshot_t \<Rightarrow> log_index_snapshot_t) \<Rightarrow> log_index_snapshot_t \<Rightarrow> nat \<Rightarrow> XLogRecPtr
      \<Rightarrow> log_index_snapshot_t result option" where
  "log_index_wait_active env others s mid l =
    (case wait_active_turn env s mid l of
       None \<Rightarrow> None
     | Some (Inl e) \<Rightarrow> Some (Inl e)
     | Some (Inr s) \<Rightarrow>
         if tbl_state (mem_table s mid) = STATE_ACTIVE \<and> \<not> LOG_INDEX_MEM_TBL_FULL (mem_table s mid)
         then Some (Inr s)
         else log_index_wait_active env others (others s) mid l)"

text \<open>
  \<open>log_index_next_free_seg\<close>; \<open>next_mem_id\<close> is \<open>None\<close> for -1, and \<open>active\<close> is the table behind the
  caller's pointer. The result is the new segment, that table, and the snapshot.
\<close>

partial_function (option) next_free_seg_loop ::
    "snap_env \<Rightarrow> (log_index_snapshot_t \<Rightarrow> log_index_snapshot_t) \<Rightarrow> log_index_snapshot_t \<Rightarrow> XLogRecPtr
      \<Rightarrow> nat option \<Rightarrow> nat \<Rightarrow> (log_seg_id_t \<times> nat \<times> log_index_snapshot_t) result option" where
  "next_free_seg_loop env others s l next_mem_id active =
    (let mid = active_table s;
         m = mem_table s mid;
         (dst, s, next_mem_id) =
           (if tbl_state m = STATE_ACTIVE then
              if LOG_INDEX_MEM_TBL_IS_NEW m then
                (free_head m,
                 put_table s mid (m\<lparr>tbl_data := (tbl_data m)\<lparr>prefix_lsn := ucast (drop_bit 32 l)\<rparr>,
                                    free_head := free_head m + 1\<rparr>), next_mem_id)
              else if LOG_INDEX_MEM_TBL_FULL m \<or> \<not> LOG_INDEX_SAME_TABLE_LSN_PREFIX (tbl_data m) l then
                (LOG_INDEX_TBL_INVALID_SEG, put_table s mid (m\<lparr>tbl_state := STATE_INACTIVE\<rparr>),
                 Some (LOOP_NEXT_VALUE mid (mem_tbl_size s)))
              else (free_head m, put_table s mid (m\<lparr>free_head := free_head m + 1\<rparr>), next_mem_id)
            else (LOG_INDEX_TBL_INVALID_SEG, s, next_mem_id))
     in if dst \<noteq> LOG_INDEX_TBL_INVALID_SEG then Some (Inr (dst, active, s))
        else
          let active = (case next_mem_id of None \<Rightarrow> active | Some n \<Rightarrow> n);
              waited = (case next_mem_id of None \<Rightarrow> mid | Some n \<Rightarrow> n)
          in case log_index_wait_active env others s waited l of
               None \<Rightarrow> None
             | Some (Inl e) \<Rightarrow> Some (Inl e)
             | Some (Inr s) \<Rightarrow>
                 next_free_seg_loop env others
                   (case next_mem_id of None \<Rightarrow> s | Some n \<Rightarrow> s\<lparr>active_table := n\<rparr>) l next_mem_id active)"

definition log_index_next_free_seg ::
    "snap_env \<Rightarrow> (log_index_snapshot_t \<Rightarrow> log_index_snapshot_t) \<Rightarrow> log_index_snapshot_t \<Rightarrow> XLogRecPtr
      \<Rightarrow> nat \<Rightarrow> (log_seg_id_t \<times> nat \<times> log_index_snapshot_t) result option" where
  "log_index_next_free_seg env others s l active = next_free_seg_loop env others s l None active"

section \<open>Inserting\<close>

text \<open>The bounds of the table and of the snapshot after an insertion.\<close>

definition update_lsn_bounds :: "log_index_snapshot_t \<Rightarrow> nat \<Rightarrow> XLogRecPtr \<Rightarrow> log_index_snapshot_t" where
  "update_lsn_bounds s mid l =
    (let m = mem_table s mid; t = tbl_data m;
         t = t\<lparr>tbl_max_lsn := max l (tbl_max_lsn t), tbl_min_lsn := min l (tbl_min_lsn t)\<rparr>
     in (put_table s mid (m\<lparr>tbl_data := t\<rparr>))\<lparr>snap_max_lsn := tbl_max_lsn t\<rparr>)"

definition log_index_insert_lsn ::
    "snap_env \<Rightarrow> (log_index_snapshot_t \<Rightarrow> log_index_snapshot_t) \<Rightarrow> log_index_snapshot_t \<Rightarrow> log_index_lsn_t
      \<Rightarrow> nat \<Rightarrow> log_index_snapshot_t result option" where
  "log_index_insert_lsn env others s info key =
    (if \<not> li_prev_lsn info < li_lsn info then Some (Inl PANIC)
     else
       let active = active_table s; m = mem_table s active
       in case (if tbl_state m = STATE_ACTIVE \<and> LOG_INDEX_SAME_TABLE_LSN_PREFIX (tbl_data m) (li_lsn info)
                then log_index_mem_tbl_exists_page (li_tag info) (tbl_data m) key
                else Some (Inr LOG_INDEX_TBL_INVALID_SEG)) of
            None \<Rightarrow> None
          | Some (Inl e) \<Rightarrow> Some (Inl e)
          | Some (Inr head) \<Rightarrow>
              let new_item = (head = LOG_INDEX_TBL_INVALID_SEG)
              in case (if new_item then Inr True else log_index_mem_seg_full m head) of
                   Inl e \<Rightarrow> Some (Inl e)
                 | Inr False \<Rightarrow>
                     Some (rbind (insert_append m head info) (\<lambda>m.
                       Inr (update_lsn_bounds (put_table s active m) active (li_lsn info))))
                 | Inr True \<Rightarrow>
                     (case log_index_next_free_seg env others s (li_lsn info) active of
                        None \<Rightarrow> None
                      | Some (Inl e) \<Rightarrow> Some (Inl e)
                      | Some (Inr (dst, active', s)) \<Rightarrow>
                          if dst = LOG_INDEX_TBL_INVALID_SEG then Some (Inl PANIC)
                          else Some (rbind (insert_at_dst (mem_table s active') (new_item \<or> active' \<noteq> active)
                                              head key dst info) (\<lambda>m.
                            Inr (update_lsn_bounds (put_table s active' m) active' (li_lsn info))))))"

text \<open>
  The scan of \<open>log_index_exists_in_saved_table\<close> from the newest entry back, over the entries that have
  the LSN.
\<close>

fun saved_table_loop :: "log_idx_table_data_t \<Rightarrow> log_index_lsn_t \<Rightarrow> nat \<Rightarrow> bool result" where
  "saved_table_loop t info 0 = Inr False"
| "saved_table_loop t info (Suc i) =
    (case log_index_get_order_lsn t i of
       Inl e \<Rightarrow> Inl e
     | Inr (l, saved) \<Rightarrow>
         if l \<noteq> li_lsn info then Inr False
         else if (case saved of None \<Rightarrow> False | Some x \<Rightarrow> BUFFERTAGS_EQUAL (li_tag info) (li_tag x)) then Inr True
         else saved_table_loop t info i)"

definition log_index_exists_in_saved_table :: "log_index_snapshot_t \<Rightarrow> log_index_lsn_t \<Rightarrow> bool result" where
  "log_index_exists_in_saved_table s info =
    (let m = mem_table s (LOOP_PREV_VALUE (active_table s) (mem_tbl_size s))
     in if tbl_state m \<noteq> STATE_FLUSHED then Inr False
        else saved_table_loop (tbl_data m) info (last_order (tbl_data m)))"

definition polar_logindex_add_lsn ::
    "snap_env \<Rightarrow> (log_index_snapshot_t \<Rightarrow> log_index_snapshot_t) \<Rightarrow> log_index_snapshot_t
      \<Rightarrow> BufferTag \<Rightarrow> XLogRecPtr \<Rightarrow> XLogRecPtr \<Rightarrow> log_index_snapshot_t result option" where
  "polar_logindex_add_lsn env others s page prev l =
    (let key = LOG_INDEX_MEM_TBL_HASH_PAGE page_hash page;
         info = \<lparr>li_tag = page, li_lsn = l, li_prev_lsn = prev\<rparr>;
         mt = meta (store s)
     in if \<not> l > prev then Some (Inl PANIC)
        else if \<not> state_adding s then
          if l < start_lsn mt then Some (Inr s)
          else if l < meta_max_lsn mt then Some (Inr s)
          else
            (case (if meta_max_lsn mt = l then log_index_exists_in_saved_table s info else Inr False) of
               Inl e \<Rightarrow> Some (Inl e)
             | Inr True \<Rightarrow> Some (Inr s)
             | Inr False \<Rightarrow> log_index_insert_lsn env others (s\<lparr>state_adding := True\<rparr>) info key)
        else log_index_insert_lsn env others s info key)"

section \<open>Flushing\<close>

text \<open>
  What one turn of the loop of \<open>log_index_flush_table\<close> does to the table \<open>mid\<close>: \<open>None\<close> when nothing
  changed since the last flush of the active table, otherwise the snapshot and the number of tables
  flushed so far.
\<close>

definition flush_one ::
    "snap_env \<Rightarrow> log_index_snapshot_t \<Rightarrow> bool \<Rightarrow> nat \<Rightarrow> nat
      \<Rightarrow> (log_index_snapshot_t \<times> nat) option result option" where
  "flush_one env s flush_active mid flushed =
    (let m = mem_table s mid
     in if tbl_state m = STATE_INACTIVE
           \<or> (flush_active \<and> tbl_state m = STATE_ACTIVE \<and> \<not> LOG_INDEX_MEM_TBL_IS_NEW m)
        then
          if flush_active \<and> tbl_state m = STATE_ACTIVE \<and> last_flush_max_lsn s = tbl_max_lsn (tbl_data m)
             \<and> \<not> LOG_INDEX_MEM_TBL_IS_NEW m
          then Some (Inr None)
          else if table_flushable env (asked s) m then
            let s = s\<lparr>asked := asked s + 1\<rparr>
            in (case log_index_table_saved_before_promote s m of
               Inl e \<Rightarrow> Some (Inl e)
             | Inr saved \<Rightarrow>
                 (case (if saved then
                          Some (Inr (True, store s,
                            if tbl_state m = STATE_INACTIVE then m\<lparr>tbl_state := STATE_FLUSHED\<rparr> else m))
                        else log_index_write_table (io_env.truncate env) (store s) (flush_active_table s) m) of
                    None \<Rightarrow> None
                  | Some (Inl e) \<Rightarrow> Some (Inl e)
                  | Some (Inr (succeed, st, m)) \<Rightarrow>
                      let s = put_table (s\<lparr>store := st\<rparr>) mid m
                      in if succeed then
                           Some (Inr (Some (if flush_active
                                            then s\<lparr>last_flush_max_lsn := tbl_max_lsn (tbl_data m)\<rparr> else s,
                                            flushed + 1)))
                         else Some (Inr (Some (s, flushed)))))
          else Some (Inr (Some (s\<lparr>asked := asked s + 1\<rparr>, flushed)))
        else Some (Inr (Some (s, flushed))))"

partial_function (option) flush_table_loop ::
    "snap_env \<Rightarrow> log_index_snapshot_t \<Rightarrow> XLogRecPtr \<Rightarrow> bool \<Rightarrow> nat \<Rightarrow> nat
      \<Rightarrow> (bool \<times> log_index_snapshot_t) result option" where
  "flush_table_loop env s checkpoint_lsn flush_active mid flushed =
    (case flush_one env s flush_active mid flushed of
       None \<Rightarrow> None
     | Some (Inl e) \<Rightarrow> Some (Inl e)
     | Some (Inr None) \<Rightarrow> Some (Inr (True, s))
     | Some (Inr (Some (s, flushed))) \<Rightarrow>
         let mt = meta (store s);
             active = mem_table s (active_table s);
             behind = LOG_INDEX_MEM_TBL_TID active > meta_max_idx_table_id mt + 1;
             need_flush = (behind \<and>
               (if XLogRecPtrIsInvalid checkpoint_lsn
                then flushed < polar_logindex_table_batch_size env
                else checkpoint_lsn > meta_max_lsn mt
                     \<and> \<not> (checkpoint_lsn \<ge> tbl_min_lsn (tbl_data active)
                          \<and> checkpoint_lsn \<le> tbl_max_lsn (tbl_data active))));
             write_done = (\<not> behind)
         in if need_flush
            then flush_table_loop env s checkpoint_lsn flush_active
                   (meta_max_idx_table_id mt mod mem_tbl_size s) flushed
            else Some (Inr (write_done, s)))"

definition log_index_flush_table ::
    "snap_env \<Rightarrow> log_index_snapshot_t \<Rightarrow> XLogRecPtr \<Rightarrow> bool \<Rightarrow> (bool \<times> log_index_snapshot_t) result option" where
  "log_index_flush_table env s checkpoint_lsn flush_active =
    flush_table_loop env s checkpoint_lsn flush_active
      (meta_max_idx_table_id (meta (store s)) mod mem_tbl_size s) 0"

text \<open>The loop runs at most once around the ring, which \<open>n\<close> counts down.\<close>

fun replica_state_loop :: "log_index_snapshot_t \<Rightarrow> nat \<Rightarrow> nat \<Rightarrow> nat \<Rightarrow> log_index_snapshot_t" where
  "replica_state_loop s max_saved_tid 0 mid = s"
| "replica_state_loop s max_saved_tid (Suc n) mid =
    (let m = mem_table s mid
     in if tbl_state m = STATE_INACTIVE then
          replica_state_loop
            (if LOG_INDEX_MEM_TBL_TID m \<le> max_saved_tid
             then put_table s mid (m\<lparr>tbl_state := STATE_FLUSHED\<rparr>) else s)
            max_saved_tid n (LOOP_PREV_VALUE mid (mem_tbl_size s))
        else s)"

definition log_index_update_replica_table_state :: "log_index_snapshot_t \<Rightarrow> nat \<Rightarrow> log_index_snapshot_t" where
  "log_index_update_replica_table_state s max_saved_tid =
    (if max_saved_tid = LOG_INDEX_TABLE_INVALID_ID then s
     else replica_state_loop s max_saved_tid (mem_tbl_size s) (tid_slot s max_saved_tid))"

definition log_index_replica_bg_write :: "snap_env \<Rightarrow> log_index_snapshot_t \<Rightarrow> bool \<times> log_index_snapshot_t" where
  "log_index_replica_bg_write env s =
    (if max_idx_table_id s = last_max_table_id s then (True, s)
     else
       let s = s\<lparr>last_max_table_id := max_idx_table_id s\<rparr>;
           (ok, mt) = log_index_get_meta (io_env.truncate env) (store s);
           s = s\<lparr>store := (store s)\<lparr>meta := mt\<rparr>\<rparr>;
           max_saved_tid = (if ok then meta_max_idx_table_id mt else LOG_INDEX_TABLE_INVALID_ID)
       in (True, log_index_update_replica_table_state s max_saved_tid))"

definition polar_logindex_bg_write ::
    "snap_env \<Rightarrow> log_index_snapshot_t \<Rightarrow> (bool \<times> log_index_snapshot_t) result option" where
  "polar_logindex_bg_write env s =
    (if state_adding s then
       if \<not> state_writable s then Some (Inr (log_index_replica_bg_write env s))
       else log_index_flush_table env s InvalidXLogRecPtr False
     else Some (Inr (True, s)))"

section \<open>Reading a table\<close>

text \<open>
  \<open>log_index_read_table\<close>: the table from memory if its slot holds it, else from its segment file. The
  result tells whether the data is the one in shared memory. \<open>shared\<close> and \<open>exclusive\<close> say whether the
  two conditional attempts to take the lock of the slot succeed.
\<close>

definition log_index_read_table ::
    "io_env \<Rightarrow> log_index_snapshot_t \<Rightarrow> nat \<Rightarrow> bool \<Rightarrow> bool
      \<Rightarrow> (bool \<times> log_idx_table_data_t \<times> log_index_snapshot_t) result" where
  "log_index_read_table env s tid shared exclusive =
    (let mid = tid_slot s tid; m = mem_table s mid
     in if shared \<and> tbl_state m = STATE_FLUSHED \<and> tid = LOG_INDEX_MEM_TBL_TID m
        then Inr (True, tbl_data m, s)
        else
          let cache = table_cache (store s)
          in rbind (if \<not> cache_valid cache \<or> tid < cache_min_idx_table_id cache
                       \<or> tid > cache_max_idx_table_id cache
                    then (case log_index_read_seg_file env (store s) (LOG_INDEX_FILE_TABLE_SEGMENT_NO tid) of
                            Some (Inr cache) \<Rightarrow> Inr cache
                          | Some (Inl e) \<Rightarrow> Inl (log_index_report_io_error e)
                          | None \<Rightarrow> Inl FATAL)
                    else Inr cache) (\<lambda>cache.
             if tid < cache_min_idx_table_id cache \<or> tid > cache_max_idx_table_id cache then Inl PANIC
             else
               let t = cache_data cache ! (tid - cache_min_idx_table_id cache);
                   s = s\<lparr>store := (store s)\<lparr>table_cache := cache\<rparr>\<rparr>;
                   s = (if exclusive \<and> tbl_state m = STATE_FLUSHED \<and> tid \<noteq> LOG_INDEX_MEM_TBL_TID m
                        then put_table s mid (m\<lparr>tbl_data := t\<rparr>) else s)
               in Inr (False, t, s)))"

section \<open>Loading tables into memory\<close>

text \<open>The loop that reads saved tables from the newest to the oldest.\<close>

fun load_tables_loop ::
    "io_env \<Rightarrow> log_index_snapshot_t \<Rightarrow> XLogRecPtr \<Rightarrow> nat \<Rightarrow> nat \<Rightarrow> log_index_snapshot_t result" where
  "load_tables_loop env s l min_tid 0 = Inr s"
| "load_tables_loop env s l min_tid (Suc k) =
    (let tid = Suc k
     in if tid \<ge> min_tid then
          (case log_index_read_table_data env (store s) tid of
             Inl e \<Rightarrow> Inl PANIC
           | Inr t \<Rightarrow>
               let mid = tid_slot s tid;
                   m = mem_table s mid;
                   s = put_table s mid (m\<lparr>tbl_data := t, tbl_state := STATE_FLUSHED,
                                          free_head := LOG_INDEX_MEM_TBL_SEG_NUM\<rparr>)
               in if idx_table_id t \<noteq> tid then Inl PANIC
                  else if \<not> XLogRecPtrIsInvalid l \<and> l \<ge> tbl_min_lsn t then Inr s
                  else load_tables_loop env s l min_tid k)
        else Inr s)"

text \<open>The first free segment of a table read from storage.\<close>

function find_free_head :: "log_mem_table_t \<Rightarrow> log_mem_table_t result" where
  "find_free_head m =
    (if LOG_INDEX_MEM_TBL_FULL m then Inr m
     else
       (case log_index_item_head (free_head m) of
          Inl e \<Rightarrow> Inl e
        | Inr None \<Rightarrow> Inr m
        | Inr (Some p) \<Rightarrow>
            if head_seg_of (segment (tbl_data m) p) = LOG_INDEX_TBL_INVALID_SEG then Inr m
            else find_free_head (m\<lparr>free_head := free_head m + 1\<rparr>)))"
  by pat_completeness auto
termination
  by (relation "measure (\<lambda>m. LOG_INDEX_MEM_TBL_SEG_NUM - free_head m)")
    (auto simp: LOG_INDEX_MEM_TBL_FULL_def log_index_item_head_def split: if_splits)

declare find_free_head.simps [simp del]

text \<open>The last part of the load: the active table may be on storage in a newer version.\<close>

definition refresh_active :: "io_env \<Rightarrow> log_index_snapshot_t \<Rightarrow> log_index_snapshot_t result" where
  "refresh_active env s =
    (let mid = active_table s; m = mem_table s mid
     in rbind (POLAR_ASSERT_PANIC (LOG_INDEX_MEM_TBL_TID m \<noteq> LOG_INDEX_TABLE_INVALID_ID)) (\<lambda>_.
        case log_index_read_table_data env (store s) (LOG_INDEX_MEM_TBL_TID m) of
          Inl e \<Rightarrow> Inr s
        | Inr t \<Rightarrow>
            if idx_table_id t = LOG_INDEX_MEM_TBL_TID m then
              let m = (if tbl_max_lsn t > tbl_max_lsn (tbl_data m) then m\<lparr>tbl_data := t\<rparr> else m)
              in rbind (POLAR_ASSERT_PANIC (tbl_max_lsn (tbl_data m) \<ge> snap_max_lsn s)) (\<lambda>_.
                 rbind (find_free_head m) (\<lambda>m'.
                 Inr ((put_table s mid m')\<lparr>max_idx_table_id := LOG_INDEX_MEM_TBL_TID m,
                        snap_max_lsn := tbl_max_lsn (tbl_data m)\<rparr>)))
            else Inr s))"

text \<open>The ids of the tables to load: the smallest, and the largest.\<close>

definition load_range :: "log_index_snapshot_t \<Rightarrow> nat \<Rightarrow> nat \<times> nat" where
  "load_range s new_max =
    (if \<not> state_initialized s then
       let min_info = seg_min_idx_table_id (min_segment_info (meta (store s)));
           min_tid = (if new_max > mem_tbl_size s
                      then max (new_max - mem_tbl_size s + 1) min_info else min_info)
       in (if min_tid = LOG_INDEX_TABLE_INVALID_ID then new_max else min_tid, new_max)
     else
       let min_tid = LOG_INDEX_MEM_TBL_TID (mem_table s (active_table s))
       in (min_tid, min new_max (min_tid + mem_tbl_size s - 1)))"

definition polar_load_logindex_snapshot_from_storage ::
    "snap_env \<Rightarrow> (log_index_snapshot_t \<Rightarrow> log_index_snapshot_t) \<Rightarrow> log_index_snapshot_t \<Rightarrow> XLogRecPtr
      \<Rightarrow> log_index_snapshot_t result option" where
  "polar_load_logindex_snapshot_from_storage env others s l =
    (let io = io_env.truncate env;
         (ok, mt) = log_index_get_meta io (store s);
         s = s\<lparr>store := (store s)\<lparr>meta := mt\<rparr>\<rparr>;
         new_max = (if ok then meta_max_idx_table_id mt else LOG_INDEX_TABLE_INVALID_ID);
         initialized = state_initialized s
     in if new_max = LOG_INDEX_TABLE_INVALID_ID then Some (Inr s)
        else if \<not> initialized \<and> XLogRecPtrIsInvalid l then Some (Inl PANIC)
        else
          case (if initialized \<and> LOG_INDEX_MEM_TBL_TID (mem_table s (active_table s)) = LOG_INDEX_TABLE_INVALID_ID
                then log_index_wait_active env others s (active_table s) InvalidXLogRecPtr
                else Some (Inr s)) of
            None \<Rightarrow> None
          | Some (Inl e) \<Rightarrow> Some (Inl e)
          | Some (Inr s) \<Rightarrow>
              let (min_tid, new_max) = load_range s new_max
              in if min_tid = LOG_INDEX_TABLE_INVALID_ID then Some (Inl PANIC)
                 else
                   case (if new_max \<ge> min_tid then
                           (case load_tables_loop io s l min_tid new_max of
                              Inl e \<Rightarrow> Some (Inl e)
                            | Inr s \<Rightarrow>
                                let old = mem_table s (tid_slot s new_max);
                                    s = s\<lparr>max_idx_table_id := new_max, snap_max_lsn := tbl_max_lsn (tbl_data old),
                                          active_table := new_max mod mem_tbl_size s\<rparr>
                                in log_index_wait_active env others s (active_table s) InvalidXLogRecPtr)
                         else Some (Inr s)) of
                     None \<Rightarrow> None
                   | Some (Inl e) \<Rightarrow> Some (Inl e)
                   | Some (Inr s) \<Rightarrow>
                       if \<not> initialized then Some (Inr s) else Some (refresh_active io s))"

section \<open>Start and promotion\<close>

definition polar_logindex_snapshot_remove_data :: "log_index_snapshot_t \<Rightarrow> log_index_snapshot_t" where
  "polar_logindex_snapshot_remove_data s =
    (if \<not> state_writable s then s
     else s\<lparr>store := (store s)\<lparr>meta_file := None, tbl_files := (\<lambda>_. None)\<rparr>\<rparr>)"

text \<open>
  \<open>same_tli\<close> tells whether a position lies on the timeline being replayed, by the timeline history.
\<close>

definition polar_logindex_snapshot_base_init ::
    "snap_env \<Rightarrow> (log_index_snapshot_t \<Rightarrow> log_index_snapshot_t) \<Rightarrow> log_index_snapshot_t \<Rightarrow> XLogRecPtr
      \<Rightarrow> (XLogRecPtr \<Rightarrow> bool) \<Rightarrow> (XLogRecPtr \<times> log_index_snapshot_t) result option" where
  "polar_logindex_snapshot_base_init env others s checkpoint_lsn same_tli =
    (if state_initialized s \<or> XLogRecPtrIsInvalid checkpoint_lsn then Some (Inl PANIC)
     else
       let (ok, mt) = log_index_get_meta (io_env.truncate env) (store s);
           s = s\<lparr>store := (store s)\<lparr>meta := mt\<rparr>\<rparr>;
           s = (if \<not> ok \<or> \<not> same_tli (start_lsn mt)
                then let s = polar_logindex_snapshot_remove_data s
                     in s\<lparr>store := (store s)\<lparr>meta := zero_meta\<rparr>\<rparr>
                else s);
           mt = meta (store s);
           s = s\<lparr>promoted_info := zero_promoted_info, max_idx_table_id := meta_max_idx_table_id mt,
                 active_table := meta_max_idx_table_id mt mod mem_tbl_size s,
                 snap_max_lsn := meta_max_lsn mt, mem_table := (\<lambda>_. zero_mem_table)\<rparr>;
           start = (if \<not> XLogRecPtrIsInvalid (start_lsn mt) \<and> start_lsn mt < checkpoint_lsn
                    then start_lsn mt else checkpoint_lsn)
       in case polar_load_logindex_snapshot_from_storage env others s checkpoint_lsn of
            None \<Rightarrow> None
          | Some (Inl e) \<Rightarrow> Some (Inl e)
          | Some (Inr s) \<Rightarrow> Some (Inr (start, s\<lparr>state_initialized := True\<rparr>)))"

definition polar_logindex_snapshot_init ::
    "snap_env \<Rightarrow> (log_index_snapshot_t \<Rightarrow> log_index_snapshot_t) \<Rightarrow> log_index_snapshot_t \<Rightarrow> XLogRecPtr
      \<Rightarrow> (XLogRecPtr \<Rightarrow> bool) \<Rightarrow> bool \<Rightarrow> bool \<Rightarrow> (XLogRecPtr \<times> log_index_snapshot_t) result option" where
  "polar_logindex_snapshot_init env others s checkpoint_lsn same_tli read_only flush_active =
    (case polar_logindex_snapshot_base_init env others
            (if \<not> read_only then s\<lparr>state_writable := True\<rparr> else s) checkpoint_lsn same_tli of
       None \<Rightarrow> None
     | Some (Inl e) \<Rightarrow> Some (Inl e)
     | Some (Inr (start, s)) \<Rightarrow> Some (Inr (start, s\<lparr>flush_active_table := flush_active\<rparr>)))"

definition polar_logindex_online_promote :: "snap_env \<Rightarrow> log_index_snapshot_t \<Rightarrow> bool \<Rightarrow> log_index_snapshot_t result" where
  "polar_logindex_online_promote env s missing_ok =
    (let (ok, mt) = log_index_get_meta (io_env.truncate env) (store s);
         s = s\<lparr>store := (store s)\<lparr>meta := mt\<rparr>\<rparr>
     in rbind (if ok then
                 Inr (meta_max_idx_table_id mt,
                      s\<lparr>promoted_info := (promoted_info s)\<lparr>old_primary_saved_max_lsn := meta_max_lsn mt,
                          old_primary_saved_max_tid := meta_max_idx_table_id mt,
                          old_primary_max_tid := meta_max_idx_table_id mt\<rparr>\<rparr>)
               else if missing_ok then
                 let s = polar_logindex_snapshot_remove_data s
                 in Inr (LOG_INDEX_TABLE_INVALID_ID, s\<lparr>store := (store s)\<lparr>meta := zero_meta\<rparr>\<rparr>)
               else Inl FATAL) (\<lambda>(max_saved_tid, s).
        Inr (log_index_update_replica_table_state (s\<lparr>state_writable := True\<rparr>) max_saved_tid)))"

text \<open>\<open>consistent\<close> is \<open>InRecovery && reachedConsistency\<close>.\<close>

definition polar_logindex_check_valid_start_lsn ::
    "snap_env \<Rightarrow> log_index_snapshot_t \<Rightarrow> bool \<Rightarrow> (XLogRecPtr \<times> log_index_snapshot_t) result" where
  "polar_logindex_check_valid_start_lsn env s consistent =
    (let mt = meta (store s)
     in if \<not> XLogRecPtrIsInvalid (start_lsn mt) then Inr (start_lsn mt, s)
        else if consistent \<and> \<not> state_writable s then
          let (ok, mt) = log_index_get_meta (io_env.truncate env) (store s);
              s = s\<lparr>store := (store s)\<lparr>meta := mt\<rparr>\<rparr>
          in if ok then Inr (start_lsn mt, s) else Inl FATAL
        else Inr (InvalidXLogRecPtr, s))"

definition polar_logindex_update_promoted_info :: "log_index_snapshot_t \<Rightarrow> XLogRecPtr \<Rightarrow> log_index_snapshot_t" where
  "polar_logindex_update_promoted_info s last_replayed_lsn =
    s\<lparr>promoted_info := (promoted_info s)\<lparr>old_primary_max_inserted_lsn := last_replayed_lsn,
        old_primary_max_tid := max_idx_table_id s\<rparr>\<rparr>"

definition polar_logindex_used_mem_tbl_size :: "log_index_snapshot_t option \<Rightarrow> nat" where
  "polar_logindex_used_mem_tbl_size snapshot =
    (case snapshot of
       None \<Rightarrow> 0
     | Some s \<Rightarrow> max_idx_table_id s - meta_max_idx_table_id (meta (store s)))"

end
