(* ===== verification/Log_Iter.thy ===== *)
theory Log_Iter
  imports Log_Snapshot
begin

text \<open>
  The iterators of \<open>polar_logindex_iterator.c\<close>. A page iterator collects the LSNs of one page in a range
  by walking the tables from the newest to the oldest and pushing LSNs on a stack, then pops them in
  ascending order. An LSN iterator walks the entries of all pages in the order of insertion.
\<close>

section \<open>Stacks of LSNs\<close>

datatype log_index_iter_state_t = ITERATE_STATE_FORWARD | ITERATE_STATE_BACKWARD
  | ITERATE_STATE_FINISHED | ITERATE_STATE_HOLLOW | ITERATE_STATE_CORRUPTED

definition LOG_INDEX_PAGE_STACK_ITEM_SIZE :: nat where "LOG_INDEX_PAGE_STACK_ITEM_SIZE = 64"

record log_index_page_lsn_t =
  item_size :: nat
  iter_pos :: nat
  item_lsn :: "nat \<Rightarrow> XLogRecPtr"
  item_prev_lsn :: XLogRecPtr

text \<open>The linked items of the stack of a table are a list, its head first.\<close>

record log_index_tbl_stack_lsn_t =
  stack_prev_page_lsn :: XLogRecPtr
  stack_items :: "log_index_page_lsn_t list"

type_synonym log_index_page_stack_lsn_t = "log_index_tbl_stack_lsn_t list"

definition log_index_tbl_stack_next_item :: "log_index_page_lsn_t list \<Rightarrow> nat \<times> log_index_page_lsn_t list" where
  "log_index_tbl_stack_next_item items =
    (let items = (if items = [] \<or> item_size (hd items) = LOG_INDEX_PAGE_STACK_ITEM_SIZE
                  then \<lparr>item_size = 0, iter_pos = 0, item_lsn = (\<lambda>_. 0), item_prev_lsn = 0\<rparr> # items
                  else items);
         item = hd items;
         idx = item_size item;
         item = item\<lparr>item_size := item_size item + 1, iter_pos := item_size item + 1\<rparr>
     in (idx, item # tl items))"

definition log_index_tbl_stack_pop_lsn ::
    "log_index_page_lsn_t list \<Rightarrow> ((XLogRecPtr \<times> XLogRecPtr) \<times> log_index_page_lsn_t list) option" where
  "log_index_tbl_stack_pop_lsn items =
    (case items of
       [] \<Rightarrow> None
     | item # rest \<Rightarrow>
         let idx = iter_pos item - 1;
             prev = (if iter_pos item = item_size item then item_prev_lsn item else item_lsn item (idx + 1));
             l = item_lsn item idx;
             item = item\<lparr>iter_pos := iter_pos item - 1\<rparr>
         in Some ((prev, l), if iter_pos item = 0 then rest else item # rest))"

section \<open>Page iterators\<close>

record log_index_page_iter_data_t =
  it_tag :: BufferTag
  it_min_lsn :: XLogRecPtr
  it_max_lsn :: XLogRecPtr
  iter_prev_lsn :: XLogRecPtr
  iter_max_lsn :: XLogRecPtr
  it_max_idx_table_id :: nat
  lsn_stack :: log_index_page_stack_lsn_t
  it_key :: nat
  it_state :: log_index_iter_state_t

text \<open>
  The loop of \<open>log_index_page_iterate_push_lsn\<close> over the \<open>i\<close> LSNs of the segment \<open>seg_id\<close>, from the last
  one back; \<open>suffix\<close> is the array of the head or of the segment.
\<close>

fun push_lsn_loop ::
    "log_idx_table_data_t \<Rightarrow> log_seg_id_t \<Rightarrow> (nat \<Rightarrow> uint32) \<Rightarrow> nat
      \<Rightarrow> log_index_page_iter_data_t \<times> log_index_page_lsn_t list \<times> bool
      \<Rightarrow> (log_index_page_iter_data_t \<times> log_index_page_lsn_t list \<times> bool) result" where
  "push_lsn_loop t seg_id suffix 0 (iter, items, prev_correct) = Inr (iter, items, prev_correct)"
| "push_lsn_loop t seg_id suffix (Suc idx) (iter, items, prev_correct) =
    (let l = LOG_INDEX_COMBINE_LSN t (suffix idx);
         prev_correct = (prev_correct \<or> l = iter_prev_lsn iter)
     in if l \<ge> it_min_lsn iter \<and> l \<le> iter_max_lsn iter then
          if \<not> prev_correct then Inl ERROR
          else
            let (stack_idx, items) = log_index_tbl_stack_next_item items
            in rbind (log_index_get_seg_prev_lsn t seg_id idx) (\<lambda>prev.
               let item = (hd items)\<lparr>item_prev_lsn := prev, item_lsn := (item_lsn (hd items))(stack_idx := l)\<rparr>;
                   items = item # tl items
               in if l = it_min_lsn iter
                  then Inr (iter\<lparr>it_state := ITERATE_STATE_FINISHED\<rparr>, items, prev_correct)
                  else push_lsn_loop t seg_id suffix idx (iter, items, prev_correct))
        else if l < it_min_lsn iter then
          if \<not> prev_correct then Inl ERROR
          else Inr (iter\<lparr>it_state := ITERATE_STATE_FINISHED\<rparr>, items, prev_correct)
        else push_lsn_loop t seg_id suffix idx (iter, items, prev_correct))"

definition log_index_page_iterate_push_lsn ::
    "log_idx_table_data_t \<Rightarrow> log_seg_id_t \<Rightarrow> log_index_page_iter_data_t \<times> log_index_page_lsn_t list \<times> bool
      \<Rightarrow> (log_index_page_iter_data_t \<times> log_index_page_lsn_t list \<times> bool) result" where
  "log_index_page_iterate_push_lsn t seg_id st =
    rbind (get_head_seg t seg_id) (\<lambda>head_seg.
    if head_seg = seg_id
    then rbind (get_head t seg_id) (\<lambda>head. push_lsn_loop t seg_id (h_suffix_lsn head) (h_number head) st)
    else rbind (get_seg t seg_id) (\<lambda>seg. push_lsn_loop t seg_id (s_suffix_lsn seg) (s_number seg) st))"

text \<open>
  The loop of \<open>log_index_iterate_table_data\<close> from the tail of the chain to its head, which is the slot
  \<open>head_ptr\<close>; the push of the head after the loop is part of it.
\<close>

partial_function (option) iterate_chain_loop ::
    "log_idx_table_data_t \<Rightarrow> nat \<Rightarrow> log_seg_id_t \<Rightarrow> log_index_page_iter_data_t \<times> log_index_page_lsn_t list \<times> bool
      \<Rightarrow> (log_index_page_iter_data_t \<times> log_index_page_lsn_t list \<times> bool) result option" where
  "iterate_chain_loop t head_ptr item_id st =
    (case log_index_item_seg item_id of
       Inl e \<Rightarrow> Some (Inl e)
     | Inr None \<Rightarrow> Some (Inl PANIC)
     | Inr (Some p) \<Rightarrow>
         if p = head_ptr then Some (log_index_page_iterate_push_lsn t item_id st)
         else
           (case seg_at t p of
              Inl e \<Rightarrow> Some (Inl e)
            | Inr item \<Rightarrow>
                if s_number item \<le> 0 then Some (Inl PANIC)
                else
                  (case log_index_page_iterate_push_lsn t item_id st of
                     Inl e \<Rightarrow> Some (Inl e)
                   | Inr (iter, items, prev_correct) \<Rightarrow>
                       if it_state iter = ITERATE_STATE_FORWARD
                       then iterate_chain_loop t head_ptr (s_prev_seg item) (iter, items, prev_correct)
                       else Some (Inr (iter, items, prev_correct)))))"

definition log_index_iterate_table_data ::
    "log_index_page_iter_data_t \<Rightarrow> log_idx_table_data_t \<Rightarrow> nat \<Rightarrow> log_item_head_t
      \<Rightarrow> log_index_page_iter_data_t result option" where
  "log_index_iterate_table_data iter t head_ptr item_head =
    (if h_number item_head \<le> 0 then Some (Inl PANIC)
     else
       let prev_correct = (iter_prev_lsn iter = InvalidXLogRecPtr)
       in if h_tail_seg item_head = LOG_INDEX_TBL_INVALID_SEG then Some (Inl PANIC)
          else case iterate_chain_loop t head_ptr (h_tail_seg item_head) (iter, [], prev_correct) of
                 None \<Rightarrow> None
               | Some (Inl e) \<Rightarrow> Some (Inl e)
               | Some (Inr (iter, items, prev_correct)) \<Rightarrow>
                   Some (Inr (iter\<lparr>lsn_stack :=
                     \<lparr>stack_prev_page_lsn = h_prev_page_lsn item_head, stack_items = items\<rparr> # lsn_stack iter\<rparr>)))"

definition log_index_push_tbl_lsn ::
    "log_index_page_iter_data_t \<Rightarrow> log_idx_table_data_t \<Rightarrow> log_index_page_iter_data_t result option" where
  "log_index_push_tbl_lsn iter t =
    (case log_index_tbl_find (it_tag iter) t (it_key iter) of
       None \<Rightarrow> None
     | Some (Inl e) \<Rightarrow> Some (Inl e)
     | Some (Inr None) \<Rightarrow> Some (Inr iter)
     | Some (Inr (Some p)) \<Rightarrow>
         (case head_at t p of
            Inl e \<Rightarrow> Some (Inl e)
          | Inr item \<Rightarrow>
              (case log_index_item_max_lsn t item of
                 Inl e \<Rightarrow> Some (Inl e)
               | Inr item_max \<Rightarrow>
                   let item_min = LOG_INDEX_COMBINE_LSN t (h_suffix_lsn item 0);
                       iter = (case lsn_stack iter of
                                 [] \<Rightarrow> iter
                               | prev_stack # _ \<Rightarrow>
                                   if stack_prev_page_lsn prev_stack \<noteq> InvalidXLogRecPtr
                                   then iter\<lparr>iter_prev_lsn := stack_prev_page_lsn prev_stack\<rparr> else iter)
                   in if item_min > it_max_lsn iter then Some (Inr iter)
                      else if item_max < it_min_lsn iter
                      then Some (Inr (iter\<lparr>it_state := ITERATE_STATE_FINISHED\<rparr>))
                      else (case log_index_iterate_table_data iter t p item of
                              None \<Rightarrow> None
                            | Some (Inl e) \<Rightarrow> Some (Inl e)
                            | Some (Inr iter) \<Rightarrow> Some (Inr (iter\<lparr>iter_max_lsn := item_max + 1\<rparr>))))))"

definition log_index_table_in_range ::
    "log_index_page_iter_data_t \<Rightarrow> log_mem_table_t \<Rightarrow> bool \<times> log_index_page_iter_data_t" where
  "log_index_table_in_range iter m =
    (if tbl_state m = STATE_ACTIVE then (True, iter)
     else if tbl_min_lsn (tbl_data m) > it_max_lsn iter then (False, iter)
     else if tbl_max_lsn (tbl_data m) < it_min_lsn iter then (False, iter\<lparr>it_state := ITERATE_STATE_FINISHED\<rparr>)
     else (True, iter))"

text \<open>
  \<open>log_index_push_mem_tbl_lsn\<close>: the tables in memory from the newest one, as long as the ring holds the
  table with the next smaller id. The result is the last id that was not searched, and the iterator.
\<close>

fun push_mem_loop ::
    "log_index_snapshot_t \<Rightarrow> log_index_page_iter_data_t \<Rightarrow> nat \<Rightarrow> nat
      \<Rightarrow> (nat \<times> log_index_page_iter_data_t) result option" where
  "push_mem_loop s iter mid 0 = Some (Inr (0, iter))"
| "push_mem_loop s iter mid (Suc k) =
    (let m = mem_table s mid
     in if Suc k = LOG_INDEX_MEM_TBL_TID m \<and> tbl_state m \<noteq> STATE_FREE then
          let (in_range, iter) = log_index_table_in_range iter m
          in case (if in_range then log_index_push_tbl_lsn iter (tbl_data m) else Some (Inr iter)) of
               None \<Rightarrow> None
             | Some (Inl e) \<Rightarrow> Some (Inl e)
             | Some (Inr iter) \<Rightarrow>
                 if it_state iter = ITERATE_STATE_FORWARD
                 then push_mem_loop s iter (LOOP_PREV_VALUE mid (mem_tbl_size s)) k
                 else Some (Inr (k, iter))
        else Some (Inr (Suc k, iter)))"

definition log_index_push_mem_tbl_lsn ::
    "log_index_snapshot_t \<Rightarrow> log_index_page_iter_data_t \<Rightarrow> (nat \<times> log_index_page_iter_data_t) result option" where
  "log_index_push_mem_tbl_lsn s iter =
    (case push_mem_loop s iter (tid_slot s (it_max_idx_table_id iter)) (it_max_idx_table_id iter) of
       None \<Rightarrow> None
     | Some (Inl e) \<Rightarrow> Some (Inl e)
     | Some (Inr (tid, iter)) \<Rightarrow>
         Some (Inr (tid, if tid = LOG_INDEX_TABLE_INVALID_ID
                         then iter\<lparr>it_state := ITERATE_STATE_FINISHED\<rparr> else iter)))"

definition log_index_check_hollow_table ::
    "io_env \<Rightarrow> log_index_snapshot_t \<Rightarrow> log_index_page_iter_data_t \<Rightarrow> nat
      \<Rightarrow> (log_index_snapshot_t \<times> log_index_meta_t \<times> log_index_page_iter_data_t) result" where
  "log_index_check_hollow_table env s iter tid =
    (let mt = meta (store s)
     in rbind (if meta_max_idx_table_id mt < tid then
                 let (ok, mt) = log_index_get_meta env (store s);
                     s = s\<lparr>store := (store s)\<lparr>meta := mt\<rparr>\<rparr>
                 in if ok then Inr (s, mt) else Inl FATAL
               else Inr (s, mt)) (\<lambda>(s, mt).
        Inr (s, mt, if meta_max_idx_table_id mt < tid
                    then iter\<lparr>it_state := ITERATE_STATE_HOLLOW\<rparr> else iter)))"

text \<open>
  Reading the page of the Bloom filter again does not change it here: the model holds the page as
  the storage has it.
\<close>

definition log_index_check_bloom_not_exists ::
    "io_env \<Rightarrow> log_index_snapshot_t \<Rightarrow> log_index_page_iter_data_t \<Rightarrow> nat \<Rightarrow> (bool \<times> log_index_page_iter_data_t) result" where
  "log_index_check_bloom_not_exists env s iter tid =
    (let bloom = log_index_get_tbl_bloom (store s) tid
     in if tid \<noteq> bloom_tid bloom then Inl PANIC
        else if bloom_max_lsn bloom < it_min_lsn iter
        then Inr (False, iter\<lparr>it_state := ITERATE_STATE_FINISHED\<rparr>)
        else
          let flt = polar_bloom_init_struct (rint_log env) (bloom_bytes bloom) LOG_INDEX_BLOOM_ELEMS_NUM 0
          in Inr (bloom_lacks_element True flt (tag_bytes (it_tag iter)), iter))"

text \<open>
  One turn of the loop of \<open>log_index_push_file_tbl_lsn\<close>, for the table \<open>tid\<close>. The three flags say
  whether the conditional attempts to take the lock of its slot in memory succeed.
\<close>

definition push_file_one ::
    "io_env \<Rightarrow> bool \<times> bool \<times> bool \<Rightarrow> log_index_snapshot_t \<Rightarrow> log_index_page_iter_data_t \<Rightarrow> nat
      \<Rightarrow> (log_index_snapshot_t \<times> log_index_page_iter_data_t) result option" where
  "push_file_one env flags s iter tid =
    (let m = mem_table s (tid_slot s tid);
         (try_lock, shared, exclusive) = flags
     in if try_lock \<and> tbl_state m = STATE_FLUSHED \<and> tid = LOG_INDEX_MEM_TBL_TID m then
          (case log_index_push_tbl_lsn iter (tbl_data m) of
             None \<Rightarrow> None
           | Some (Inl e) \<Rightarrow> Some (Inl e)
           | Some (Inr iter) \<Rightarrow> Some (Inr (s, iter)))
        else
          (case log_index_check_bloom_not_exists env s iter tid of
             Inl e \<Rightarrow> Some (Inl e)
           | Inr (not_exists, iter) \<Rightarrow>
               if \<not> not_exists \<and> it_state iter = ITERATE_STATE_FORWARD then
                 (case log_index_read_table env s tid shared exclusive of
                    Inl e \<Rightarrow> Some (Inl e)
                  | Inr (in_mem, t, s) \<Rightarrow>
                      (case log_index_push_tbl_lsn iter t of
                         None \<Rightarrow> None
                       | Some (Inl e) \<Rightarrow> Some (Inl e)
                       | Some (Inr iter) \<Rightarrow> Some (Inr (s, iter))))
               else Some (Inr (s, iter))))"

primrec push_file_loop ::
    "io_env \<Rightarrow> (nat \<Rightarrow> bool \<times> bool \<times> bool) \<Rightarrow> nat \<Rightarrow> log_index_snapshot_t \<Rightarrow> log_index_page_iter_data_t \<Rightarrow> nat
      \<Rightarrow> (log_index_snapshot_t \<times> log_index_page_iter_data_t) result option" where
  "push_file_loop env lk min_tid s iter 0 = Some (Inr (s, iter))"
| "push_file_loop env lk min_tid s iter (Suc k) =
    (if Suc k \<ge> min_tid \<and> it_state iter = ITERATE_STATE_FORWARD then
       (case push_file_one env (lk (Suc k)) s iter (Suc k) of
          None \<Rightarrow> None
        | Some (Inl e) \<Rightarrow> Some (Inl e)
        | Some (Inr (s, iter)) \<Rightarrow> push_file_loop env lk min_tid s iter k)
     else Some (Inr (s, iter)))"

definition log_index_push_file_tbl_lsn ::
    "io_env \<Rightarrow> (nat \<Rightarrow> bool \<times> bool \<times> bool) \<Rightarrow> log_index_snapshot_t \<Rightarrow> log_index_page_iter_data_t \<Rightarrow> nat
      \<Rightarrow> (log_index_snapshot_t \<times> log_index_page_iter_data_t) result option" where
  "log_index_push_file_tbl_lsn env lk s iter tid =
    (case log_index_check_hollow_table env s iter tid of
       Inl e \<Rightarrow> Some (Inl e)
     | Inr (s, mt, iter) \<Rightarrow>
         if it_state iter = ITERATE_STATE_HOLLOW then Some (Inl ERROR)
         else push_file_loop env lk (seg_min_idx_table_id (min_segment_info mt)) s iter tid)"

definition polar_logindex_create_page_iterator ::
    "io_env \<Rightarrow> (nat \<Rightarrow> bool \<times> bool \<times> bool) \<Rightarrow> log_index_snapshot_t \<Rightarrow> BufferTag \<Rightarrow> XLogRecPtr \<Rightarrow> XLogRecPtr \<Rightarrow> bool
      \<Rightarrow> (log_index_snapshot_t \<times> log_index_page_iter_data_t) result option" where
  "polar_logindex_create_page_iterator env lk s page mn mx before_promote =
    (if \<not> mx > mn then Some (Inl PANIC)
     else if before_promote \<and> mx \<ge> old_primary_max_inserted_lsn (promoted_info s) then Some (Inl PANIC)
     else
       let iter = \<lparr>it_tag = page, it_min_lsn = mn, it_max_lsn = mx, iter_prev_lsn = InvalidXLogRecPtr,
                   iter_max_lsn = mx,
                   it_max_idx_table_id = (if before_promote then old_primary_max_tid (promoted_info s)
                                          else max_idx_table_id s),
                   lsn_stack = [], it_key = LOG_INDEX_MEM_TBL_HASH_PAGE page_hash page,
                   it_state = ITERATE_STATE_FORWARD\<rparr>
       in case log_index_push_mem_tbl_lsn s iter of
            None \<Rightarrow> None
          | Some (Inl e) \<Rightarrow> Some (Inl e)
          | Some (Inr (tid, iter)) \<Rightarrow>
              if it_state iter = ITERATE_STATE_FORWARD then
                (case log_index_push_file_tbl_lsn env lk s iter tid of
                   None \<Rightarrow> None
                 | Some (Inl e) \<Rightarrow> Some (Inl e)
                 | Some (Inr (s, iter)) \<Rightarrow> Some (Inr (s, iter\<lparr>it_state := ITERATE_STATE_FINISHED\<rparr>)))
              else if it_state iter = ITERATE_STATE_CORRUPTED then Some (Inl PANIC)
              else Some (Inr (s, iter)))"

text \<open>Popping: stacks of tables that are used up are dropped.\<close>

fun page_iterator_pop ::
    "log_index_page_stack_lsn_t \<Rightarrow> (XLogRecPtr \<times> XLogRecPtr) option \<times> log_index_page_stack_lsn_t" where
  "page_iterator_pop [] = (None, [])"
| "page_iterator_pop (ts # rest) =
    (case log_index_tbl_stack_pop_lsn (stack_items ts) of
       Some (e, items) \<Rightarrow> (Some e, ts\<lparr>stack_items := items\<rparr> # rest)
     | None \<Rightarrow> page_iterator_pop rest)"

definition polar_logindex_page_iterator_next ::
    "log_index_page_iter_data_t \<Rightarrow> log_index_lsn_t option \<times> log_index_page_iter_data_t" where
  "polar_logindex_page_iterator_next iter =
    (case page_iterator_pop (lsn_stack iter) of
       (None, stack) \<Rightarrow> (None, iter\<lparr>lsn_stack := stack\<rparr>)
     | (Some (prev, l), stack) \<Rightarrow>
         (Some \<lparr>li_tag = it_tag iter, li_lsn = l, li_prev_lsn = prev\<rparr>, iter\<lparr>lsn_stack := stack\<rparr>))"

definition polar_logindex_page_iterator_end :: "log_index_page_iter_data_t \<Rightarrow> bool" where
  "polar_logindex_page_iterator_end iter \<longleftrightarrow> lsn_stack iter = []"

section \<open>LSN iterators\<close>

record log_index_lsn_iter_data_t =
  li_start_lsn :: XLogRecPtr
  li_state :: log_index_iter_state_t
  li_idx_table_id :: nat
  li_idx :: nat
  last_search_tid :: nat

definition log_index_set_search_table ::
    "log_index_lsn_iter_data_t \<Rightarrow> log_idx_table_data_t \<Rightarrow> log_index_lsn_iter_data_t" where
  "log_index_set_search_table iter t =
    (let iter =
       (if \<not> XLogRecPtrIsInvalid (tbl_max_lsn t) then
          if li_start_lsn iter > tbl_max_lsn t then
            if last_search_tid iter = LOG_INDEX_TABLE_INVALID_ID
            then iter\<lparr>li_state := ITERATE_STATE_FINISHED\<rparr>
            else iter\<lparr>li_idx_table_id := idx_table_id t + 1, li_state := ITERATE_STATE_BACKWARD\<rparr>
          else if li_start_lsn iter \<ge> tbl_min_lsn t \<and> li_start_lsn iter \<le> tbl_max_lsn t then
            let iter = iter\<lparr>li_idx_table_id := idx_table_id t\<rparr>
            in if li_start_lsn iter \<noteq> tbl_min_lsn t then iter\<lparr>li_state := ITERATE_STATE_BACKWARD\<rparr> else iter
          else iter
        else iter)
     in iter\<lparr>last_search_tid := idx_table_id t\<rparr>)"

text \<open>The scan for the first order whose LSN is not before the start; \<open>n\<close> orders are left.\<close>

fun start_order_loop :: "log_idx_table_data_t \<Rightarrow> XLogRecPtr \<Rightarrow> nat \<Rightarrow> nat \<Rightarrow> nat option result" where
  "start_order_loop t l order 0 = Inr None"
| "start_order_loop t l order (Suc n) =
    (case log_index_get_order_lsn t order of
       Inl e \<Rightarrow> Inl e
     | Inr (x, _) \<Rightarrow>
         if x = InvalidXLogRecPtr then Inl PANIC
         else if x \<ge> l then Inr (Some order)
         else start_order_loop t l (order + 1) n)"

definition log_index_set_search_start_order ::
    "log_index_lsn_iter_data_t \<Rightarrow> log_idx_table_data_t \<Rightarrow> log_index_lsn_iter_data_t result" where
  "log_index_set_search_start_order iter t =
    (if idx_table_id t \<noteq> li_idx_table_id iter then Inr iter
     else rbind (start_order_loop t (li_start_lsn iter) 0 (last_order t)) (\<lambda>found.
       Inr (case found of None \<Rightarrow> iter | Some order \<Rightarrow> iter\<lparr>li_idx := order\<rparr>)))"

text \<open>
  The table the iterator is at, with the slot of the memory table it lies in, if any; \<open>None\<close> when
  there is no such table.
\<close>

definition log_index_get_table_data ::
    "io_env \<Rightarrow> (nat \<Rightarrow> bool \<times> bool) \<Rightarrow> log_index_snapshot_t \<Rightarrow> log_index_lsn_iter_data_t
      \<Rightarrow> ((log_idx_table_data_t \<times> nat option) option \<times> log_index_snapshot_t) result" where
  "log_index_get_table_data env lk s iter =
    (let tid = li_idx_table_id iter;
         mid = tid_slot s tid
     in if LOG_INDEX_MEM_TBL_TID (mem_table s mid) = tid
        then Inr (Some (tbl_data (mem_table s mid), Some mid), s)
        else if tid > meta_max_idx_table_id (meta (store s)) then Inr (None, s)
        else (case log_index_read_table env s tid (fst (lk tid)) (snd (lk tid)) of
                Inl e \<Rightarrow> Inl e
              | Inr (in_mem, t, s) \<Rightarrow> Inr (Some (t, if in_mem then Some mid else None), s)))"

definition log_index_set_start_order ::
    "io_env \<Rightarrow> (nat \<Rightarrow> bool \<times> bool) \<Rightarrow> log_index_snapshot_t \<Rightarrow> log_index_lsn_iter_data_t
      \<Rightarrow> (log_index_lsn_iter_data_t \<times> log_index_snapshot_t) result" where
  "log_index_set_start_order env lk s iter =
    (if li_state iter = ITERATE_STATE_BACKWARD then
       rbind (log_index_get_table_data env lk s iter) (\<lambda>(found, s).
       case found of
         None \<Rightarrow> Inr (iter, s)
       | Some (t, _) \<Rightarrow> rbind (log_index_set_search_start_order iter t) (\<lambda>iter. Inr (iter, s)))
     else Inr (iter, s))"

fun search_mem_loop ::
    "log_index_snapshot_t \<Rightarrow> nat \<Rightarrow> nat \<Rightarrow> log_index_lsn_iter_data_t \<Rightarrow> log_index_lsn_iter_data_t" where
  "search_mem_loop s mid 0 iter = iter"
| "search_mem_loop s mid (Suc k) iter =
    (let m = mem_table s mid
     in if Suc k = LOG_INDEX_MEM_TBL_TID m \<and> tbl_state m \<noteq> STATE_FREE then
          let iter = log_index_set_search_table iter (tbl_data m)
          in if li_state iter = ITERATE_STATE_FORWARD
             then search_mem_loop s (LOOP_PREV_VALUE mid (mem_tbl_size s)) k iter
             else iter
        else iter)"

definition log_index_search_mem_tbl_lsn ::
    "io_env \<Rightarrow> (nat \<Rightarrow> bool \<times> bool) \<Rightarrow> log_index_snapshot_t \<Rightarrow> log_index_lsn_iter_data_t
      \<Rightarrow> (log_index_lsn_iter_data_t \<times> log_index_snapshot_t) result" where
  "log_index_search_mem_tbl_lsn env lk s iter =
    (let tid = max_idx_table_id s
     in log_index_set_start_order env lk s (search_mem_loop s (tid_slot s tid) tid iter))"

definition log_index_next_search_file_tid :: "nat \<Rightarrow> log_index_meta_t \<Rightarrow> nat \<times> bool" where
  "log_index_next_search_file_tid prev_idx_tid mt =
    (if prev_idx_tid = LOG_INDEX_TABLE_INVALID_ID then (meta_max_idx_table_id mt, False)
     else
       let tid = prev_idx_tid - 1
       in if tid = LOG_INDEX_TABLE_INVALID_ID then (LOG_INDEX_TABLE_INVALID_ID, False)
          else if tid > meta_max_idx_table_id mt then (LOG_INDEX_TABLE_INVALID_ID, True)
          else (tid, False))"

primrec search_file_loop ::
    "io_env \<Rightarrow> (nat \<Rightarrow> bool \<times> bool) \<Rightarrow> nat \<Rightarrow> log_index_snapshot_t \<Rightarrow> log_index_lsn_iter_data_t \<Rightarrow> nat
      \<Rightarrow> (log_index_lsn_iter_data_t \<times> log_index_snapshot_t) result" where
  "search_file_loop env lk min_tid s iter 0 = Inr (iter, s)"
| "search_file_loop env lk min_tid s iter (Suc k) =
    (if Suc k \<ge> min_tid \<and> li_state iter = ITERATE_STATE_FORWARD then
       rbind (log_index_read_table env s (Suc k) (fst (lk (Suc k))) (snd (lk (Suc k)))) (\<lambda>(in_mem, t, s).
       search_file_loop env lk min_tid s (log_index_set_search_table iter t) k)
     else Inr (iter, s))"

definition log_index_search_file_tbl_lsn ::
    "io_env \<Rightarrow> (nat \<Rightarrow> bool \<times> bool) \<Rightarrow> log_index_snapshot_t \<Rightarrow> log_index_lsn_iter_data_t
      \<Rightarrow> (log_index_lsn_iter_data_t \<times> log_index_snapshot_t) result" where
  "log_index_search_file_tbl_lsn env lk s iter =
    (let mt = meta (store s);
         min_tid = seg_min_idx_table_id (min_segment_info mt)
     in if li_start_lsn iter > meta_max_lsn mt then
          Inr (if last_search_tid iter = LOG_INDEX_TABLE_INVALID_ID
               then iter\<lparr>li_state := ITERATE_STATE_FINISHED\<rparr>
               else iter\<lparr>li_idx_table_id := last_search_tid iter, li_state := ITERATE_STATE_BACKWARD\<rparr>, s)
        else
          let (tid, hollow) = log_index_next_search_file_tid (last_search_tid iter) mt
          in if hollow then Inl ERROR
             else rbind (search_file_loop env lk min_tid s iter tid) (\<lambda>(iter, s).
               log_index_set_start_order env lk s
                 (if li_state iter = ITERATE_STATE_FORWARD
                  then iter\<lparr>li_idx_table_id := min_tid, li_state := ITERATE_STATE_BACKWARD\<rparr> else iter)))"

definition polar_logindex_create_lsn_iterator ::
    "log_index_snapshot_t \<Rightarrow> XLogRecPtr \<Rightarrow> log_index_lsn_iter_data_t result" where
  "polar_logindex_create_lsn_iterator s l =
    (let iter = \<lparr>li_start_lsn = l, li_state = ITERATE_STATE_FORWARD, li_idx_table_id = 0, li_idx = 0,
                 last_search_tid = 0\<rparr>
     in if l = InvalidXLogRecPtr then
          if seg_min_idx_table_id (min_segment_info (meta (store s))) > 1 then Inl PANIC
          else Inr (iter\<lparr>li_idx_table_id := 1\<rparr>)
        else Inr iter)"

definition log_index_lsn_iterator_update ::
    "log_index_snapshot_t \<Rightarrow> log_index_lsn_iter_data_t \<Rightarrow> nat option \<Rightarrow> log_idx_table_data_t
      \<Rightarrow> bool \<times> log_index_lsn_iter_data_t" where
  "log_index_lsn_iterator_update s iter mid t =
    (let next = (li_idx iter = last_order t, if li_idx iter = last_order t
                 then iter\<lparr>li_idx := 0, li_idx_table_id := li_idx_table_id iter + 1\<rparr> else iter)
     in case mid of
          None \<Rightarrow> next
        | Some mid \<Rightarrow> if tbl_state (mem_table s mid) \<noteq> STATE_ACTIVE then next else (False, iter))"

text \<open>The last loop of \<open>polar_logindex_lsn_iterator_next\<close>: skip tables that are used up.\<close>

partial_function (option) lsn_next_loop ::
    "io_env \<Rightarrow> (nat \<Rightarrow> bool \<times> bool) \<Rightarrow> log_index_snapshot_t \<Rightarrow> log_index_lsn_iter_data_t
      \<Rightarrow> (log_index_lsn_t option \<times> log_index_lsn_iter_data_t \<times> log_index_snapshot_t) result option" where
  "lsn_next_loop env lk s iter =
    (case log_index_get_table_data env lk s iter of
       Inl e \<Rightarrow> Some (Inl e)
     | Inr (None, s) \<Rightarrow> Some (Inr (None, iter, s))
     | Inr (Some (t, mid), s) \<Rightarrow>
         (case log_index_get_order_lsn t (li_idx iter) of
            Inl e \<Rightarrow> Some (Inl e)
          | Inr (l, info) \<Rightarrow>
              let iter = (if l \<noteq> InvalidXLogRecPtr then iter\<lparr>li_idx := li_idx iter + 1\<rparr> else iter);
                  (new_table, iter) = log_index_lsn_iterator_update s iter mid t
              in if l = InvalidXLogRecPtr \<and> new_table then lsn_next_loop env lk s iter
                 else Some (Inr (if l \<noteq> InvalidXLogRecPtr then info else None, iter, s))))"

definition polar_logindex_lsn_iterator_next ::
    "io_env \<Rightarrow> (nat \<Rightarrow> bool \<times> bool) \<Rightarrow> log_index_snapshot_t \<Rightarrow> log_index_lsn_iter_data_t
      \<Rightarrow> (log_index_lsn_t option \<times> log_index_lsn_iter_data_t \<times> log_index_snapshot_t) result option" where
  "polar_logindex_lsn_iterator_next env lk s iter =
    (case rbind (if li_idx_table_id iter = LOG_INDEX_TABLE_INVALID_ID
                 then log_index_search_mem_tbl_lsn env lk s
                        (iter\<lparr>li_state := ITERATE_STATE_FORWARD, last_search_tid := LOG_INDEX_TABLE_INVALID_ID\<rparr>)
                 else Inr (iter, s)) (\<lambda>(iter, s).
          if li_state iter = ITERATE_STATE_FORWARD then log_index_search_file_tbl_lsn env lk s iter
          else Inr (iter, s)) of
       Inl e \<Rightarrow> Some (Inl e)
     | Inr (iter, s) \<Rightarrow>
         if li_state iter \<noteq> ITERATE_STATE_BACKWARD then Some (Inr (None, iter, s))
         else lsn_next_loop env lk s iter)"

end
