(* ===== verification/Log_Page_Iter.thy ===== *)
theory Log_Page_Iter
  imports Log_Iter
begin

text \<open>
  What a page iterator does with one table: it pushes the entries of the page that lie in the range,
  and popping the stack gives them back in ascending order with their previous LSNs.
\<close>

section \<open>The stack as a list\<close>

definition item_contents :: "log_index_page_lsn_t \<Rightarrow> (XLogRecPtr \<times> XLogRecPtr) list" where
  "item_contents it = map (\<lambda>k. (if k + 1 = item_size it then item_prev_lsn it else item_lsn it (k + 1),
     item_lsn it k)) (rev [0..<iter_pos it])"

definition item_ok :: "log_index_page_lsn_t \<Rightarrow> bool" where
  "item_ok it \<longleftrightarrow> 1 \<le> iter_pos it \<and> iter_pos it \<le> item_size it
     \<and> item_size it \<le> LOG_INDEX_PAGE_STACK_ITEM_SIZE"

text \<open>What popping returns, in order: pairs of the previous LSN and the LSN.\<close>

definition contents :: "log_index_page_lsn_t list \<Rightarrow> (XLogRecPtr \<times> XLogRecPtr) list" where
  "contents items = concat (map item_contents items)"

lemma item_contents_rec:
  "1 \<le> iter_pos it \<Longrightarrow> item_contents it =
    (if iter_pos it = item_size it then item_prev_lsn it else item_lsn it (iter_pos it), item_lsn it (iter_pos it - 1))
    # item_contents (it\<lparr>iter_pos := iter_pos it - 1\<rparr>)"
  by (cases "iter_pos it") (auto simp: item_contents_def)

lemma pop_contents:
  assumes "\<forall>it\<in>set items. item_ok it" "items \<noteq> []"
  obtains items' where "log_index_tbl_stack_pop_lsn items = Some (hd (contents items), items')"
    "contents items = hd (contents items) # contents items'" "\<forall>it\<in>set items'. item_ok it"
proof -
  obtain it rest where items: "items = it # rest" using assms(2) by (cases items) auto
  have ok: "1 \<le> iter_pos it" "iter_pos it \<le> item_size it" "item_size it \<le> LOG_INDEX_PAGE_STACK_ITEM_SIZE"
    using assms(1) items by (auto simp: item_ok_def)
  let ?it = "it\<lparr>iter_pos := iter_pos it - 1\<rparr>"
  let ?items = "if iter_pos it - 1 = 0 then rest else ?it # rest"
  note rec = item_contents_rec[OF ok(1)]
  have "item_contents ?it = []" if "iter_pos it - 1 = 0" using that by (simp add: item_contents_def)
  then have c: "contents items = hd (contents items) # contents ?items"
    using rec by (auto simp: items contents_def)
  have p: "log_index_tbl_stack_pop_lsn items = Some (hd (contents items), ?items)"
    using rec ok(1) by (simp add: items contents_def log_index_tbl_stack_pop_lsn_def Let_def)
  have "\<forall>it\<in>set ?items. item_ok it" using assms(1) items ok by (auto simp: item_ok_def)
  with p c that show thesis by blast
qed

text \<open>Pushing one LSN, as the loop of \<open>log_index_page_iterate_push_lsn\<close> does.\<close>

definition push_entry ::
    "log_index_page_lsn_t list \<Rightarrow> XLogRecPtr \<Rightarrow> XLogRecPtr \<Rightarrow> log_index_page_lsn_t list" where
  "push_entry items prev l =
    (let (stack_idx, items) = log_index_tbl_stack_next_item items
     in (hd items)\<lparr>item_prev_lsn := prev, item_lsn := (item_lsn (hd items))(stack_idx := l)\<rparr> # tl items)"

text \<open>A stack that is being filled: nothing was popped yet.\<close>

definition filling :: "log_index_page_lsn_t list \<Rightarrow> bool" where
  "filling items \<longleftrightarrow> (\<forall>it\<in>set items. item_ok it \<and> iter_pos it = item_size it)"

lemma push_contents:
  assumes "filling items" "contents items = [] \<or> fst (hd (contents items)) = l"
  shows "contents (push_entry items prev l) = (prev, l) # contents items" "filling (push_entry items prev l)"
proof -
  have "contents (push_entry items prev l) = (prev, l) # contents items \<and> filling (push_entry items prev l)"
  proof (cases "items = [] \<or> item_size (hd items) = LOG_INDEX_PAGE_STACK_ITEM_SIZE")
    case True
    then have "push_entry items prev l = \<lparr>item_size = 1, iter_pos = 1, item_lsn = (\<lambda>_. 0)(0 := l),
        item_prev_lsn = prev\<rparr> # items"
      by (auto simp: push_entry_def log_index_tbl_stack_next_item_def Let_def)
    then show ?thesis using assms(1)
      by (auto simp: contents_def item_contents_def filling_def item_ok_def LOG_INDEX_PAGE_STACK_ITEM_SIZE_def)
  next
    case False
    then obtain it rest where items: "items = it # rest" by (cases items) auto
    have sz: "item_size it \<noteq> LOG_INDEX_PAGE_STACK_ITEM_SIZE" using False items by simp
    have ok: "1 \<le> iter_pos it" "iter_pos it = item_size it" "item_size it < LOG_INDEX_PAGE_STACK_ITEM_SIZE"
      using assms(1) items sz by (auto simp: filling_def item_ok_def)
    let ?it = "it\<lparr>item_size := item_size it + 1, iter_pos := item_size it + 1, item_prev_lsn := prev,
      item_lsn := (item_lsn it)(item_size it := l)\<rparr>"
    have p: "push_entry items prev l = ?it # rest"
      using sz by (simp add: items push_entry_def log_index_tbl_stack_next_item_def Let_def)
    have prev_l: "item_prev_lsn it = l"
      using assms(2) ok(1,2) item_contents_rec[OF ok(1)] by (simp add: items contents_def)
    have "item_contents ?it = (prev, l) # item_contents it"
      using prev_l ok(1,2) by (auto simp: item_contents_def)
    then show ?thesis using p assms(1) ok items by (auto simp: contents_def filling_def item_ok_def)
  qed
  then show "contents (push_entry items prev l) = (prev, l) # contents items" "filling (push_entry items prev l)"
    by simp_all
qed

section \<open>One table, from its last entry back\<close>

text \<open>
  The specification of the walk over the entries of a page, newest first: whether the walk is over,
  and the pairs collected.
\<close>

fun spec_push ::
    "XLogRecPtr \<Rightarrow> XLogRecPtr \<Rightarrow> log_index_lsn_t list \<Rightarrow> (XLogRecPtr \<times> XLogRecPtr) list
      \<Rightarrow> bool \<times> (XLogRecPtr \<times> XLogRecPtr) list" where
  "spec_push mn mx [] acc = (False, acc)"
| "spec_push mn mx (e # es) acc =
    (if mn \<le> li_lsn e \<and> li_lsn e \<le> mx then
       if li_lsn e = mn then (True, (li_prev_lsn e, li_lsn e) # acc)
       else spec_push mn mx es ((li_prev_lsn e, li_lsn e) # acc)
     else if li_lsn e < mn then (True, acc)
     else spec_push mn mx es acc)"

text \<open>
  The entries come in the order of their chain: the previous LSN of each is the LSN of the next
  older one, and smaller.
\<close>

fun linked :: "log_index_lsn_t list \<Rightarrow> bool" where
  "linked (e # f # es) \<longleftrightarrow> li_prev_lsn e = li_lsn f \<and> li_lsn f < li_lsn e \<and> linked (f # es)"
| "linked _ \<longleftrightarrow> True"

definition push_ok :: "XLogRecPtr \<Rightarrow> log_index_lsn_t list \<Rightarrow> log_index_page_lsn_t list \<Rightarrow> bool" where
  "push_ok mx es items \<longleftrightarrow> filling items \<and> (contents items = [] \<or> es = []
     \<or> fst (hd (contents items)) = li_lsn (hd es) \<and> li_lsn (hd es) \<le> mx)"

lemma linked_tl: "linked (e # es) \<Longrightarrow> linked es"
  by (cases es) auto

lemma push_ok_push:
  assumes "push_ok mx (e # es) items" "linked (e # es)" "li_lsn e \<le> mx"
  shows "push_ok mx es (push_entry items (li_prev_lsn e) (li_lsn e))"
    "contents (push_entry items (li_prev_lsn e) (li_lsn e)) = (li_prev_lsn e, li_lsn e) # contents items"
proof -
  have *: "filling items" "contents items = [] \<or> fst (hd (contents items)) = li_lsn e"
    using assms(1) by (auto simp: push_ok_def)
  note p = push_contents[OF *]
  show "contents (push_entry items (li_prev_lsn e) (li_lsn e)) = (li_prev_lsn e, li_lsn e) # contents items"
    by (rule p)
  show "push_ok mx es (push_entry items (li_prev_lsn e) (li_lsn e))"
    using p assms(2,3) by (cases es) (auto simp: push_ok_def)
qed

text \<open>The entries of a segment, newest first, before the older entries \<open>es\<close> of the page.\<close>

definition seg_entries :: "log_idx_table_data_t \<Rightarrow> log_seg_id_t \<Rightarrow> nat \<Rightarrow> log_index_lsn_t list" where
  "seg_entries t s n = map (\<lambda>k. entry t (s, k)) (rev [0..<n])"

lemma seg_entries_Suc [simp]: "seg_entries t s (Suc n) = entry t (s, n) # seg_entries t s n"
  and seg_entries_0 [simp]: "seg_entries t s 0 = []"
  by (simp_all add: seg_entries_def)

lemma spec_push_append:
  "spec_push mn mx (es @ fs) acc = (case spec_push mn mx es acc of
     (True, acc) \<Rightarrow> (True, acc) | (False, acc) \<Rightarrow> spec_push mn mx fs acc)"
  by (induction mn mx es acc rule: spec_push.induct) (auto split: prod.split bool.split)

lemma push_lsn_loop_spec:
  assumes wf: "tbl_wf th n t" and s: "1 \<le> s" "s < n" and suf: "suffix = suffix_of (slot t s)"
    and "linked (seg_entries t s i @ older)" "push_ok (iter_max_lsn iter) (seg_entries t s i @ older) items"
    and "it_state iter = ITERATE_STATE_FORWARD"
    and "spec_push (it_min_lsn iter) (iter_max_lsn iter) (seg_entries t s i) (contents items) = (fin, acc)"
  shows "\<exists>items'. push_lsn_loop t s suffix i (iter, items, True) =
      Inr (iter\<lparr>it_state := if fin then ITERATE_STATE_FINISHED else ITERATE_STATE_FORWARD\<rparr>, items', True)
    \<and> contents items' = acc \<and> filling items' \<and> (\<not> fin \<longrightarrow> push_ok (iter_max_lsn iter) older items')"
  using assms(5-)
proof (induction i arbitrary: items)
  case 0
  then show ?case by (auto simp: push_ok_def)
next
  case (Suc i)
  let ?e = "entry t (s, i)"
  have l: "LOG_INDEX_COMBINE_LSN t (suffix i) = li_lsn ?e"
    by (simp add: entry_def lsn_at_def suf)
  have pv: "log_index_get_seg_prev_lsn t s i = Inr (li_prev_lsn ?e)"
    using get_seg_prev_lsn_eq[OF wf s] by (simp add: entry_def)
  have lk: "linked (?e # seg_entries t s i @ older)" using Suc.prems(1) by simp
  note lk' = linked_tl[OF lk]
  have ok: "push_ok (iter_max_lsn iter) (?e # seg_entries t s i @ older) items" using Suc.prems(2) by simp
  note po = push_ok_push[OF ok lk]
  let ?items = "push_entry items (li_prev_lsn ?e) (li_lsn ?e)"
  have step: "push_lsn_loop t s suffix (Suc i) (iter, items, True) =
      (if it_min_lsn iter \<le> li_lsn ?e \<and> li_lsn ?e \<le> iter_max_lsn iter then
         if li_lsn ?e = it_min_lsn iter then Inr (iter\<lparr>it_state := ITERATE_STATE_FINISHED\<rparr>, ?items, True)
         else push_lsn_loop t s suffix i (iter, ?items, True)
       else if li_lsn ?e < it_min_lsn iter then Inr (iter\<lparr>it_state := ITERATE_STATE_FINISHED\<rparr>, items, True)
       else push_lsn_loop t s suffix i (iter, items, True))"
    by (simp add: l pv push_entry_def Let_def split: prod.split)
  show ?case
  proof (cases "it_min_lsn iter \<le> li_lsn ?e \<and> li_lsn ?e \<le> iter_max_lsn iter")
    case True
    show ?thesis
    proof (cases "li_lsn ?e = it_min_lsn iter")
      case m: True
      have "fin" "acc = (li_prev_lsn ?e, li_lsn ?e) # contents items" using Suc.prems(4) True m by auto
      then show ?thesis using step True m po by (simp add: push_ok_def)
    next
      case False
      have sp: "spec_push (it_min_lsn iter) (iter_max_lsn iter) (seg_entries t s i) (contents ?items) = (fin, acc)"
        using Suc.prems(4) True False po(2) by simp
      show ?thesis using Suc.IH[OF lk' po(1) Suc.prems(3) sp] step True False by simp
    qed
  next
    case False
    show ?thesis
    proof (cases "li_lsn ?e < it_min_lsn iter")
      case m: True
      have "fin" "acc = contents items" using Suc.prems(4) False m by auto
      then show ?thesis using step False m ok by (simp add: push_ok_def)
    next
      case m: False
      have "contents items = []" using ok False m by (auto simp: push_ok_def)
      then have ok': "push_ok (iter_max_lsn iter) (seg_entries t s i @ older) items" using ok by (simp add: push_ok_def)
      have sp: "spec_push (it_min_lsn iter) (iter_max_lsn iter) (seg_entries t s i) (contents items) = (fin, acc)"
        using Suc.prems(4) False m by simp
      show ?thesis using Suc.IH[OF lk' ok' Suc.prems(3) sp] step False m by simp
    qed
  qed
qed

text \<open>The entries of the chain of the page \<open>h\<close> in the slots below \<open>m\<close>, newest first.\<close>

definition chain_entries :: "log_idx_table_data_t \<Rightarrow> nat \<Rightarrow> log_seg_id_t \<Rightarrow> log_index_lsn_t list" where
  "chain_entries t m h = rev (map (entry t) (positions t m h))"

lemma chain_entries_last:
  assumes wf: "tbl_wf th n t" and h: "1 \<le> h" "h < m" "m \<le> n" "is_head (slot t h)"
  defines "s \<equiv> last (chain t m h)"
  shows "chain_entries t m h = seg_entries t s (number_of (slot t s)) @ chain_entries t s h"
proof -
  note c = chain_last[OF wf h, folded s_def]
  have P: "\<And>x. s < x \<Longrightarrow> x < m \<Longrightarrow> head_id t x \<noteq> h" by (rule c(5))
  have s1: "1 \<le> s" using c(2) h(1) by simp
  have "chain t m h = chain t (Suc s) h"
    unfolding chain_def by (rule filter_upt_cut) (use c(3) P in auto)
  also have "\<dots> = chain t s h @ [s]" using chain_Suc[OF s1] c(4) by simp
  finally have "positions t m h = positions t s h @ map (Pair s) [0..<number_of (slot t s)]"
    by (simp add: positions_def)
  then show ?thesis by (simp add: chain_entries_def seg_entries_def rev_map)
qed

lemma chain_entries_head:
  assumes wf: "tbl_wf th n t" and h: "1 \<le> h" "h < n"
  shows "chain_entries t h h = []"
proof -
  have "head_id t x \<noteq> h" if "1 \<le> x" "x < h" for x
    using wf_head_id(2)[OF wf that(1)] that h(2) by simp
  then show ?thesis by (auto simp: chain_entries_def positions_def chain_def filter_empty_conv)
qed

lemma iterate_push_seg:
  assumes wf: "tbl_wf th n t" and s: "1 \<le> s" "s < n"
  shows "log_index_page_iterate_push_lsn t s st = push_lsn_loop t s (suffix_of (slot t s)) (number_of (slot t s)) st"
proof -
  have le: "s \<le> LOG_INDEX_MEM_TBL_SEG_NUM" using s tbl_wfD(2)[OF wf] by simp
  note hs = get_head_seg_slot[OF s(1) le]
  show ?thesis
  proof (rule wf_slot_cases[OF wf s])
    fix h assume h: "slot t s = Item_head h"
    show ?thesis using hs h get_head_slot[OF h s(1) le] wf_head(1)[OF wf s h]
      by (simp add: log_index_page_iterate_push_lsn_def)
  next
    fix g assume g: "slot t s = Item_seg g"
    show ?thesis using hs g get_seg_slot[OF g s(1) le] wf_seg(2)[OF wf s g]
      by (simp add: log_index_page_iterate_push_lsn_def)
  qed
qed

lemma spec_push_acc_state:
  "it_state iter = ITERATE_STATE_FORWARD \<Longrightarrow> iter\<lparr>it_state := ITERATE_STATE_FORWARD\<rparr> = iter"
  by (cases iter) auto

lemma linked_append2: "linked (xs @ ys) \<Longrightarrow> linked ys"
  by (induction xs) (auto dest: linked_tl)

lemma iterate_chain_loop_spec:
  assumes wf: "tbl_wf th n t" and h: "1 \<le> h" "h < n" "is_head (slot t h)"
  shows "h < m \<Longrightarrow> m \<le> n \<Longrightarrow> linked (chain_entries t m h) \<Longrightarrow>
    push_ok (iter_max_lsn iter) (chain_entries t m h) items \<Longrightarrow> it_state iter = ITERATE_STATE_FORWARD \<Longrightarrow>
    spec_push (it_min_lsn iter) (iter_max_lsn iter) (chain_entries t m h) (contents items) = (fin, acc) \<Longrightarrow>
    \<exists>items'. iterate_chain_loop t (h - 1) (last (chain t m h)) (iter, items, True) =
      Some (Inr (iter\<lparr>it_state := if fin then ITERATE_STATE_FINISHED else ITERATE_STATE_FORWARD\<rparr>, items', True))
    \<and> contents items' = acc \<and> filling items'"
proof (induction m arbitrary: items rule: less_induct)
  case (less m)
  define s where "s = last (chain t m h)"
  note c = chain_last[OF wf h(1) less.prems(1,2) h(3), folded s_def]
  note ce = chain_entries_last[OF wf h(1) less.prems(1,2) h(3), folded s_def]
  have s1: "1 \<le> s" "s < n" using c(2,3) h(1) less.prems(2) by simp_all
  have le: "s \<le> LOG_INDEX_MEM_TBL_SEG_NUM" using s1 tbl_wfD(2)[OF wf] by simp
  obtain fin1 acc1 where sp1: "spec_push (it_min_lsn iter) (iter_max_lsn iter)
      (seg_entries t s (number_of (slot t s))) (contents items) = (fin1, acc1)" by (rule prod.exhaust)
  obtain items1 where p: "log_index_page_iterate_push_lsn t s (iter, items, True) =
      Inr (iter\<lparr>it_state := if fin1 then ITERATE_STATE_FINISHED else ITERATE_STATE_FORWARD\<rparr>, items1, True)"
    and i1: "contents items1 = acc1" "filling items1" "\<not> fin1 \<Longrightarrow> push_ok (iter_max_lsn iter) (chain_entries t s h) items1"
    using push_lsn_loop_spec[OF wf s1 refl less.prems(3)[unfolded ce] less.prems(4)[unfolded ce] less.prems(5) sp1]
      iterate_push_seg[OF wf s1] by auto
  have sp: "(fin, acc) = (if fin1 then (True, acc1) else
      spec_push (it_min_lsn iter) (iter_max_lsn iter) (chain_entries t s h) acc1)"
    using less.prems(6) unfolding ce spec_push_append sp1 by (simp split: bool.splits)
  have ptr: "log_index_item_seg s = Inr (Some (s - 1))"
    using s1 le by (simp add: log_index_item_seg_def LOG_INDEX_ITEM_HEAD_def)
  show ?case
  proof (cases "s = h")
    case True
    have "iterate_chain_loop t (h - 1) s (iter, items, True) = Some (log_index_page_iterate_push_lsn t s (iter, items, True))"
      using ptr True by (subst iterate_chain_loop.simps) simp
    moreover have "(fin, acc) = (fin1, acc1)"
      using sp True chain_entries_head[OF wf h(1,2)] by (cases fin1) simp_all
    ultimately show ?thesis using p i1 by (simp add: s_def)
  next
    case False
    then obtain g where g: "slot t s = Item_seg g" "s_head_seg g = h"
      using in_chain_cases(2)[OF wf s1 c(4)] by blast
    have hs: "h < s" using False c(2) by simp
    have "seg_at t (s - 1) = Inr g" using g(1) by (simp add: slot_def)
    moreover have "s - 1 \<noteq> h - 1" using hs h(1) by simp
    ultimately have step: "iterate_chain_loop t (h - 1) s (iter, items, True) =
        (if fin1 then Some (Inr (iter\<lparr>it_state := ITERATE_STATE_FINISHED\<rparr>, items1, True))
         else iterate_chain_loop t (h - 1) (s_prev_seg g) (iter, items1, True))"
      using ptr p wf_seg(5)[OF wf s1 g(1)] spec_push_acc_state[OF less.prems(5)]
      by (subst iterate_chain_loop.simps) simp
    show ?thesis
    proof (cases fin1)
      case True
      then show ?thesis using step sp i1 by (simp add: s_def)
    next
      case nf: False
      have pv: "s_prev_seg g = last (chain t s h)" using wf_seg(4)[OF wf s1 g(1)] g(2) by simp
      have lk: "linked (chain_entries t s h)" using less.prems(3) unfolding ce by (rule linked_append2)
      have sp': "spec_push (it_min_lsn iter) (iter_max_lsn iter) (chain_entries t s h) (contents items1) = (fin, acc)"
        using sp nf i1(1) by simp
      show ?thesis
        using less.IH[OF c(3) hs less_imp_le[OF s1(2)] lk i1(3)[OF nf] less.prems(5) sp'] step nf
        by (simp add: pv s_def)
    qed
  qed
qed

section \<open>The entries of a page\<close>

fun prev_links :: "log_index_lsn_t list \<Rightarrow> bool" where
  "prev_links (e # f # es) \<longleftrightarrow> li_prev_lsn e = li_lsn f \<and> prev_links (f # es)"
| "prev_links _ \<longleftrightarrow> True"

lemma prev_links_append:
  "prev_links xs \<Longrightarrow> prev_links ys \<Longrightarrow> (xs \<noteq> [] \<Longrightarrow> ys \<noteq> [] \<Longrightarrow> li_prev_lsn (last xs) = li_lsn (hd ys)) \<Longrightarrow>
    prev_links (xs @ ys)"
  by (induction xs rule: prev_links.induct; cases ys) auto

lemma linked_iff: "linked es \<longleftrightarrow> prev_links es \<and> sorted_wrt (\<lambda>a b. b < a) (map li_lsn es)"
proof (induction es rule: linked.induct)
  case (1 e f es)
  have "(\<forall>x\<in>set es. li_lsn x < li_lsn e)" if "li_lsn f < li_lsn e" "\<forall>x\<in>set es. li_lsn x < li_lsn f"
    using that by (meson order.strict_trans)
  then show ?case using 1 by auto
qed auto

lemma prev_links_seg: "prev_links (seg_entries t s n)"
proof (induction n)
  case (Suc n)
  then show ?case by (cases n) (auto simp: entry_def prev_at_def)
qed simp

lemma prev_links_chain:
  assumes wf: "tbl_wf th n t" and h: "1 \<le> h" "is_head (slot t h)"
  shows "h < m \<Longrightarrow> m \<le> n \<Longrightarrow> prev_links (chain_entries t m h)"
proof (induction m rule: less_induct)
  case (less m)
  define s where "s = last (chain t m h)"
  note c = chain_last[OF wf h(1) less.prems h(2), folded s_def]
  note ce = chain_entries_last[OF wf h(1) less.prems h(2), folded s_def]
  have s1: "1 \<le> s" "s < n" using c(2,3) h(1) less.prems(2) by simp_all
  show ?case
  proof (cases "s = h")
    case True
    then show ?thesis unfolding ce using chain_entries_head[OF wf h(1)] s1 prev_links_seg by simp
  next
    case False
    then obtain g where g: "slot t s = Item_seg g" "s_head_seg g = h"
      using in_chain_cases(2)[OF wf s1 c(4)] by blast
    have hs: "h < s" using False c(2) by simp
    define q where "q = last (chain t s h)"
    note cq = chain_last[OF wf h(1) hs less_imp_le[OF s1(2)] h(2), folded q_def]
    have q1: "1 \<le> q" "q < n" using cq(2,3) h(1) s1 by simp_all
    have pv: "s_prev_seg g = q" using wf_seg(4)[OF wf s1 g(1)] g(2) by (simp add: q_def)
    have "hd (chain_entries t s h) = entry t (q, number_of (slot t q) - 1)"
      using chain_entries_last[OF wf h(1) hs less_imp_le[OF s1(2)] h(2), folded q_def] number_pos(1)[OF wf q1]
      by (cases "number_of (slot t q)") auto
    moreover have "li_prev_lsn (last (seg_entries t s (number_of (slot t s)))) = lsn_at t (q, number_of (slot t q) - 1)"
      using number_pos(1)[OF wf s1] g(1) pv
      by (auto simp: seg_entries_def last_rev hd_map last_map entry_def prev_at_def hd_rev)
    ultimately show ?thesis
      unfolding ce using less.IH[OF c(3) hs less_imp_le[OF s1(2)]]
      by (intro prev_links_append prev_links_seg) (auto simp: entry_def)
  qed
qed

lemma chain_entries_page:
  assumes "tbl_wf th n t" "find_head t n page = h" "h \<noteq> 0"
  shows "chain_entries t n h = rev (page_log page (tbl_log t))"
  using page_log_positions[OF assms] by (simp add: chain_entries_def)

lemma sorted_wrt_greater_rev: "sorted_wrt (\<lambda>a b. b < a) (map f (rev xs)) \<longleftrightarrow> sorted_wrt (<) (map f xs)"
  by (simp add: rev_map[symmetric] sorted_wrt_rev)

text \<open>The pairs of entries in a range, in order.\<close>

definition in_range :: "XLogRecPtr \<Rightarrow> XLogRecPtr \<Rightarrow> log_index_lsn_t \<Rightarrow> bool" where
  "in_range mn mx e \<longleftrightarrow> mn \<le> li_lsn e \<and> li_lsn e \<le> mx"

definition pairs :: "log_index_lsn_t list \<Rightarrow> (XLogRecPtr \<times> XLogRecPtr) list" where
  "pairs es = map (\<lambda>e. (li_prev_lsn e, li_lsn e)) es"

lemma spec_push_rev:
  "mn \<le> mx \<Longrightarrow> sorted_wrt (\<lambda>a b. b < a) (map li_lsn es) \<Longrightarrow> spec_push mn mx es acc =
    ((\<exists>e\<in>set es. li_lsn e \<le> mn), pairs (filter (in_range mn mx) (rev es)) @ acc)"
proof (induction mn mx es acc rule: spec_push.induct)
  case (2 mn mx e es acc)
  have older: "\<forall>f\<in>set es. li_lsn f < li_lsn e" using 2(4) by auto
  have none: "filter (in_range mn mx) (rev es) = []" if "li_lsn e \<le> mn"
    using older that by (auto simp: filter_empty_conv in_range_def)
  have "in_range mn mx e \<longleftrightarrow> mn \<le> li_lsn e \<and> li_lsn e \<le> mx" by (simp add: in_range_def)
  then show ?case using 2 none by (auto simp: pairs_def)
qed (simp add: pairs_def)

section \<open>Pushing one table\<close>

text \<open>What is on the stacks, in the order of popping.\<close>

definition collected :: "log_index_page_iter_data_t \<Rightarrow> (XLogRecPtr \<times> XLogRecPtr) list" where
  "collected iter = concat (map (\<lambda>ts. contents (stack_items ts)) (lsn_stack iter))"

text \<open>
  The state of a search in the range from \<open>mn\<close> to \<open>mx\<close>, where \<open>R\<close> are the entries of the page in the
  tables that are not searched yet. No entry carries a previous LSN from another table.
\<close>

definition search_inv ::
    "XLogRecPtr \<Rightarrow> XLogRecPtr \<Rightarrow> log_index_lsn_t list \<Rightarrow> log_index_page_iter_data_t \<Rightarrow> bool" where
  "search_inv mn mx R iter \<longleftrightarrow>
     it_min_lsn iter = mn \<and> it_max_lsn iter = mx \<and> mn \<le> iter_max_lsn iter \<and> iter_prev_lsn iter = InvalidXLogRecPtr
   \<and> (\<forall>ts\<in>set (lsn_stack iter). stack_prev_page_lsn ts = InvalidXLogRecPtr \<and> filling (stack_items ts))
   \<and> (it_state iter = ITERATE_STATE_FORWARD \<and> (\<forall>e\<in>set R. li_lsn e \<le> iter_max_lsn iter \<longleftrightarrow> li_lsn e \<le> mx)
      \<or> it_state iter = ITERATE_STATE_FINISHED \<and> (\<forall>e\<in>set R. li_lsn e < mn))"

text \<open>Two states of the same search.\<close>

definition same_search :: "log_index_page_iter_data_t \<Rightarrow> log_index_page_iter_data_t \<Rightarrow> bool" where
  "same_search iter' iter \<longleftrightarrow> it_tag iter' = it_tag iter \<and> it_key iter' = it_key iter
     \<and> it_max_idx_table_id iter' = it_max_idx_table_id iter"

lemma same_search_refl [simp]: "same_search iter iter"
  and same_search_trans: "same_search a b \<Longrightarrow> same_search b c \<Longrightarrow> same_search a c"
  by (simp_all add: same_search_def)

lemma iterate_table_data_spec:
  assumes wf: "tbl_wf th n t" and f: "find_head t n page = h" "h \<noteq> 0" and x: "slot t h = Item_head x"
    and srt: "sorted_wrt (<) (map li_lsn (page_log page (tbl_log t)))"
    and iter: "it_state iter = ITERATE_STATE_FORWARD" "iter_prev_lsn iter = InvalidXLogRecPtr"
      "it_min_lsn iter \<le> iter_max_lsn iter"
  obtains items where "log_index_iterate_table_data iter t (h - 1) x = Some (Inr (iter\<lparr>
      it_state := if \<exists>e\<in>set (page_log page (tbl_log t)). li_lsn e \<le> it_min_lsn iter then ITERATE_STATE_FINISHED
        else ITERATE_STATE_FORWARD,
      lsn_stack := \<lparr>stack_prev_page_lsn = h_prev_page_lsn x, stack_items = items\<rparr> # lsn_stack iter\<rparr>))"
    "contents items = pairs (filter (in_range (it_min_lsn iter) (iter_max_lsn iter)) (page_log page (tbl_log t)))"
    "filling items"
proof -
  let ?P = "page_log page (tbl_log t)"
  have h: "1 \<le> h" "h < n" "is_head (slot t h)" using find_head_Some[of t n page] f by simp_all
  note w = wf_head[OF wf h(1,2) x]
  note c = chain_last[OF wf h(1,2) le_refl h(3)]
  note ce = chain_entries_page[OF wf f]
  have srt': "sorted_wrt (\<lambda>a b. b < a) (map li_lsn (rev ?P))" using srt by (simp add: sorted_wrt_greater_rev)
  then have lk: "linked (chain_entries t n h)"
    using prev_links_chain[OF wf h(1,3) h(2) le_refl] unfolding linked_iff ce by blast
  have ok: "push_ok (iter_max_lsn iter) (chain_entries t n h) []"
    by (simp add: push_ok_def filling_def contents_def)
  have sp: "spec_push (it_min_lsn iter) (iter_max_lsn iter) (chain_entries t n h) (contents []) =
      (\<exists>e\<in>set ?P. li_lsn e \<le> it_min_lsn iter, pairs (filter (in_range (it_min_lsn iter) (iter_max_lsn iter)) ?P))"
    unfolding ce using spec_push_rev[OF iter(3) srt'] by (simp add: contents_def)
  obtain items where it: "iterate_chain_loop t (h - 1) (last (chain t n h)) (iter, [], True) = Some (Inr (iter\<lparr>
      it_state := if \<exists>e\<in>set ?P. li_lsn e \<le> it_min_lsn iter then ITERATE_STATE_FINISHED
        else ITERATE_STATE_FORWARD\<rparr>, items, True))"
    "contents items = pairs (filter (in_range (it_min_lsn iter) (iter_max_lsn iter)) ?P)" "filling items"
    using iterate_chain_loop_spec[OF wf h h(2) le_refl lk ok iter(1) sp] by blast
  have "last (chain t n h) \<noteq> LOG_INDEX_TBL_INVALID_SEG"
    using c(2) h(1) by simp
  then show thesis
    using that[of items] it w(3,4) iter(2) by (simp add: log_index_iterate_table_data_def)
qed

lemma push_tbl_lsn_spec:
  assumes wf: "tbl_wf th n t" and np: "no_prev (tbl_log t)"
    and P: "P = page_log (it_tag iter) (tbl_log t)"
    and key: "it_key iter = LOG_INDEX_MEM_TBL_HASH_PAGE th (it_tag iter)"
    and inv: "search_inv mn mx (R @ P) iter" and st: "it_state iter = ITERATE_STATE_FORWARD"
    and srt: "sorted_wrt (<) (map li_lsn (R @ P))" and lim: "\<forall>e\<in>set P. li_lsn e < - 1"
  obtains iter' where "log_index_push_tbl_lsn iter t = Some (Inr iter')" "search_inv mn mx R iter'"
    "collected iter' = pairs (filter (in_range mn mx) P) @ collected iter" "same_search iter' iter"
proof (cases "find_head t n (it_tag iter) = 0")
  case True
  have "P = []" using page_log_empty[OF wf True] P by simp
  then show thesis
    using that[of iter] inv tbl_find_eq[OF wf] True by (simp add: log_index_push_tbl_lsn_def key pairs_def)
next
  case False
  define h where "h = find_head t n (it_tag iter)"
  have f: "find_head t n (it_tag iter) = h" "h \<noteq> 0" using False by (simp_all add: h_def)
  have h: "1 \<le> h" "h < n" "is_head (slot t h)" using find_head_Some[of t n "it_tag iter"] f by simp_all
  obtain x where x: "slot t h = Item_head x" using h(3) by (cases "slot t h") auto
  have at: "head_at t (h - 1) = Inr x" using x by (simp add: slot_def)
  note b = item_bounds[OF wf f x, folded P]
  have ne: "P \<noteq> []" using page_log_last(1)[OF wf f] P by simp
  have prev: "h_prev_page_lsn x = InvalidXLogRecPtr" using np ne b(3) P by (auto simp: no_prev_def)
  have fwd: "\<forall>e\<in>set (R @ P). li_lsn e \<le> iter_max_lsn iter \<longleftrightarrow> li_lsn e \<le> mx"
    using inv st by (auto simp: search_inv_def)
  have same: "filter (in_range mn (iter_max_lsn iter)) P = filter (in_range mn mx) P"
    using fwd by (intro filter_cong) (auto simp: in_range_def)
  have sP: "sorted_wrt (<) (map li_lsn P)" and RP: "\<forall>r\<in>set R. \<forall>e\<in>set P. li_lsn r < li_lsn e"
    using srt by (auto simp: sorted_wrt_append)
  have hdl: "\<forall>e\<in>set P. li_lsn (hd P) \<le> li_lsn e" "\<forall>e\<in>set P. li_lsn e \<le> li_lsn (last P)"
    using sorted_hd_last[OF sP] by blast+
  have stk: "iter_prev_lsn iter = InvalidXLogRecPtr" "it_min_lsn iter = mn" "it_max_lsn iter = mx" "mn \<le> iter_max_lsn iter"
    "\<forall>ts\<in>set (lsn_stack iter). stack_prev_page_lsn ts = InvalidXLogRecPtr \<and> filling (stack_items ts)"
    using inv by (auto simp: search_inv_def)
  have "(case lsn_stack iter of [] \<Rightarrow> iter | ps # _ \<Rightarrow> if stack_prev_page_lsn ps \<noteq> InvalidXLogRecPtr
      then iter\<lparr>iter_prev_lsn := stack_prev_page_lsn ps\<rparr> else iter) = iter"
    using stk(5) by (auto split: list.split)
  then have step: "log_index_push_tbl_lsn iter t =
      (if li_lsn (hd P) > mx then Some (Inr iter)
       else if li_lsn (last P) < mn then Some (Inr (iter\<lparr>it_state := ITERATE_STATE_FINISHED\<rparr>))
       else (case log_index_iterate_table_data iter t (h - 1) x of
               None \<Rightarrow> None
             | Some (Inl e) \<Rightarrow> Some (Inl e)
             | Some (Inr iter) \<Rightarrow> Some (Inr (iter\<lparr>iter_max_lsn := li_lsn (last P) + 1\<rparr>))))"
    using tbl_find_eq[OF wf] f at b by (simp add: log_index_push_tbl_lsn_def key stk Let_def del: One_nat_def)
  consider (above) "li_lsn (hd P) > mx" | (below) "li_lsn (hd P) \<le> mx" "li_lsn (last P) < mn"
    | (hit) "li_lsn (hd P) \<le> mx" "mn \<le> li_lsn (last P)"
    by fastforce
  then show thesis
  proof cases
    case above
    then have "filter (in_range mn mx) P = []" using hdl(1) by (fastforce simp: filter_empty_conv in_range_def)
    then show thesis using that[of iter] step above inv st by (auto simp: pairs_def search_inv_def)
  next
    case below
    have lt: "\<forall>e\<in>set (R @ P). li_lsn e < mn"
      using below(2) hdl(2) RP last_in_set[OF ne] by (auto intro: le_less_trans less_trans)
    then have "filter (in_range mn mx) P = []" by (auto simp: filter_empty_conv in_range_def not_le)
    then show thesis
      using that[of "iter\<lparr>it_state := ITERATE_STATE_FINISHED\<rparr>"] step below stk lt
      by (auto simp: pairs_def search_inv_def collected_def same_search_def)
  next
    case hit
    obtain items where it: "log_index_iterate_table_data iter t (h - 1) x = Some (Inr (iter\<lparr>
        it_state := if \<exists>e\<in>set P. li_lsn e \<le> mn then ITERATE_STATE_FINISHED else ITERATE_STATE_FORWARD,
        lsn_stack := \<lparr>stack_prev_page_lsn = h_prev_page_lsn x, stack_items = items\<rparr> # lsn_stack iter\<rparr>))"
      "contents items = pairs (filter (in_range mn mx) P)" "filling items"
      using iterate_table_data_spec[OF wf f x sP[unfolded P] st stk(1)] stk(2,4) same by (auto simp: P)
    let ?iter = "iter\<lparr>it_state := if \<exists>e\<in>set P. li_lsn e \<le> mn then ITERATE_STATE_FINISHED else ITERATE_STATE_FORWARD,
        lsn_stack := \<lparr>stack_prev_page_lsn = h_prev_page_lsn x, stack_items = items\<rparr> # lsn_stack iter,
        iter_max_lsn := li_lsn (last P) + 1\<rparr>"
    have run: "log_index_push_tbl_lsn iter t = Some (Inr ?iter)" using step hit it(1) by simp
    have mx1: "li_lsn (last P) < li_lsn (last P) + 1"
      using lim last_in_set[OF ne] by (metis inc_less_eq_triv_imp less_irrefl not_le)
    have le: "li_lsn r \<le> li_lsn (last P) + 1 \<and> li_lsn r \<le> mx" if "r \<in> set R" for r
    proof -
      have "li_lsn r < li_lsn (last P)" "li_lsn r < li_lsn (hd P)"
        using RP that last_in_set[OF ne] hd_in_set[OF ne] by blast+
      then show ?thesis using mx1 hit(1) by (auto intro: less_imp_le dest: less_trans less_le_trans)
    qed
    have old: "li_lsn r < mn" if "r \<in> set R" "e \<in> set P" "li_lsn e \<le> mn" for r e
      using RP that by (meson less_le_trans)
    have "mn \<le> li_lsn (last P) + 1" using hit(2) mx1 by (meson less_imp_le order_trans)
    then have "search_inv mn mx R ?iter"
      unfolding search_inv_def using stk it(3) prev le old by auto
    then show thesis using that[OF run] it(2) by (simp add: collected_def same_search_def)
  qed
qed
end
