(* ===== verification/Log_Bloom.thy ===== *)
theory Log_Bloom
  imports Log_Store
begin

text \<open>
  The Bloom filter of a saved table: the walk of \<open>log_index_calc_bloom\<close> over the hash slots ends, gives
  bounds of the LSNs in the table, and a filter that lacks no page of the table.
\<close>

section \<open>The walk over the pages of a table\<close>

definition bloom_step ::
    "log_idx_table_data_t \<Rightarrow> log_seg_id_t \<Rightarrow> XLogRecPtr \<times> XLogRecPtr \<times> bloom_filter
      \<Rightarrow> XLogRecPtr \<times> XLogRecPtr \<times> bloom_filter" where
  "bloom_step t s acc = (case acc of (mn, mx, flt) \<Rightarrow>
     (let page = slot_tag (slot t s); P = page_log page (tbl_log t)
      in (min mn (li_lsn (hd P)), max mx (li_lsn (last P)), bloom_add_element True flt (tag_bytes page))))"

lemma bloom_step_eq:
  "bloom_step t s (mn, mx, flt) =
    (min mn (li_lsn (hd (page_log (slot_tag (slot t s)) (tbl_log t)))),
     max mx (li_lsn (last (page_log (slot_tag (slot t s)) (tbl_log t)))),
     bloom_add_element True flt (tag_bytes (slot_tag (slot t s))))"
  by (simp add: bloom_step_def Let_def)

lemma find_head_tag:
  assumes wf: "tbl_wf th n t" and s: "1 \<le> s" "s < n" "is_head (slot t s)"
  shows "find_head t n (slot_tag (slot t s)) = s"
proof (cases "find_head t n (slot_tag (slot t s)) = 0")
  case True
  then show ?thesis using find_head_None[OF True] s by blast
next
  case False
  then show ?thesis using find_head_Some[OF False] tbl_wfD(6)[OF wf _ _ s(1,2) _ s(3)] by blast
qed

lemma calc_bloom_chain_spec:
  assumes wf: "tbl_wf th n t"
  shows "m \<le> n \<Longrightarrow> calc_bloom_chain t acc (last0 (bucket th t m key)) =
    Some (Inr (fold (bloom_step t) (rev (bucket th t m key)) acc))"
proof (induction m arbitrary: acc rule: less_induct)
  case (less m)
  let ?Q = "\<lambda>s. is_head (slot t s) \<and> LOG_INDEX_MEM_TBL_HASH_PAGE th (slot_tag (slot t s)) = key"
  show ?case
  proof (cases "filter ?Q [1..<m] = []")
    case True
    then show ?thesis
      by (subst calc_bloom_chain.simps)
        (simp add: bucket_def last0_def log_index_item_head_def LOG_INDEX_ITEM_HEAD_def)
  next
    case False
    define s where "s = last (filter ?Q [1..<m])"
    note s = last_filter_upt[OF False s_def]
    have sn: "s < n" using s(2) less.prems by simp
    obtain x where x: "slot t s = Item_head x" using s(3) by (blast elim: is_headE)
    have b: "last0 (bucket th t m key) = s" using False by (simp add: bucket_def last0_def s_def)
    have "filter ?Q [1..<m] = filter ?Q [1..<Suc s]" using s by (intro filter_upt_cut) auto
    then have bs: "bucket th t m key = bucket th t s key @ [s]" using s(1,3) by (simp add: bucket_def)
    have f: "find_head t n (h_tag x) = s" using find_head_tag[OF wf s(1) sn] x by simp
    note ib = item_bounds[OF wf f _ x]
    have nx: "h_next_item x = last0 (bucket th t s key)" using wf_head(2)[OF wf s(1) sn x] s(3) x by simp
    have "log_index_item_head s = Inr (Some (s - 1))" "head_at t (s - 1) = Inr x"
      using s(1) sn tbl_wfD(2)[OF wf] x by (simp_all add: log_index_item_head_def LOG_INDEX_ITEM_HEAD_def slot_def)
    then have "calc_bloom_chain t acc s = calc_bloom_chain t (bloom_step t s acc) (h_next_item x)"
      using ib s(1) x by (subst calc_bloom_chain.simps) (simp add: bloom_step_def Let_def split: prod.split)
    then show ?thesis using b bs nx less.IH[OF s(2)] sn by simp
  qed
qed

lemma calc_bloom_slots_spec:
  assumes wf: "tbl_wf th n t"
  shows "\<forall>k\<in>set keys. k < LOG_INDEX_MEM_TBL_HASH_NUM \<Longrightarrow> calc_bloom_slots t keys acc =
    Some (Inr (fold (bloom_step t) (concat (map (\<lambda>k. rev (bucket th t n k)) keys)) acc))"
proof (induction keys arbitrary: acc)
  case (Cons k keys)
  have h: "tbl_hash t k = last0 (bucket th t n k)" using tbl_wfD(5)[OF wf] Cons.prems by simp
  show ?case
  proof (cases "bucket th t n k = []")
    case True
    then show ?thesis using Cons h by (simp add: last0_def)
  next
    case False
    then have "last0 (bucket th t n k) \<in> set (bucket th t n k)" by (simp add: last0_def)
    then have "tbl_hash t k \<noteq> LOG_INDEX_TBL_INVALID_SEG" using h by (auto simp: bucket_def)
    then show ?thesis using Cons h calc_bloom_chain_spec[OF wf le_refl] by simp
  qed
qed simp

text \<open>All pages of the table come along.\<close>

definition all_heads :: "(BufferTag \<Rightarrow> uint32) \<Rightarrow> nat \<Rightarrow> log_idx_table_data_t \<Rightarrow> log_seg_id_t list" where
  "all_heads th n t = concat (map (\<lambda>k. rev (bucket th t n k)) [0..<LOG_INDEX_MEM_TBL_HASH_NUM])"

lemma set_all_heads: "set (all_heads th n t) = {s. 1 \<le> s \<and> s < n \<and> is_head (slot t s)}"
  by (auto simp: all_heads_def bucket_def)

lemma bloom_fold:
  assumes "fold (bloom_step t) ss (mn, mx, flt) = (mn', mx', flt')"
  shows "mn' \<le> mn" "mx \<le> mx'" "flt' = fold (\<lambda>x f. bloom_add_element True f x) (map (\<lambda>s. tag_bytes (slot_tag (slot t s))) ss) flt"
    "s \<in> set ss \<Longrightarrow> mn' \<le> li_lsn (hd (page_log (slot_tag (slot t s)) (tbl_log t)))"
    "s \<in> set ss \<Longrightarrow> li_lsn (last (page_log (slot_tag (slot t s)) (tbl_log t))) \<le> mx'"
proof -
  have "mn' \<le> mn \<and> mx \<le> mx' \<and> flt' = fold (\<lambda>x f. bloom_add_element True f x) (map (\<lambda>s. tag_bytes (slot_tag (slot t s))) ss) flt
    \<and> (\<forall>s\<in>set ss. mn' \<le> li_lsn (hd (page_log (slot_tag (slot t s)) (tbl_log t)))
        \<and> li_lsn (last (page_log (slot_tag (slot t s)) (tbl_log t))) \<le> mx')"
    using assms
  proof (induction ss arbitrary: mn mx flt)
    case (Cons a ss)
    from Cons.IH[OF Cons.prems[unfolded fold_simps bloom_step_eq]] show ?case by (auto simp: bloom_step_eq)
  qed simp
  then show "mn' \<le> mn" "mx \<le> mx'" "flt' = fold (\<lambda>x f. bloom_add_element True f x) (map (\<lambda>s. tag_bytes (slot_tag (slot t s))) ss) flt"
    "s \<in> set ss \<Longrightarrow> mn' \<le> li_lsn (hd (page_log (slot_tag (slot t s)) (tbl_log t)))"
    "s \<in> set ss \<Longrightarrow> li_lsn (last (page_log (slot_tag (slot t s)) (tbl_log t))) \<le> mx'"
    by blast+
qed

section \<open>The filter of a table\<close>

text \<open>What a filter page promises about the entries of its table.\<close>

definition bloom_covers :: "io_env \<Rightarrow> log_file_table_bloom_t \<Rightarrow> nat \<Rightarrow> log_index_lsn_t list \<Rightarrow> bool" where
  "bloom_covers env b tid L \<longleftrightarrow> bloom_tid b = tid
     \<and> (\<forall>e\<in>set L. bloom_min_lsn b \<le> li_lsn e \<and> li_lsn e \<le> bloom_max_lsn b
          \<and> \<not> bloom_lacks_element True (polar_bloom_init_struct (rint_log env) (bloom_bytes b) LOG_INDEX_BLOOM_ELEMS_NUM 0)
               (tag_bytes (li_tag e)))"

definition page_sorted :: "log_index_lsn_t list \<Rightarrow> bool" where
  "page_sorted L \<longleftrightarrow> (\<forall>page. sorted_wrt (<) (map li_lsn (page_log page L)))"

lemma get_bloom_data_ok:
  assumes wf: "tbl_wf th n t" and srt: "page_sorted (tbl_log t)" and ne: "bloom_bytes bl \<noteq> []"
  obtains b where "log_index_get_bloom_data env t tid bl = Some (Inr b)" "bloom_covers env b tid (tbl_log t)"
proof -
  let ?init = "polar_bloom_init_struct (rint_log env)"
  let ?tags = "map (\<lambda>s. tag_bytes (slot_tag (slot t s))) (all_heads th n t)"
  let ?bl = "bl\<lparr>bloom_tid := tid, bloom_max_lsn := InvalidXLogRecPtr, bloom_min_lsn := UINT64_MAX,
    bloom_buf_size := LOG_INDEX_FILE_TBL_BLOOM_SIZE - 32\<rparr>"
  obtain mn mx flt where r: "fold (bloom_step t) (all_heads th n t)
      (UINT64_MAX, InvalidXLogRecPtr, ?init (bloom_bytes bl) LOG_INDEX_BLOOM_ELEMS_NUM 0) = (mn, mx, flt)"
    by (metis prod_cases3)
  have c: "log_index_calc_bloom env t ?bl =
      Some (Inr (?bl\<lparr>bloom_min_lsn := mn, bloom_max_lsn := mx, bloom_bytes := bitset flt\<rparr>))"
    using calc_bloom_slots_spec[OF wf, of "[0..<LOG_INDEX_MEM_TBL_HASH_NUM]"] r
    by (simp add: log_index_calc_bloom_def all_heads_def)
  define b where "b = ?bl\<lparr>bloom_min_lsn := mn, bloom_max_lsn := mx, bloom_bytes := bitset flt, bloom_crc := 0\<rparr>"
  have run: "log_index_get_bloom_data env t tid bl = Some (Inr (b\<lparr>bloom_crc := crc_bloom env b\<rparr>))"
    using c by (simp add: log_index_get_bloom_data_def b_def Let_def)
  have "mn \<le> li_lsn e \<and> li_lsn e \<le> mx
      \<and> \<not> bloom_lacks_element True (?init (bitset flt) LOG_INDEX_BLOOM_ELEMS_NUM 0) (tag_bytes (li_tag e))"
    if e: "e \<in> set (tbl_log t)" for e
  proof -
    define s where "s = find_head t n (li_tag e)"
    have ep: "e \<in> set (page_log (li_tag e) (tbl_log t))" using e by (simp add: page_log_def)
    then have "s \<noteq> 0" using page_log_empty[OF wf, of "li_tag e"] unfolding s_def by force
    then have s: "s \<in> set (all_heads th n t)" "slot_tag (slot t s) = li_tag e"
      using find_head_Some[of t n "li_tag e"] by (simp_all add: set_all_heads s_def)
    have "\<not> bloom_lacks_element True flt (tag_bytes (li_tag e))"
      unfolding bloom_fold(3)[OF r] using s
      by (intro bloom.no_false_negative bloom_init_ok[OF ne]) (auto simp: image_iff intro!: bexI[of _ s])
    moreover have "?init (bitset flt) LOG_INDEX_BLOOM_ELEMS_NUM 0 = flt"
      unfolding bloom_fold(3)[OF r] by (rule bloom_relay)
    ultimately show ?thesis
      using bloom_fold(4,5)[OF r s(1)] s(2) ep sorted_hd_last[of li_lsn "page_log (li_tag e) (tbl_log t)"] srt
      by (auto simp: page_sorted_def dest: order_trans)
  qed
  then show thesis using that[OF run] by (simp add: bloom_covers_def b_def)
qed

end
