(* ===== verification/Log_Store_Inv.thy ===== *)
theory Log_Store_Inv
  imports Log_Bloom
begin

text \<open>
  The invariant of the logindex on storage. The history \<open>H\<close> of a snapshot is the list of the contents
  of its tables: the table \<open>k\<close> holds \<open>H ! (k - 1)\<close>. Every saved table that is not truncated can be read
  back with its contents, and its filter lacks none of its pages. Writing the next table and
  truncation keep the invariant.
\<close>

section \<open>What a table holds\<close>

lemma same_contents:
  assumes "segment t' = segment t" "tbl_hash t' = tbl_hash t" "idx_order t' = idx_order t" "last_order t' = last_order t"
  shows "tbl_wf th n t' = tbl_wf th n t" "prefix_lsn t' = prefix_lsn t \<Longrightarrow> tbl_log t' = tbl_log t"
proof -
  have sl: "slot t' = slot t" by (rule ext) (simp add: slot_def assms)
  then have [simp]: "chain t' = chain t" "bucket th t' = bucket th t" "positions t' = positions t" "orders t' = orders t"
    by (auto simp: fun_eq_iff chain_def bucket_def positions_def orders_def assms)
  have so: "seg_ok th t' = seg_ok th t" by (simp add: fun_eq_iff seg_ok.simps sl split: log_tbl_seg_t.split)
  show "tbl_wf th n t' = tbl_wf th n t" by (simp add: tbl_wf_def sl so assms)
  assume p: "prefix_lsn t' = prefix_lsn t"
  have "lsn_at t' = lsn_at t" by (rule ext) (simp add: lsn_at_def LOG_INDEX_COMBINE_LSN_def sl p)
  then have "entry t' = entry t" by (simp add: fun_eq_iff entry_def tag_of_def prev_at_def sl split: log_tbl_seg_t.split)
  then show "tbl_log t' = tbl_log t" by (simp add: tbl_log_def)
qed

definition tbl_holds :: "log_idx_table_data_t \<Rightarrow> log_index_lsn_t list \<Rightarrow> bool" where
  "tbl_holds t es \<longleftrightarrow> (\<exists>n. tbl_wf page_hash n t) \<and> tbl_log t = es
     \<and> (\<forall>e\<in>set es. tbl_min_lsn t \<le> li_lsn e \<and> li_lsn e \<le> tbl_max_lsn t)"

lemma tbl_holds_bounds:
  assumes "tbl_holds t es" "\<forall>e\<in>set es. a \<le> li_lsn e \<and> li_lsn e \<le> b"
  shows "tbl_holds (t\<lparr>tbl_min_lsn := a, tbl_max_lsn := b, tbl_crc := c\<rparr>) es"
  using assms same_contents[of "t\<lparr>tbl_min_lsn := a, tbl_max_lsn := b, tbl_crc := c\<rparr>" t]
  by (auto simp: tbl_holds_def)

section \<open>Where tables lie\<close>

lemma table_place:
  "LOG_INDEX_FILE_TABLE_SEGMENT_NO (Suc k) = k div 64" "LOG_INDEX_FILE_TABLE_SEGMENT_OFFSET (Suc k) = k mod 64"
  "LOG_INDEX_TBL_BLOOM_PAGE_NO (Suc k) = k div 2" "LOG_INDEX_TBL_BLOOM_PAGE_OFFSET (Suc k) = 4096 * (k mod 2)"
proof -
  have "k * 4096 div (4096 * 2) = k div 2" "k * 4096 mod (2 * 4096) = k mod 2 * 4096"
    by (simp_all only: div_mult_mult2 mult.commute[of 4096 2] mult_mod_left)
  then show "LOG_INDEX_TBL_BLOOM_PAGE_NO (Suc k) = k div 2" "LOG_INDEX_TBL_BLOOM_PAGE_OFFSET (Suc k) = 4096 * (k mod 2)"
    by (simp_all add: LOG_INDEX_TBL_BLOOM_PAGE_NO_def LOG_INDEX_TBL_BLOOM_PAGE_OFFSET_def tid_pred_def
        LOG_INDEX_FILE_TBL_BLOOM_SIZE_def)
qed (simp_all add: LOG_INDEX_FILE_TABLE_SEGMENT_NO_def LOG_INDEX_FILE_TABLE_SEGMENT_OFFSET_def tid_pred_def
    LOG_INDEX_TABLE_NUM_PER_FILE_def)

section \<open>The invariant\<close>

text \<open>No operation of the operating system fails, and a local cache of segment files, if there is one,
  gives the contents of a complete file.\<close>

definition io_ok :: "io_env \<Rightarrow> bool" where
  "io_ok env \<longleftrightarrow> (\<forall>e. \<not> fails env e)
     \<and> (\<forall>cache_read. segment_cache env = Some cache_read \<longrightarrow>
          (\<forall>segno f. length f = LOG_INDEX_TABLE_NUM_PER_FILE \<longrightarrow> cache_read segno (Some f) = Some f))"

definition stored :: "io_env \<Rightarrow> log_store \<Rightarrow> nat \<Rightarrow> log_index_lsn_t list \<Rightarrow> bool" where
  "stored env st k es \<longleftrightarrow>
     (case tbl_files st (LOG_INDEX_FILE_TABLE_SEGMENT_NO k) of
        None \<Rightarrow> False
      | Some f \<Rightarrow> LOG_INDEX_FILE_TABLE_SEGMENT_OFFSET k < length f
          \<and> (let t = f ! LOG_INDEX_FILE_TABLE_SEGMENT_OFFSET k
             in idx_table_id t = k \<and> tbl_crc t = crc_tbl env (t\<lparr>tbl_crc := 0\<rparr>) \<and> tbl_holds t es))
   \<and> bloom_covers env (log_index_get_tbl_bloom st k) k es"

text \<open>A file has the tables of its segment, and behind them tables of an earlier use of the file.\<close>

definition file_ok :: "nat \<Rightarrow> log_idx_table_data_t list \<Rightarrow> bool" where
  "file_ok segno f \<longleftrightarrow> length f \<le> 64
     \<and> (\<forall>j<length f. idx_table_id (f ! j) = Suc (64 * segno + j) \<or> idx_table_id (f ! j) \<le> 64 * segno)"

definition cache_ok :: "log_table_cache_t \<Rightarrow> log_index_lsn_t list list \<Rightarrow> nat \<Rightarrow> bool" where
  "cache_ok c H M \<longleftrightarrow> cache_valid c \<longrightarrow> 1 \<le> cache_min_idx_table_id c \<and> cache_max_idx_table_id c \<le> M
     \<and> (\<forall>k. cache_min_idx_table_id c \<le> k \<and> k \<le> cache_max_idx_table_id c \<longrightarrow>
          (let t = cache_data c ! (k - cache_min_idx_table_id c)
           in idx_table_id t = k \<and> tbl_holds t (H ! (k - 1))))"

text \<open>The first segment that is still there.\<close>

definition min_segment_ok :: "log_index_file_segment_t \<Rightarrow> log_index_lsn_t list list \<Rightarrow> nat \<Rightarrow> bool" where
  "min_segment_ok sg H M \<longleftrightarrow>
     (if M = 0 then segment_no sg = 0 \<and> seg_min_idx_table_id sg = 0 \<and> seg_max_idx_table_id sg = 0 \<and> seg_max_lsn sg = 0
      else 64 * segment_no sg < M \<and> seg_min_idx_table_id sg = Suc (64 * segment_no sg)
         \<and> seg_max_idx_table_id sg = min M (64 * Suc (segment_no sg))
         \<and> (\<forall>k. seg_min_idx_table_id sg \<le> k \<and> k \<le> seg_max_idx_table_id sg \<longrightarrow>
              (\<forall>e\<in>set (H ! (k - 1)). li_lsn e \<le> seg_max_lsn sg)))"

definition store_inv :: "io_env \<Rightarrow> log_store \<Rightarrow> log_index_lsn_t list list \<Rightarrow> bool" where
  "store_inv env st H \<longleftrightarrow>
     (let M = meta_max_idx_table_id (meta st); sg = min_segment_info (meta st)
      in M \<le> length H \<and> meta_file st \<noteq> None \<and> min_segment_ok sg H M
       \<and> (\<forall>k. 1 \<le> k \<and> k \<le> M \<longrightarrow> (\<forall>e\<in>set (H ! (k - 1)). li_lsn e \<le> meta_max_lsn (meta st)))
       \<and> (\<forall>k. 1 \<le> k \<and> seg_min_idx_table_id sg \<le> k \<and> k \<le> M \<longrightarrow> stored env st k (H ! (k - 1)))
       \<and> (\<forall>segno f. tbl_files st segno = Some f \<longrightarrow> file_ok segno f)
       \<and> cache_ok (table_cache st) H M)"

lemma store_invD:
  assumes "store_inv env st H"
  defines "M \<equiv> meta_max_idx_table_id (meta st)" and "sg \<equiv> min_segment_info (meta st)"
  shows "M \<le> length H" "meta_file st \<noteq> None" "min_segment_ok sg H M"
    and "\<And>k e. k < M \<Longrightarrow> e \<in> set (H ! k) \<Longrightarrow> li_lsn e \<le> meta_max_lsn (meta st)"
    and "\<And>k. seg_min_idx_table_id sg \<le> Suc k \<Longrightarrow> k < M \<Longrightarrow> stored env st (Suc k) (H ! k)"
    and "\<And>segno f. tbl_files st segno = Some f \<Longrightarrow> file_ok segno f" "cache_ok (table_cache st) H M"
  using assms(1) unfolding store_inv_def Let_def M_def[symmetric] sg_def[symmetric]
  by (auto simp: less_eq_Suc_le)

lemma store_invI:
  fixes st
  defines "M \<equiv> meta_max_idx_table_id (meta st)" and "sg \<equiv> min_segment_info (meta st)"
  assumes "M \<le> length H" "meta_file st \<noteq> None" "min_segment_ok sg H M"
    and "\<And>k e. k < M \<Longrightarrow> e \<in> set (H ! k) \<Longrightarrow> li_lsn e \<le> meta_max_lsn (meta st)"
    and "\<And>k. seg_min_idx_table_id sg \<le> Suc k \<Longrightarrow> k < M \<Longrightarrow> stored env st (Suc k) (H ! k)"
    and "\<And>segno f. tbl_files st segno = Some f \<Longrightarrow> file_ok segno f" "cache_ok (table_cache st) H M"
  shows "store_inv env st H"
  unfolding store_inv_def Let_def M_def[symmetric] sg_def[symmetric]
proof (intro conjI allI impI ballI)
  fix k assume k: "1 \<le> k \<and> k \<le> M"
  then obtain j where j: "k = Suc j" "j < M" by (cases k) auto
  show "li_lsn e \<le> meta_max_lsn (meta st)" if "e \<in> set (H ! (k - 1))" for e using assms(6) j that by simp
next
  fix k assume k: "1 \<le> k \<and> seg_min_idx_table_id sg \<le> k \<and> k \<le> M"
  then obtain j where j: "k = Suc j" "j < M" by (cases k) auto
  show "stored env st k (H ! (k - 1))" using assms(7) j k by simp
qed (use assms in auto)

section \<open>Writing the next table\<close>

lemma file_write_nth:
  "i < length f \<Longrightarrow> i \<noteq> j \<Longrightarrow> file_write f j t ! i = f ! i" "file_write f j t ! j = t"
  "length (file_write f j t) = max (length f) (Suc j)"
  by (auto simp: file_write_def nth_append)

lemma file_write_ok:
  assumes "file_ok segno f" "j < 64" "idx_table_id t = Suc (64 * segno + j)"
  shows "file_ok segno (file_write f j t)"
proof -
  have "idx_table_id (file_write f j t ! i) = Suc (64 * segno + i) \<or> idx_table_id (file_write f j t ! i) \<le> 64 * segno"
    if i: "i < max (length f) (Suc j)" for i
  proof (cases "i < length f \<or> i = j")
    case True
    then show ?thesis using assms file_write_nth(1)[of i f j t] by (cases "i = j") (auto simp: file_ok_def file_write_nth(2))
  next
    case False
    then have "file_write f j t ! i = zero_table" using i by (auto simp: file_write_def nth_append)
    then show ?thesis by (simp add: zero_table_def)
  qed
  then show ?thesis using assms by (auto simp: file_ok_def file_write_nth)
qed

lemma save_bloom_get:
  "log_index_get_tbl_bloom (log_index_save_bloom st (Suc m) b) (Suc m) = b"
  "k < m \<Longrightarrow> log_index_get_tbl_bloom (log_index_save_bloom st (Suc m) b) (Suc k) = log_index_get_tbl_bloom st (Suc k)"
proof -
  show "log_index_get_tbl_bloom (log_index_save_bloom st (Suc m) b) (Suc m) = b"
    by (simp add: log_index_get_tbl_bloom_def log_index_save_bloom_def Let_def)
  assume "k < m"
  moreover have "2 * (k div 2) + k mod 2 = k" "2 * (m div 2) + m mod 2 = m" by simp_all
  ultimately have "k div 2 \<noteq> m div 2 \<or> k mod 2 < m mod 2" by linarith
  then show "log_index_get_tbl_bloom (log_index_save_bloom st (Suc m) b) (Suc k) = log_index_get_tbl_bloom st (Suc k)"
    by (auto simp: log_index_get_tbl_bloom_def log_index_save_bloom_def Let_def table_place)
qed

text \<open>Storing the table after \<open>m\<close> tables leaves the others in place.\<close>

lemma stored_keep:
  assumes "stored env st (Suc k) es" "k < m"
    and "tbl_files st' = (tbl_files st)(m div 64 := Some (file_write f (m mod 64) t))"
    and "tbl_files st (m div 64) = Some f \<or> tbl_files st (m div 64) = None"
    and "bloom_pages st' = bloom_pages (log_index_save_bloom st (Suc m) b)"
  shows "stored env st' (Suc k) es"
proof -
  have "log_index_get_tbl_bloom st' (Suc k) = log_index_get_tbl_bloom (log_index_save_bloom st (Suc m) b) (Suc k)"
    using assms(5) by (simp add: log_index_get_tbl_bloom_def)
  then have b: "log_index_get_tbl_bloom st' (Suc k) = log_index_get_tbl_bloom st (Suc k)"
    using save_bloom_get(2)[OF assms(2)] by simp
  obtain g where g: "tbl_files st (k div 64) = Some g" "k mod 64 < length g"
    using assms(1) by (auto simp: stored_def table_place split: option.splits)
  have "\<exists>g'. tbl_files st' (k div 64) = Some g' \<and> k mod 64 < length g' \<and> g' ! (k mod 64) = g ! (k mod 64)"
  proof (cases "k div 64 = m div 64")
    case True
    then have "k mod 64 \<noteq> m mod 64" using assms(2) by (metis div_mult_mod_eq less_irrefl)
    then show ?thesis using True assms(3,4) g file_write_nth(1)[of "k mod 64" f "m mod 64" t] by (auto simp: file_write_nth(3))
  qed (use assms(3) g in auto)
  then show ?thesis using assms(1) g b by (auto simp: stored_def table_place Let_def)
qed

lemma meta_add_table_ok:
  assumes "min_segment_ok (min_segment_info mt) H M" "meta_max_idx_table_id mt = M"
    and l: "\<forall>e\<in>set (H ! M). li_lsn e \<le> l"
  defines "mt' \<equiv> meta_add_table mt (Suc M) l"
  shows "meta_max_idx_table_id mt' = Suc M" "meta_max_lsn mt' = max (meta_max_lsn mt) l"
    "min_segment_ok (min_segment_info mt') H (Suc M)"
    "seg_min_idx_table_id (min_segment_info mt') = (if M = 0 then 1 else seg_min_idx_table_id (min_segment_info mt))"
proof -
  let ?sg = "min_segment_info mt" and ?sg' = "min_segment_info mt'"
  show "meta_max_idx_table_id mt' = Suc M" "meta_max_lsn mt' = max (meta_max_lsn mt) l"
    using assms(2) by (simp_all add: mt'_def meta_add_table_def Let_def)
  define q where "q = M div 64"
  have q: "64 * q \<le> M" "M < 64 * q + 64" by (simp_all add: q_def)
  have le: "segment_no ?sg \<le> q"
  proof -
    have "64 * segment_no ?sg \<le> M" using assms(1) by (simp add: min_segment_ok_def split: if_splits)
    then show ?thesis using q(2) by linarith
  qed
  have eq: "?sg' = (if segment_no ?sg = q then
      ?sg\<lparr>seg_max_lsn := max l (seg_max_lsn ?sg), seg_max_idx_table_id := max (Suc M) (seg_max_idx_table_id ?sg),
          seg_min_idx_table_id := Suc (64 * segment_no ?sg)\<rparr> else ?sg)"
    using le by (simp add: mt'_def meta_add_table_def Let_def table_place q_def[symmetric]
        LOG_INDEX_TABLE_NUM_PER_FILE_def min_absorb1 mult.commute)
  show "seg_min_idx_table_id ?sg' = (if M = 0 then 1 else seg_min_idx_table_id ?sg)"
    using assms(1) eq q by (auto simp: min_segment_ok_def)
  show "min_segment_ok ?sg' H (Suc M)"
  proof (cases "segment_no ?sg = q")
    case True
    have "li_lsn e \<le> max l (seg_max_lsn ?sg)"
      if "Suc (64 * segment_no ?sg) \<le> k" "k \<le> Suc M" "e \<in> set (H ! (k - 1))" for k e
    proof (cases "k = Suc M")
      case True
      then show ?thesis using that l by (auto simp: le_max_iff_disj)
    next
      case False
      then have "k \<le> M" "M \<noteq> 0" using that True by auto
      then have "k \<le> seg_max_idx_table_id ?sg" "seg_min_idx_table_id ?sg \<le> k"
        using assms(1) that(1) True q by (auto simp: min_segment_ok_def)
      then show ?thesis using assms(1) that(3) \<open>M \<noteq> 0\<close> by (auto simp: min_segment_ok_def le_max_iff_disj)
    qed
    moreover have "max (Suc M) (seg_max_idx_table_id ?sg) = min (Suc M) (64 * Suc (segment_no ?sg))"
      using assms(1) True q by (auto simp: min_segment_ok_def split: if_splits)
    ultimately show ?thesis using eq True q by (auto simp: min_segment_ok_def)
  next
    case False
    then have "M \<noteq> 0" "64 * Suc (segment_no ?sg) \<le> M" using assms(1) le q by (auto simp: min_segment_ok_def)
    then show ?thesis using assms(1) eq False by (auto simp: min_segment_ok_def)
  qed
qed

lemma write_meta_ok:
  assumes "io_ok env" "meta_file st \<noteq> None \<or> \<not> update"
  obtains mt where "polar_log_index_write_meta env st update = Inr (st\<lparr>meta := mt, meta_file := Some mt\<rparr>)"
    "meta_max_idx_table_id mt = meta_max_idx_table_id (meta st)" "min_segment_info mt = min_segment_info (meta st)"
    "meta_max_lsn mt = meta_max_lsn (meta st)"
    "log_index_get_meta env (st\<lparr>meta := mt, meta_file := Some mt\<rparr>) = (True, mt)"
proof -
  let ?mt = "(if meta_max_lsn (meta st) \<noteq> InvalidXLogRecPtr then (meta st)\<lparr>start_lsn := meta_max_lsn (meta st)\<rparr>
    else meta st)\<lparr>magic := LOG_INDEX_MAGIC, version := LOG_INDEX_VERSION, meta_crc := 0\<rparr>"
  show thesis
    using assms that[of "?mt\<lparr>meta_crc := crc_meta env ?mt\<rparr>"]
    by (auto simp: polar_log_index_write_meta_def log_index_get_meta_def io_ok_def Let_def)
qed

lemma open_next_table:
  assumes inv: "store_inv env st H" and io: "io_ok env"
  defines "M \<equiv> meta_max_idx_table_id (meta st)"
  obtains f where "log_index_open_table_file env st (Suc M) False = Inr (st\<lparr>tbl_files := (tbl_files st)(M div 64 := Some f)\<rparr>)"
    "file_ok (M div 64) f" "tbl_files st (M div 64) = Some f \<or> tbl_files st (M div 64) = None"
proof (cases "tbl_files st (M div 64)")
  case (Some f)
  then have "st\<lparr>tbl_files := (tbl_files st)(M div 64 := Some f)\<rparr> = st" by (simp add: fun_upd_idem)
  then show thesis using that[of f] Some io store_invD(6)[OF inv Some]
    by (simp add: log_index_open_table_file_def io_ok_def Let_def table_place)
next
  case None
  have "M mod 64 = 0"
  proof (rule ccontr)
    assume "M mod 64 \<noteq> 0"
    then obtain k where k: "M = Suc k" "k div 64 = M div 64" by (cases M) (auto simp: div_Suc)
    then have "stored env st (Suc k) (H ! k)"
      using store_invD(3,5)[OF inv] by (simp add: M_def min_segment_ok_def)
    then show False using None k by (simp add: stored_def table_place)
  qed
  then show thesis using that[of "[]"] None io
    by (simp add: log_index_open_table_file_def io_ok_def Let_def table_place file_ok_def)
qed

lemma write_table_ok:
  assumes inv: "store_inv env st H" and io: "io_ok env" and m: "tbl_state m = STATE_INACTIVE"
  defines "M \<equiv> meta_max_idx_table_id (meta st)"
  assumes len: "M < length H" and t: "idx_table_id (tbl_data m) = Suc M" "tbl_holds (tbl_data m) (H ! M)"
    and srt: "page_sorted (H ! M)"
  obtains st' t' where "log_index_write_table env st fa m = Some (Inr (True, st', m\<lparr>tbl_data := t', tbl_state := STATE_FLUSHED\<rparr>))"
    "store_inv env st' H" "meta_max_idx_table_id (meta st') = Suc M" "idx_table_id t' = Suc M" "tbl_holds t' (H ! M)"
    "seg_min_idx_table_id (min_segment_info (meta st')) =
      (if M = 0 then 1 else seg_min_idx_table_id (min_segment_info (meta st)))"
proof -
  obtain f where f: "log_index_open_table_file env st (Suc M) False = Inr (st\<lparr>tbl_files := (tbl_files st)(M div 64 := Some f)\<rparr>)"
    "file_ok (M div 64) f" "tbl_files st (M div 64) = Some f \<or> tbl_files st (M div 64) = None"
    using open_next_table[OF inv io] unfolding M_def[symmetric] by blast
  obtain n where wf: "tbl_wf page_hash n (tbl_data m)" and lg: "tbl_log (tbl_data m) = H ! M"
    using t(2) by (auto simp: tbl_holds_def)
  have "bloom_bytes zero_bloom \<noteq> []"
    by (simp add: zero_bloom_def bloom_bits_size_def LOG_INDEX_FILE_TBL_BLOOM_SIZE_def)
  then obtain b where b: "log_index_get_bloom_data env (tbl_data m) (Suc M) zero_bloom = Some (Inr b)"
    "bloom_covers env b (Suc M) (H ! M)"
    using get_bloom_data_ok[OF wf, of zero_bloom env "Suc M"] srt lg by auto
  let ?t = "(tbl_data m)\<lparr>tbl_min_lsn := bloom_min_lsn b, tbl_max_lsn := bloom_max_lsn b, tbl_crc := 0\<rparr>"
  define t' where "t' = ?t\<lparr>tbl_crc := crc_tbl env ?t\<rparr>"
  let ?st1 = "log_index_save_bloom (st\<lparr>tbl_files := (tbl_files st)(M div 64 := Some f)\<rparr>) (Suc M) b"
  let ?st2 = "?st1\<lparr>tbl_files := (tbl_files st)(M div 64 := Some (file_write f (M mod 64) t')),
    meta := meta_add_table (meta st) (Suc M) (bloom_max_lsn b)\<rparr>"
  have bs: "\<forall>e\<in>set (H ! M). bloom_min_lsn b \<le> li_lsn e \<and> li_lsn e \<le> bloom_max_lsn b"
    using b(2) by (auto simp: bloom_covers_def)
  have t': "idx_table_id t' = Suc M" "tbl_holds t' (H ! M)" "tbl_crc t' = crc_tbl env (t'\<lparr>tbl_crc := 0\<rparr>)"
    "tbl_max_lsn t' = bloom_max_lsn b"
    using t tbl_holds_bounds[OF t(2) bs, of "crc_tbl env ?t"] by (simp_all add: t'_def)
  have st1: "meta ?st1 = meta st" "meta_file ?st1 = meta_file st" "table_cache ?st1 = table_cache st"
    "tbl_files ?st1 = (tbl_files st)(M div 64 := Some f)"
    "bloom_pages ?st1 = bloom_pages (log_index_save_bloom st (Suc M) b)"
    by (simp_all add: log_index_save_bloom_def Let_def)
  note mi = store_invD[OF inv, folded M_def]
  have "\<forall>e\<in>set (H ! M). li_lsn e \<le> bloom_max_lsn b" using bs by blast
  note add = meta_add_table_ok[OF mi(3) M_def[symmetric, THEN meta_eq_to_obj_eq] this]
  obtain mt where w: "polar_log_index_write_meta env ?st2 True = Inr (?st2\<lparr>meta := mt, meta_file := Some mt\<rparr>)"
    "meta_max_idx_table_id mt = meta_max_idx_table_id (meta ?st2)" "min_segment_info mt = min_segment_info (meta ?st2)"
    "meta_max_lsn mt = meta_max_lsn (meta ?st2)"
    using write_meta_ok[OF io, of ?st2 True] mi(2) st1(2) by auto
  let ?st3 = "?st2\<lparr>meta := mt, meta_file := Some mt\<rparr>"
  have mt: "meta_max_idx_table_id mt = Suc M" "meta_max_lsn mt = max (meta_max_lsn (meta st)) (bloom_max_lsn b)"
    "min_segment_ok (min_segment_info mt) H (Suc M)"
    "seg_min_idx_table_id (min_segment_info mt) = (if M = 0 then 1 else seg_min_idx_table_id (min_segment_info (meta st)))"
    using w(2-4) add by simp_all
  have st3: "tbl_files ?st3 = (tbl_files st)(M div 64 := Some (file_write f (M mod 64) t'))"
    "bloom_pages ?st3 = bloom_pages (log_index_save_bloom st (Suc M) b)" "table_cache ?st3 = table_cache st"
    "meta ?st3 = mt" "meta_file ?st3 = Some mt"
    using st1 by simp_all
  have run: "log_index_write_table env st fa m = Some (Inr (True, ?st3, m\<lparr>tbl_data := t', tbl_state := STATE_FLUSHED\<rparr>))"
  proof -
    let ?st = "?st1\<lparr>tbl_files := (tbl_files st)(M div 64 := Some (file_write f (M mod 64) t'))\<rparr>"
    have save: "log_index_save_table env ?st1 (tbl_data m) b = (t', Inr ?st)"
      using st1(4) t(1) io by (simp add: log_index_save_table_def io_ok_def table_place t'_def Let_def)
    have "log_index_write_table_data env st fa m = Some (Inr (m\<lparr>tbl_data := t'\<rparr>, Inr ?st))"
      unfolding log_index_write_table_data_def Let_def t(1) f(1) b(1) sum.case option.case save
      using m by simp
    then show ?thesis
      using t(1) m w(1) t'(4) st1(1) by (simp add: log_index_write_table_def M_def[symmetric])
  qed
  have "store_inv env ?st3 H"
  proof (rule store_invI, unfold st3 mt(1))
    show "Suc M \<le> length H" using len by simp
    show "min_segment_ok (min_segment_info mt) H (Suc M)" by (rule mt(3))
    show "li_lsn e \<le> meta_max_lsn mt" if "k < Suc M" "e \<in> set (H ! k)" for k e
      using that mi(4)[of k e] bs mt(2) by (cases "k = M") (auto simp: le_max_iff_disj)
    show "stored env ?st3 (Suc k) (H ! k)" if "seg_min_idx_table_id (min_segment_info mt) \<le> Suc k" "k < Suc M" for k
    proof (cases "k = M")
      case True
      have "log_index_get_tbl_bloom ?st3 (Suc M) = b"
        using save_bloom_get(1)[of st M b] st3(2) by (simp add: log_index_get_tbl_bloom_def)
      then show ?thesis
        using True b(2) t' st3(1) by (simp add: stored_def table_place file_write_nth Let_def)
    next
      case False
      then show ?thesis using that mi(5)[of k] mt(4) stored_keep[OF _ _ st3(1) f(3) st3(2)] by (auto split: if_splits)
    qed
    show "file_ok segno g" if "((tbl_files st)(M div 64 := Some (file_write f (M mod 64) t'))) segno = Some g" for segno g
      using that mi(6)[of segno] file_write_ok[OF f(2), of "M mod 64" t'] t'(1) by (auto split: if_splits)
    show "cache_ok (table_cache st) H (Suc M)" using mi(7) by (auto simp: cache_ok_def)
  qed simp
  then show thesis using that[OF run] t' mt st3 by simp
qed

section \<open>Reading a table\<close>

lemma cache_max_id_spec:
  assumes "j < length ts" "lo \<le> idx_table_id (ts ! j)" "idx_table_id (ts ! j) \<le> hi"
  obtains i where "cache_max_id lo hi (rev ts) = idx_table_id (ts ! i)" "j \<le> i" "i < length ts"
    "lo \<le> idx_table_id (ts ! i)" "idx_table_id (ts ! i) \<le> hi"
proof -
  have "\<exists>i. cache_max_id lo hi (rev ts) = idx_table_id (ts ! i) \<and> j \<le> i \<and> i < length ts
      \<and> lo \<le> idx_table_id (ts ! i) \<and> idx_table_id (ts ! i) \<le> hi"
    using assms
  proof (induction ts rule: rev_induct)
    case (snoc t ts)
    show ?case
    proof (cases "lo \<le> idx_table_id t \<and> idx_table_id t \<le> hi")
      case True
      then show ?thesis using snoc.prems(1) by (intro exI[of _ "length ts"]) auto
    next
      case False
      then have j: "j < length ts" using snoc.prems by (cases "j = length ts") auto
      then obtain i where "cache_max_id lo hi (rev ts) = idx_table_id (ts ! i)" "j \<le> i" "i < length ts"
        "lo \<le> idx_table_id (ts ! i)" "idx_table_id (ts ! i) \<le> hi"
        using snoc.IH snoc.prems(2,3) by (auto simp: nth_append)
      then show ?thesis using False by (intro exI[of _ i]) (auto simp: nth_append)
    qed
  qed simp
  then show thesis using that by blast
qed

lemma read_seg_file_ok:
  assumes inv: "store_inv env st H" and io: "io_ok env"
  defines "M \<equiv> meta_max_idx_table_id (meta st)" and "sg \<equiv> min_segment_info (meta st)"
  assumes k: "seg_min_idx_table_id sg \<le> Suc k" "k < M"
  obtains c where "log_index_read_seg_file env st (k div 64) = Some (Inr c)" "cache_ok c H M" "cache_valid c"
    "cache_min_idx_table_id c \<le> Suc k" "Suc k \<le> cache_max_idx_table_id c"
proof -
  let ?lo = "Suc (64 * (k div 64))"
  note mi = store_invD[OF inv, folded M_def sg_def]
  have lo: "seg_min_idx_table_id sg \<le> ?lo"
  proof -
    have "64 * segment_no sg \<le> k" using mi(3) k by (auto simp: min_segment_ok_def)
    then have "segment_no sg \<le> k div 64" by simp
    then show ?thesis using mi(3) k by (auto simp: min_segment_ok_def)
  qed
  obtain f where f: "tbl_files st (k div 64) = Some f" "k mod 64 < length f" "idx_table_id (f ! (k mod 64)) = Suc k"
    using mi(5)[OF k] by (auto simp: stored_def table_place Let_def split: option.splits)
  note fo = mi(6)[OF f(1)]
  have ids: "idx_table_id (f ! j) = Suc (64 * (k div 64) + j)"
    "tbl_holds (f ! j) (H ! (64 * (k div 64) + j))" "j < length f" if j: "64 * (k div 64) + j < M" "j < 64" for j
  proof -
    have "stored env st (Suc (64 * (k div 64) + j)) (H ! (64 * (k div 64) + j))"
      by (rule mi(5)) (use lo j in auto)
    moreover have "(64 * (k div 64) + j) div 64 = k div 64" "(64 * (k div 64) + j) mod 64 = j" using j(2) by auto
    ultimately show "idx_table_id (f ! j) = Suc (64 * (k div 64) + j)" "tbl_holds (f ! j) (H ! (64 * (k div 64) + j))"
      "j < length f" using f(1) by (auto simp: stored_def table_place Let_def)
  qed
  have kq: "64 * (k div 64) + k mod 64 = k" by simp
  have f_ne: "f \<noteq> []" using f(2) by auto
  have le: "?lo \<le> M" using k(2) kq by linarith
  then have hd0: "idx_table_id (hd f) = ?lo" using ids(1)[of 0] f_ne by (simp add: hd_conv_nth)
  have len: "length f \<le> 64" using fo by (simp add: file_ok_def)
  obtain i where i: "cache_max_id ?lo M (rev f) = idx_table_id (f ! i)" "k mod 64 \<le> i" "i < length f"
    "?lo \<le> idx_table_id (f ! i)" "idx_table_id (f ! i) \<le> M"
  proof (rule cache_max_id_spec[of "k mod 64" f ?lo M])
    show "?lo \<le> idx_table_id (f ! (k mod 64))" using f(3) kq by linarith
  qed (use f(2,3) k(2) in auto)
  have idi: "idx_table_id (f ! i) = Suc (64 * (k div 64) + i)" using fo i(3,4) by (auto simp: file_ok_def)
  let ?c = "\<lparr>cache_valid = True, cache_min_idx_table_id = ?lo,
    cache_max_idx_table_id = Suc (64 * (k div 64) + i), cache_data = f\<rparr>"
  have full: "length f = 64" if "64 \<le> M - k div 64 * 64"
    using ids(3)[of 63] that len by linarith
  have run: "log_index_read_seg_file env st (k div 64) = Some (Inr ?c)"
    using io f(1) f_ne hd0 len full i(1) idi le
    by (auto simp: log_index_read_seg_file_def read_segment_tables_def io_ok_def Let_def M_def[symmetric]
        LOG_INDEX_TABLE_NUM_PER_FILE_def mult.commute split: option.splits)
  have "cache_ok ?c H M"
    unfolding cache_ok_def Let_def
  proof (intro impI conjI allI)
    fix j assume "cache_min_idx_table_id ?c \<le> j \<and> j \<le> cache_max_idx_table_id ?c"
    then obtain d where d: "j = Suc (64 * (k div 64) + d)" "d \<le> i" by (auto simp: nat_le_iff_add)
    then show "idx_table_id (cache_data ?c ! (j - cache_min_idx_table_id ?c)) = j"
      "tbl_holds (cache_data ?c ! (j - cache_min_idx_table_id ?c)) (H ! (j - 1))"
      using ids[of d] i(3,5) idi len by simp_all
  qed (use i(5) idi in auto)
  then show thesis using that[OF run] i(2) kq by simp
qed

end
