(* ===== verification/Log_Truncate.thy ===== *)
theory Log_Truncate
  imports Log_Store_Inv
begin

text \<open>
  Truncation of the logindex on storage: \<open>log_index_truncate\<close> ends, keeps the storage invariant and
  only drops tables whose LSNs are all below the given one.
\<close>

section \<open>The order of the LSNs\<close>

text \<open>
  LSNs are inserted in the order of the log, those of one page strictly increasing. Only the last
  table may be empty. No LSN is the largest 64 bit number.
\<close>

definition hist_ok :: "log_index_lsn_t list list \<Rightarrow> bool" where
  "hist_ok H \<longleftrightarrow> sorted (map li_lsn (concat H)) \<and> page_sorted (concat H) \<and> (\<forall>L\<in>set H. no_prev L)
     \<and> (\<forall>L\<in>set (butlast H). L \<noteq> []) \<and> (\<forall>e\<in>set (concat H). li_lsn e < UINT64_MAX)"

lemma concat_split: "k < length H \<Longrightarrow> concat H = concat (take k H) @ H ! k @ concat (drop (Suc k) H)"
  by (metis concat.simps(2) concat_append id_take_nth_drop)

lemma hist_le:
  assumes "hist_ok H" "j < k" "k < length H" "e \<in> set (H ! j)" "f \<in> set (H ! k)"
  shows "li_lsn e \<le> li_lsn f"
proof -
  have "e \<in> set (concat (take k H))"
    using assms(2-4) by (auto simp: set_conv_nth[of "take k H"] intro!: bexI[of _ "H ! j"])
  moreover have "sorted (map li_lsn (concat (take k H) @ H ! k @ concat (drop (Suc k) H)))"
    using assms(1) concat_split[OF assms(3)] by (simp add: hist_ok_def)
  ultimately show ?thesis using assms(5) by (auto simp: sorted_append)
qed

lemma hist_table:
  assumes "hist_ok H" "k < length H"
  shows "page_sorted (H ! k)" "no_prev (H ! k)" "Suc k < length H \<Longrightarrow> H ! k \<noteq> []"
proof -
  show "page_sorted (H ! k)"
    using assms concat_split[OF assms(2)] by (auto simp: hist_ok_def page_sorted_def page_log_def sorted_wrt_append)
  show "no_prev (H ! k)" using assms by (simp add: hist_ok_def)
  assume "Suc k < length H"
  then have "H ! k = butlast H ! k" "k < length (butlast H)" by (simp_all add: nth_butlast)
  then have "H ! k \<in> set (butlast H)" by simp
  then show "H ! k \<noteq> []" using assms(1) by (auto simp: hist_ok_def)
qed

section \<open>One segment\<close>

lemma read_table_data_ok:
  assumes "stored env st (Suc k) es" "io_ok env"
  obtains t where "log_index_read_table_data env st (Suc k) = Inr t" "idx_table_id t = Suc k" "tbl_holds t es"
proof -
  obtain f where f: "tbl_files st (k div 64) = Some f" "k mod 64 < length f" "idx_table_id (f ! (k mod 64)) = Suc k"
    "tbl_crc (f ! (k mod 64)) = crc_tbl env ((f ! (k mod 64))\<lparr>tbl_crc := 0\<rparr>)" "tbl_holds (f ! (k mod 64)) es"
    using assms(1) by (auto simp: stored_def table_place Let_def split: option.splits)
  let ?t = "f ! (k mod 64)"
  have "log_index_read_table_data env st (Suc k) = Inr (?t\<lparr>tbl_crc := tbl_crc ?t\<rparr>)"
    using assms(2) f(1,2,4) by (simp add: log_index_read_table_data_def log_index_open_table_file_def io_ok_def
        table_place Let_def)
  then show thesis using that f(3,5) by simp
qed

text \<open>The last table of the next segment and its largest LSN.\<close>

lemma next_segment_max:
  assumes inv: "store_inv env st H" and io: "io_ok env" and H: "hist_ok H"
  defines "M \<equiv> meta_max_idx_table_id (meta st)"
  assumes M: "M < length H" "64 * s < M" and s: "segment_no (min_segment_info (meta st)) < s"
  shows "\<exists>l. (if LOG_INDEX_FILE_TABLE_SEGMENT_NO M = s then Inr (M, meta_max_lsn (meta st))
      else case log_index_read_table_data env st ((s + 1) * LOG_INDEX_TABLE_NUM_PER_FILE) of
        Inl e \<Rightarrow> Inl PANIC | Inr t \<Rightarrow> Inr ((s + 1) * LOG_INDEX_TABLE_NUM_PER_FILE, tbl_max_lsn t))
      = Inr (min M (64 * Suc s), l)
    \<and> (\<forall>k. 64 * s \<le> k \<and> k < min M (64 * Suc s) \<longrightarrow> (\<forall>e\<in>set (H ! k). li_lsn e \<le> l))"
proof -
  note mi = store_invD[OF inv, folded M_def]
  obtain m where m: "M = Suc m" "64 * s \<le> m" using M(2) by (cases M) auto
  show ?thesis
  proof (cases "m div 64 = s")
    case True
    then have "m < 64 * Suc s" by auto
    then show ?thesis using True m mi(4) by (auto simp: table_place)
  next
    case False
    have "64 * Suc s \<le> m"
    proof -
      have "s \<le> m div 64" using m(2) by (metis div_le_mono nonzero_mult_div_cancel_left zero_neq_numeral)
      with False have "Suc s \<le> m div 64" by simp
      then show ?thesis by (metis mult_le_mono2 order_trans times_div_less_eq_dividend)
    qed
    then obtain k where k: "64 * Suc s = Suc k" "k < m" by (cases "64 * Suc s") auto
    have "stored env st (Suc k) (H ! k)"
      using mi(3) s k m by (intro mi(5)) (auto simp: min_segment_ok_def)
    then obtain t where t: "log_index_read_table_data env st (Suc k) = Inr t" "tbl_holds t (H ! k)"
      using read_table_data_ok[OF _ io] by blast
    obtain f where f: "f \<in> set (H ! k)" "li_lsn f \<le> tbl_max_lsn t"
      using hist_table(3)[OF H, of k] k m M(1) t(2) by (cases "H ! k") (auto simp: tbl_holds_def)
    have "li_lsn e \<le> tbl_max_lsn t" if "j < Suc k" "e \<in> set (H ! j)" for j e
      using that hist_le[OF H, of j k e f] f k m M(1) t(2) by (cases "j = k") (auto simp: tbl_holds_def intro: order_trans)
    then show ?thesis
      using False t(1) k m by (auto simp: table_place LOG_INDEX_TABLE_NUM_PER_FILE_def mult.commute min_def)
  qed
qed

lemma update_min_segment_ok:
  assumes inv: "store_inv env st H" and io: "io_ok env" and H: "hist_ok H"
  defines "M \<equiv> meta_max_idx_table_id (meta st)" and "sg \<equiv> min_segment_info (meta st)"
  assumes M: "M < length H" "64 * Suc (segment_no sg) < M"
  obtains mt where "log_index_update_min_segment env st = Inr (st\<lparr>meta := mt, meta_file := Some mt\<rparr>)"
    "meta_max_idx_table_id mt = M" "segment_no (min_segment_info mt) = Suc (segment_no sg)"
    "store_inv env (st\<lparr>meta := mt, meta_file := Some mt\<rparr>) H"
proof -
  note mi = store_invD[OF inv, folded M_def sg_def]
  define s where "s = Suc (segment_no sg)"
  obtain l where r: "(if LOG_INDEX_FILE_TABLE_SEGMENT_NO M = s then Inr (M, meta_max_lsn (meta st))
      else case log_index_read_table_data env st ((s + 1) * LOG_INDEX_TABLE_NUM_PER_FILE) of
        Inl e \<Rightarrow> Inl PANIC | Inr t \<Rightarrow> Inr ((s + 1) * LOG_INDEX_TABLE_NUM_PER_FILE, tbl_max_lsn t))
      = Inr (min M (64 * Suc s), l)"
    "\<forall>k. 64 * s \<le> k \<and> k < min M (64 * Suc s) \<longrightarrow> (\<forall>e\<in>set (H ! k). li_lsn e \<le> l)"
    using next_segment_max[OF inv io H, folded M_def sg_def, of s] M s_def by auto
  define sg' where "sg' = sg\<lparr>segment_no := s, seg_min_idx_table_id := Suc (64 * s),
    seg_max_idx_table_id := min M (64 * Suc s), seg_max_lsn := l\<rparr>"
  let ?st = "st\<lparr>meta := (meta st)\<lparr>min_segment_info := sg'\<rparr>\<rparr>"
  have upd: "log_index_update_min_segment env st = polar_log_index_write_meta env ?st True"
    using r(1) by (auto simp: log_index_update_min_segment_def Let_def M_def[symmetric] sg_def[symmetric] s_def[symmetric]
        sg'_def LOG_INDEX_TABLE_NUM_PER_FILE_def mult.commute split: if_splits sum.splits)
  obtain mt where w: "polar_log_index_write_meta env ?st True = Inr (?st\<lparr>meta := mt, meta_file := Some mt\<rparr>)"
    "meta_max_idx_table_id mt = M" "min_segment_info mt = sg'" "meta_max_lsn mt = meta_max_lsn (meta st)"
    using write_meta_ok[OF io, of ?st True] mi(2) M_def by auto
  have st: "?st\<lparr>meta := mt, meta_file := Some mt\<rparr> = st\<lparr>meta := mt, meta_file := Some mt\<rparr>" by simp
  have mxl: "li_lsn e \<le> l" if "Suc (64 * s) \<le> k" "k \<le> min M (64 * Suc s)" "e \<in> set (H ! (k - 1))" for k e
    using r(2) that by (cases k) auto
  have "store_inv env (st\<lparr>meta := mt, meta_file := Some mt\<rparr>) H"
  proof (rule store_invI, simp_all add: w(2-4))
    show "min_segment_ok sg' H M"
      using mxl M(2)[folded s_def] by (auto simp: min_segment_ok_def sg'_def)
    show "li_lsn e \<le> meta_max_lsn (meta st)" if "k < M" "e \<in> set (H ! k)" for k e using mi(4) that by blast
    show "stored env (st\<lparr>meta := mt, meta_file := Some mt\<rparr>) (Suc k) (H ! k)"
      if "seg_min_idx_table_id sg' \<le> Suc k" "k < M" for k
      using mi(3) mi(5)[of k] that M(2) by (auto simp: stored_def log_index_get_tbl_bloom_def sg'_def s_def min_segment_ok_def)
    show "file_ok segno f" if "tbl_files st segno = Some f" for segno f using mi(6) that by blast
  qed (use mi in auto)
  then show thesis using that[of mt] upd w st by (simp add: sg'_def s_def)
qed

text \<open>Dropping the file of a segment before the first one.\<close>

lemma truncate_tbl_ok:
  assumes inv: "store_inv env st H" and M: "0 < meta_max_idx_table_id (meta st)"
    and s: "s < segment_no (min_segment_info (meta st))"
  shows "store_inv env (log_index_truncate_tbl env st s mx) H" "meta (log_index_truncate_tbl env st s mx) = meta st"
proof -
  let ?M = "meta_max_idx_table_id (meta st)" and ?sg = "min_segment_info (meta st)"
  note mi = store_invD[OF inv]
  define st' where "st' = log_index_truncate_tbl env st s mx"
  define new where "new = max (LOG_INDEX_FILE_TABLE_SEGMENT_NO ?M) (max_allocated_seg_no st) + 1"
  obtain m where m: "?M = Suc m" using M by (cases ?M) auto
  have sm: "segment_no ?sg \<le> m div 64" using mi(3) m by (auto simp: min_segment_ok_def less_Suc_eq_le less_eq_div_iff_mult_less_eq)
  have st': "meta st' = meta st" "meta_file st' = meta_file st" "table_cache st' = table_cache st" "bloom_pages st' = bloom_pages st"
    "tbl_files st' = (tbl_files st)(new := tbl_files st s, s := None) \<or> tbl_files st' = (tbl_files st)(s := None)"
    by (auto simp: st'_def new_def log_index_truncate_tbl_def log_index_rename_segment_file_def Let_def split: prod.splits if_splits)
  have new: "m div 64 < new" by (simp add: new_def m table_place)
  have keep: "tbl_files st' (k div 64) = tbl_files st (k div 64)" if "seg_min_idx_table_id ?sg \<le> Suc k" "k < ?M" for k
  proof -
    have "64 * segment_no ?sg \<le> k" using that(1) mi(3) m by (simp add: min_segment_ok_def)
    then have "segment_no ?sg \<le> k div 64" by (simp add: less_eq_div_iff_mult_less_eq)
    moreover have "k div 64 \<le> m div 64" using that(2) m by (intro div_le_mono) simp
    ultimately show ?thesis using s new st'(5) by auto
  qed
  show "store_inv env (log_index_truncate_tbl env st s mx) H" unfolding st'_def[symmetric]
  proof (rule store_invI, unfold st')
    show "stored env st' (Suc k) (H ! k)" if "seg_min_idx_table_id ?sg \<le> Suc k" "k < ?M" for k
      using mi(5)[OF that] keep[OF that] st'(4) by (simp add: stored_def log_index_get_tbl_bloom_def table_place)
    show "file_ok segno f" if "tbl_files st' segno = Some f" for segno f
    proof (cases "segno = new \<and> tbl_files st s = Some f")
      case True
      have "s < new" using s sm new by simp
      then have "64 * Suc s \<le> 64 * new" by (simp add: Suc_leI)
      then show ?thesis using mi(6)[of s f] True by (fastforce simp: file_ok_def)
    next
      case False
      then show ?thesis using mi(6)[of segno f] that st'(5) by (auto split: if_splits)
    qed
  qed (use mi in auto)
  show "meta (log_index_truncate_tbl env st s mx) = meta st" using st'(1) by (simp add: st'_def)
qed

section \<open>The loop\<close>

text \<open>
  What truncation up to \<open>l\<close> has done to the storage: the tables it dropped only have smaller LSNs.
\<close>

definition truncated :: "io_env \<Rightarrow> log_index_lsn_t list list \<Rightarrow> XLogRecPtr \<Rightarrow> log_store \<Rightarrow> log_store \<Rightarrow> bool" where
  "truncated env H l st st' \<longleftrightarrow> store_inv env st' H
     \<and> meta_max_idx_table_id (meta st') = meta_max_idx_table_id (meta st)
     \<and> seg_min_idx_table_id (min_segment_info (meta st)) \<le> seg_min_idx_table_id (min_segment_info (meta st'))
     \<and> (\<forall>k. seg_min_idx_table_id (min_segment_info (meta st)) \<le> Suc k
          \<and> Suc k < seg_min_idx_table_id (min_segment_info (meta st')) \<longrightarrow> (\<forall>e\<in>set (H ! k). li_lsn e < l))"

lemma truncate_loop_turn:
  assumes inv: "store_inv env st H" and io: "io_ok env" and H: "hist_ok H"
  defines "M \<equiv> meta_max_idx_table_id (meta st)" and "sg \<equiv> min_segment_info (meta st)"
  assumes M: "M < length H"
  shows "truncate_loop env st l a b = Some (Inr (st, a, b)) \<or>
    (\<exists>st' a'. truncate_loop env st l a b = truncate_loop env st' l a' (seg_max_idx_table_id sg)
       \<and> truncated env H l st st' \<and> segment_no (min_segment_info (meta st')) = Suc (segment_no sg)
       \<and> Suc (seg_max_idx_table_id sg) = seg_min_idx_table_id (min_segment_info (meta st')))"
proof -
  note mi = store_invD[OF inv, folded M_def sg_def]
  have asserts: "segment_no sg \<le> LOG_INDEX_FILE_TABLE_SEGMENT_NO M \<and> seg_max_idx_table_id sg \<le> M" if "0 < M"
    using mi(3) that by (cases M) (auto simp: min_segment_ok_def table_place less_Suc_eq_le less_eq_div_iff_mult_less_eq)
  have seg0: "seg_max_lsn sg = 0" if "M = 0" using mi(3) that by (simp add: min_segment_ok_def)
  show ?thesis
  proof (cases "meta_crc (meta st) = 0 \<or> XLogRecPtrIsInvalid (meta_max_lsn (meta st)) \<or> XLogRecPtrIsInvalid (seg_max_lsn sg)
      \<or> seg_max_lsn sg \<ge> l \<or> LOG_INDEX_FILE_TABLE_SEGMENT_NO M = segment_no sg")
    case True
    then have "truncate_loop env st l a b = Some (Inr (st, a, b))"
      using asserts seg0 by (subst truncate_loop.simps) (auto simp: Let_def M_def[symmetric] sg_def[symmetric])
    then show ?thesis by blast
  next
    case False
    then obtain m where m: "M = Suc m" using seg0 by (cases M) auto
    have "segment_no sg < m div 64" using asserts False m by (auto simp: table_place)
    then have "Suc (segment_no sg) \<le> m div 64" by simp
    then have s: "64 * Suc (segment_no sg) < M" using m by (simp add: less_eq_div_iff_mult_less_eq less_Suc_eq_le)
    obtain mt where u: "log_index_update_min_segment env st = Inr (st\<lparr>meta := mt, meta_file := Some mt\<rparr>)"
      "meta_max_idx_table_id mt = M" "segment_no (min_segment_info mt) = Suc (segment_no sg)"
      "store_inv env (st\<lparr>meta := mt, meta_file := Some mt\<rparr>) H"
      using update_min_segment_ok[OF inv io H, folded M_def sg_def, OF M s] by blast
    let ?st = "st\<lparr>meta := mt, meta_file := Some mt\<rparr>"
    define st' where "st' = log_index_truncate_tbl env ?st (segment_no sg)
      (max (max_allocated_seg_no ?st) (LOG_INDEX_FILE_TABLE_SEGMENT_NO M))"
    have st': "store_inv env st' H" "meta st' = mt"
      using truncate_tbl_ok[OF u(4), of "segment_no sg"] u(2,3) m by (simp_all add: st'_def)
    have "truncate_loop env st l a b = truncate_loop env st' l (segment_no sg) (seg_max_idx_table_id sg)"
      using asserts False u(1) m
      by (subst truncate_loop.simps) (simp add: Let_def M_def[symmetric] sg_def[symmetric] st'_def)
    moreover have mn: "seg_min_idx_table_id (min_segment_info mt) = Suc (64 * Suc (segment_no sg))"
      using store_invD(3)[OF st'(1)] st'(2) u(2,3) m by (simp add: min_segment_ok_def)
    moreover have "seg_max_idx_table_id sg = 64 * Suc (segment_no sg)" "seg_min_idx_table_id sg = Suc (64 * segment_no sg)"
      and old: "\<forall>k. seg_min_idx_table_id sg \<le> k \<and> k \<le> seg_max_idx_table_id sg \<longrightarrow> (\<forall>e\<in>set (H ! (k - 1)). li_lsn e \<le> seg_max_lsn sg)"
      using mi(3) s m by (auto simp: min_segment_ok_def)
    moreover have "li_lsn e < l" if "seg_min_idx_table_id sg \<le> Suc k" "Suc k \<le> seg_max_idx_table_id sg" "e \<in> set (H ! k)" for k e
      using old[rule_format, of "Suc k" e] that False by auto
    ultimately show ?thesis
      using st' u(2,3) by (intro disjI2 exI[of _ st'] exI[of _ "segment_no sg"])
        (auto simp: truncated_def M_def[symmetric] sg_def[symmetric])
  qed
qed

lemma truncated_refl: "store_inv env st H \<Longrightarrow> truncated env H l st st"
  unfolding truncated_def by (metis leD le_refl)

lemma truncated_trans: "truncated env H l a b \<Longrightarrow> truncated env H l b c \<Longrightarrow> truncated env H l a c"
  unfolding truncated_def by (metis (no_types, lifting) le_trans not_less)

lemma truncate_loop_ok:
  assumes io: "io_ok env" and H: "hist_ok H"
  shows "store_inv env st H \<Longrightarrow> meta_max_idx_table_id (meta st) < length H \<Longrightarrow>
    b = 0 \<or> Suc b = seg_min_idx_table_id (min_segment_info (meta st)) \<Longrightarrow>
    \<exists>st' a' b'. truncate_loop env st l a b = Some (Inr (st', a', b')) \<and> truncated env H l st st'
      \<and> (b' = 0 \<or> Suc b' = seg_min_idx_table_id (min_segment_info (meta st')))"
proof (induction "meta_max_idx_table_id (meta st) - segment_no (min_segment_info (meta st))" arbitrary: st a b rule: less_induct)
  case less
  let ?M = "meta_max_idx_table_id (meta st)" and ?sg = "min_segment_info (meta st)"
  consider "truncate_loop env st l a b = Some (Inr (st, a, b))"
    | (more) st1 a1 where "truncate_loop env st l a b = truncate_loop env st1 l a1 (seg_max_idx_table_id ?sg)"
      "truncated env H l st st1" "segment_no (min_segment_info (meta st1)) = Suc (segment_no ?sg)"
      "Suc (seg_max_idx_table_id ?sg) = seg_min_idx_table_id (min_segment_info (meta st1))"
    using truncate_loop_turn[OF less.prems(1) io H less.prems(2)] by blast
  then show ?case
  proof cases
    case 1
    then show ?thesis using less.prems by (auto simp: truncated_def)
  next
    case more
    have inv: "store_inv env st1 H" "meta_max_idx_table_id (meta st1) = ?M" using more(2) by (simp_all add: truncated_def)
    have "Suc (segment_no ?sg) < ?M"
      using store_invD(3)[OF inv(1)] inv(2) more(3) by (auto simp: min_segment_ok_def split: if_splits)
    then have "\<exists>st' a' b'. truncate_loop env st1 l a1 (seg_max_idx_table_id ?sg) = Some (Inr (st', a', b'))
        \<and> truncated env H l st1 st' \<and> (b' = 0 \<or> Suc b' = seg_min_idx_table_id (min_segment_info (meta st')))"
      using inv less.prems(2) more(3,4) by (intro less.hyps) auto
    then show ?thesis using more(1) truncated_trans[OF more(2)] by metis
  qed
qed

lemma truncate_bloom_ok:
  assumes inv: "store_inv env st H" and b: "b = 0 \<or> Suc b = seg_min_idx_table_id (min_segment_info (meta st))"
  shows "store_inv env (log_index_truncate_bloom st b) H" "meta (log_index_truncate_bloom st b) = meta st"
proof -
  show "meta (log_index_truncate_bloom st b) = meta st" by (simp add: log_index_truncate_bloom_def Let_def)
  note mi = store_invD[OF inv]
  show "store_inv env (log_index_truncate_bloom st b) H"
  proof (cases b)
    case 0
    then show ?thesis using inv by (simp add: log_index_truncate_bloom_def)
  next
    case (Suc c)
    define st' where "st' = log_index_truncate_bloom st b"
    have st': "meta st' = meta st" "meta_file st' = meta_file st" "table_cache st' = table_cache st" "tbl_files st' = tbl_files st"
      "bloom_pages st' = (\<lambda>p. if p div SLRU_PAGES_PER_SEGMENT < c div 2 div SLRU_PAGES_PER_SEGMENT
         then (\<lambda>_. zero_bloom) else bloom_pages st p)"
      by (simp_all add: st'_def log_index_truncate_bloom_def Suc table_place Let_def)
    show ?thesis unfolding st'_def[symmetric]
    proof (rule store_invI, unfold st'(1-4))
      show "stored env st' (Suc k) (H ! k)"
        if k: "seg_min_idx_table_id (min_segment_info (meta st)) \<le> Suc k" "k < meta_max_idx_table_id (meta st)" for k
      proof -
        have "c div 2 div SLRU_PAGES_PER_SEGMENT \<le> k div 2 div SLRU_PAGES_PER_SEGMENT"
          using b k(1) Suc by (intro div_le_mono) auto
        then have "log_index_get_tbl_bloom st' (Suc k) = log_index_get_tbl_bloom st (Suc k)"
          by (simp add: log_index_get_tbl_bloom_def table_place st'(5))
        then show ?thesis using mi(5)[OF k] st'(4) by (simp add: stored_def)
      qed
    qed (use mi in auto)
  qed
qed

section \<open>Results\<close>

lemma truncate_returns:
  assumes "store_inv env st H" "io_ok env" "hist_ok H" "meta_max_idx_table_id (meta st) < length H"
  obtains st' where "polar_logindex_truncate env st l = Some (Inr st')" "truncated env H l st st'"
proof (cases "XLogRecPtrIsInvalid l")
  case True
  then show thesis using that[of st] truncated_refl[OF assms(1)] by (simp add: polar_logindex_truncate_def)
next
  case False
  obtain st' a' b' where t: "truncate_loop env st l 0 0 = Some (Inr (st', a', b'))" "truncated env H l st st'"
    "b' = 0 \<or> Suc b' = seg_min_idx_table_id (min_segment_info (meta st'))"
    using truncate_loop_ok[OF assms(2,3,1,4), of 0 l 0] by auto
  have "store_inv env st' H" using t(2) by (simp add: truncated_def)
  note b = truncate_bloom_ok[OF this t(3)]
  show thesis
    using that False t(1,2) b by (auto simp: polar_logindex_truncate_def log_index_truncate_def truncated_def)
qed

text \<open>C11. Truncating the logindex on storage up to an LSN always ends without an error when the
  operating system reports none. Afterwards the storage invariant still holds, so that every table
  from the first kept one on can be read back with its contents and its filter; no table was added
  or lost at the end; and all LSNs of the tables that were dropped are smaller than the given one.\<close>

theorem truncate_safe:
  assumes "store_inv env st H" "io_ok env" "hist_ok H" "meta_max_idx_table_id (meta st) < length H"
  shows "\<exists>st'. polar_logindex_truncate env st l = Some (Inr st') \<and> store_inv env st' H
    \<and> meta_max_idx_table_id (meta st') = meta_max_idx_table_id (meta st)
    \<and> seg_min_idx_table_id (min_segment_info (meta st)) \<le> seg_min_idx_table_id (min_segment_info (meta st'))
    \<and> (\<forall>k. seg_min_idx_table_id (min_segment_info (meta st)) \<le> Suc k
         \<and> Suc k < seg_min_idx_table_id (min_segment_info (meta st')) \<longrightarrow> (\<forall>e\<in>set (H ! k). li_lsn e < l))"
proof -
  obtain st' where "polar_logindex_truncate env st l = Some (Inr st')" "truncated env H l st st'"
    by (rule truncate_returns[OF assms])
  then show ?thesis by (auto simp: truncated_def)
qed

end
