(* ===== verification/Log_Snapshot_Inv.thy ===== *)
theory Log_Snapshot_Inv
  imports Log_Snapshot Log_Truncate
begin

text \<open>
  The invariant of a logindex snapshot on the primary. The history \<open>H\<close> lists the contents of all tables;
  the ring in memory has the tables that are not saved yet, and may still have saved ones. Inserting
  an LSN, waiting for a free table, flushing in the background and reading a table keep the
  invariant, and an insertion extends the history by one entry.
\<close>

section \<open>The invariant\<close>

definition env_ok :: "snap_env \<Rightarrow> bool" where
  "env_ok env \<longleftrightarrow> io_ok (io_env.truncate env)"

text \<open>From some question on the callback lets all tables be saved whose LSNs are not beyond \<open>L\<close>.\<close>

definition flush_progress :: "snap_env \<Rightarrow> XLogRecPtr \<Rightarrow> bool" where
  "flush_progress env L \<longleftrightarrow> (\<exists>n. \<forall>k\<ge>n. \<forall>m. polar_logindex_mem_table_max_lsn m \<le> L \<longrightarrow> table_flushable env k m)"

lemma flush_progress_le: "flush_progress env L \<Longrightarrow> l \<le> L \<Longrightarrow> flush_progress env l"
  unfolding flush_progress_def by (meson order_trans)

lemma redo_flush_progress:
  assumes "table_flushable env = polar_logindex_redo_table_flushable pos" "\<And>k. n \<le> k \<Longrightarrow> L < pos k"
  shows "flush_progress env L"
  using assms by (auto simp: flush_progress_def polar_logindex_redo_table_flushable_def intro!: exI[of _ n] intro: le_less_trans)

text \<open>The largest LSN of a table that is not saved yet is one of its LSNs.\<close>

definition max_tight :: "log_idx_table_data_t \<Rightarrow> log_index_lsn_t list \<Rightarrow> bool" where
  "max_tight t es \<longleftrightarrow> (\<forall>b. (\<forall>e\<in>set es. li_lsn e \<le> b) \<longrightarrow> tbl_max_lsn t \<le> b)"

lemma max_tight_le:
  assumes "max_tight (tbl_data m) (H ! k)" "k < length H" "\<forall>e\<in>set (concat H). li_lsn e \<le> L"
  shows "polar_logindex_mem_table_max_lsn m \<le> L"
proof -
  have "\<forall>e\<in>set (H ! k). li_lsn e \<le> L" using assms(2,3) by auto
  then show ?thesis using assms(1) by (simp add: max_tight_def polar_logindex_mem_table_max_lsn_def)
qed

text \<open>The state of the table number \<open>k\<close> when \<open>M\<close> tables are saved and \<open>C\<close> tables are closed.\<close>

definition state_of :: "nat \<Rightarrow> nat \<Rightarrow> nat \<Rightarrow> mem_tbl_state" where
  "state_of M C k = (if k < M then STATE_FLUSHED else if k < C then STATE_INACTIVE else STATE_ACTIVE)"

definition slot_ok :: "nat \<Rightarrow> log_index_lsn_t list list \<Rightarrow> nat \<Rightarrow> nat \<Rightarrow> nat \<Rightarrow> log_mem_table_t \<Rightarrow> bool" where
  "slot_ok N H M C i m \<longleftrightarrow>
     (if tbl_state m = STATE_FREE then m = zero_mem_table
      else \<exists>k<length H. LOG_INDEX_MEM_TBL_TID m = Suc k \<and> k mod N = i
             \<and> tbl_state m = state_of M C k \<and> tbl_holds (tbl_data m) (H ! k)
             \<and> (M \<le> k \<longrightarrow> max_tight (tbl_data m) (H ! k)))"

abbreviation saved_tables :: "log_index_snapshot_t \<Rightarrow> nat" where
  "saved_tables s \<equiv> meta_max_idx_table_id (meta (store s))"

definition ring_ok :: "snap_env \<Rightarrow> log_index_snapshot_t \<Rightarrow> log_index_lsn_t list list \<Rightarrow> nat \<Rightarrow> bool" where
  "ring_ok env s H C \<longleftrightarrow>
     2 \<le> mem_tbl_size s \<and> state_writable s \<and> old_primary_saved_max_tid (promoted_info s) = LOG_INDEX_TABLE_INVALID_ID
   \<and> max_idx_table_id s = length H \<and> saved_tables s \<le> C \<and> C \<le> length H \<and> length H \<le> saved_tables s + mem_tbl_size s
   \<and> hist_ok H \<and> store_inv (io_env.truncate env) (store s) H
   \<and> (\<forall>i<mem_tbl_size s. slot_ok (mem_tbl_size s) H (saved_tables s) C i (mem_table s i))
   \<and> (\<forall>k. saved_tables s \<le> k \<and> k < length H \<longrightarrow> LOG_INDEX_MEM_TBL_TID (mem_table s (k mod mem_tbl_size s)) = Suc k)"

definition snap_inv :: "snap_env \<Rightarrow> log_index_snapshot_t \<Rightarrow> log_index_lsn_t list list \<Rightarrow> bool" where
  "snap_inv env s H \<longleftrightarrow> ring_ok env s H (length H - 1) \<and> active_table s = (length H - 1) mod mem_tbl_size s
     \<and> (H \<noteq> [] \<longrightarrow> (let m = mem_table s (active_table s)
          in tbl_wf page_hash (free_head m) (tbl_data m) \<and> (last H = [] \<longrightarrow> LOG_INDEX_MEM_TBL_IS_NEW m)))"

lemma ring_okD:
  assumes "ring_ok env s H C"
  shows "2 \<le> mem_tbl_size s" "state_writable s" "old_primary_saved_max_tid (promoted_info s) = LOG_INDEX_TABLE_INVALID_ID"
    "max_idx_table_id s = length H" "saved_tables s \<le> C" "C \<le> length H" "length H \<le> saved_tables s + mem_tbl_size s"
    "hist_ok H" "store_inv (io_env.truncate env) (store s) H"
    and "\<And>i. i < mem_tbl_size s \<Longrightarrow> slot_ok (mem_tbl_size s) H (saved_tables s) C i (mem_table s i)"
    and "\<And>k. saved_tables s \<le> k \<Longrightarrow> k < length H \<Longrightarrow> LOG_INDEX_MEM_TBL_TID (mem_table s (k mod mem_tbl_size s)) = Suc k"
  using assms by (simp_all add: ring_ok_def)

text \<open>The table number \<open>k\<close> in memory.\<close>

lemma ring_table:
  assumes r: "ring_ok env s H C" and k: "k < length H" "LOG_INDEX_MEM_TBL_TID (mem_table s (k mod mem_tbl_size s)) = Suc k"
  shows "tbl_state (mem_table s (k mod mem_tbl_size s)) = state_of (saved_tables s) C k"
    "tbl_holds (tbl_data (mem_table s (k mod mem_tbl_size s))) (H ! k)"
    "saved_tables s \<le> k \<Longrightarrow> max_tight (tbl_data (mem_table s (k mod mem_tbl_size s))) (H ! k)"
proof -
  let ?m = "mem_table s (k mod mem_tbl_size s)"
  have "slot_ok (mem_tbl_size s) H (saved_tables s) C (k mod mem_tbl_size s) ?m"
    using ring_okD(1,10)[OF r] by simp
  moreover have "?m \<noteq> zero_mem_table" using k(2) by (auto simp: zero_mem_table_def zero_table_def)
  ultimately show "tbl_state ?m = state_of (saved_tables s) C k" "tbl_holds (tbl_data ?m) (H ! k)"
    "saved_tables s \<le> k \<Longrightarrow> max_tight (tbl_data ?m) (H ! k)"
    using k(2) by (auto simp: slot_ok_def split: if_splits)
qed

lemma ring_asked [simp]: "ring_ok env (s\<lparr>asked := n\<rparr>) H C = ring_ok env s H C"
  by (simp add: ring_ok_def)

text \<open>Two numbers of tables that are less than the size of the ring apart use different slots.\<close>

lemma mod_slot_eq:
  assumes "(j :: nat) mod n = k mod n" "j \<le> k" "k < j + n"
  shows "j = k"
proof -
  have "n dvd k - j" using assms(1,2) by (simp add: mod_eq_dvd_iff_nat[symmetric])
  then show ?thesis using assms(2,3) by (auto dest!: dvd_imp_le)
qed

section \<open>Saving the next table\<close>

text \<open>The number of the first table on storage that is still there, from 1.\<close>

abbreviation first_kept :: "log_index_snapshot_t \<Rightarrow> nat" where
  "first_kept s \<equiv> seg_min_idx_table_id (min_segment_info (meta (store s)))"

text \<open>What no operation on the primary changes, apart from truncation.\<close>

definition keeps :: "log_index_snapshot_t \<Rightarrow> log_index_snapshot_t \<Rightarrow> bool" where
  "keeps s s' \<longleftrightarrow> mem_tbl_size s' = mem_tbl_size s \<and> state_adding s' = state_adding s
     \<and> (first_kept s' = first_kept s \<or> first_kept s \<le> 1 \<and> first_kept s' \<le> 1)"

text \<open>What saving tables may change: \<open>s'\<close> has the tables of \<open>s\<close>, some more of them saved.\<close>

definition saves :: "log_index_snapshot_t \<Rightarrow> log_index_snapshot_t \<Rightarrow> bool" where
  "saves s s' \<longleftrightarrow> keeps s s' \<and> active_table s' = active_table s \<and> saved_tables s \<le> saved_tables s'
     \<and> (\<forall>i. tbl_state (mem_table s i) = STATE_ACTIVE \<longrightarrow> mem_table s' i = mem_table s i)"

lemma keeps_refl [simp]: "keeps s s"
  and keeps_trans: "keeps a b \<Longrightarrow> keeps b c \<Longrightarrow> keeps a c"
  by (auto simp: keeps_def)

lemma saves_refl [simp]: "saves s s"
  and saves_trans: "saves a b \<Longrightarrow> saves b c \<Longrightarrow> saves a c"
  by (auto simp: saves_def dest: keeps_trans)

lemma saves_asked [simp]: "saves s (s'\<lparr>asked := n\<rparr>) = saves s s'" "saves (s\<lparr>asked := n\<rparr>) s' = saves s s'"
  by (simp_all add: saves_def keeps_def)

text \<open>While a process waits because the callback refuses, the others may save tables and consult the
  callback.\<close>

definition others_ok :: "snap_env \<Rightarrow> (log_index_snapshot_t \<Rightarrow> log_index_snapshot_t) \<Rightarrow> bool" where
  "others_ok env others \<longleftrightarrow> (\<forall>k m. table_flushable env k m)
     \<or> (\<forall>s H C. ring_ok env s H C \<longrightarrow> ring_ok env (others s) H C \<and> saves s (others s) \<and> asked s \<le> asked (others s))"

lemma save_table_ok:
  assumes r: "ring_ok env s H C" and env: "env_ok env" and M: "saved_tables s < C"
  defines "mid \<equiv> saved_tables s mod mem_tbl_size s"
  obtains st' t' where "log_index_write_table (io_env.truncate env) (store s) fa (mem_table s mid) =
      Some (Inr (True, st', (mem_table s mid)\<lparr>tbl_data := t', tbl_state := STATE_FLUSHED\<rparr>))"
    "ring_ok env (put_table (s\<lparr>store := st'\<rparr>) mid ((mem_table s mid)\<lparr>tbl_data := t', tbl_state := STATE_FLUSHED\<rparr>)) H C"
    "saves s (put_table (s\<lparr>store := st'\<rparr>) mid ((mem_table s mid)\<lparr>tbl_data := t', tbl_state := STATE_FLUSHED\<rparr>))"
    "meta_max_idx_table_id (meta st') = Suc (saved_tables s)"
proof -
  let ?M = "saved_tables s" and ?m = "mem_table s mid" and ?n = "mem_tbl_size s"
  note rd = ring_okD[OF r]
  have len: "?M < length H" using M rd(6) by simp
  have tid: "LOG_INDEX_MEM_TBL_TID ?m = Suc ?M" using rd(11)[OF le_refl len] by (simp add: mid_def)
  note mt = ring_table[OF r len, folded mid_def, OF tid]
  have st: "tbl_state ?m = STATE_INACTIVE" using mt(1) M by (simp add: state_of_def)
  have io: "io_ok (io_env.truncate env)" using env by (simp add: env_ok_def)
  obtain st' t' where w: "log_index_write_table (io_env.truncate env) (store s) fa ?m =
      Some (Inr (True, st', ?m\<lparr>tbl_data := t', tbl_state := STATE_FLUSHED\<rparr>))"
    "store_inv (io_env.truncate env) st' H" "meta_max_idx_table_id (meta st') = Suc ?M" "idx_table_id t' = Suc ?M"
    "tbl_holds t' (H ! ?M)" "seg_min_idx_table_id (min_segment_info (meta st')) = (if ?M = 0 then 1 else first_kept s)"
    using write_table_ok[OF rd(9) io st len tid mt(2) hist_table(1)[OF rd(8) len]] by blast
  let ?s = "put_table (s\<lparr>store := st'\<rparr>) mid (?m\<lparr>tbl_data := t', tbl_state := STATE_FLUSHED\<rparr>)"
  have slots: "slot_ok ?n H (Suc ?M) C i (mem_table ?s i)" if "i < ?n" for i
  proof (cases "i = mid")
    case True
    then show ?thesis using w(4,5) len by (auto simp: slot_ok_def state_of_def mid_def)
  next
    case False
    then show ?thesis using rd(10)[OF that] by (fastforce simp: slot_ok_def state_of_def mid_def less_Suc_eq)
  qed
  have tids: "LOG_INDEX_MEM_TBL_TID (mem_table ?s (k mod ?n)) = Suc k" if "Suc ?M \<le> k" "k < length H" for k
    using rd(11)[of k] that w(4) mod_slot_eq[of ?M ?n k] rd(7) by (auto simp: mid_def)
  have first: "first_kept s = 0" if "?M = 0"
    using store_invD(3)[OF rd(9)] that by (simp add: min_segment_ok_def)
  have "ring_ok env ?s H C"
    using rd(1-8) w(2,3) M slots tids by (simp add: ring_ok_def)
  moreover have "saves s ?s" using w(3,6) st first by (auto simp: saves_def keeps_def)
  ultimately show thesis using that w(1,3) by blast
qed

section \<open>Waiting for a free table\<close>

text \<open>The new active table behind a history of closed tables.\<close>

lemma free_slot:
  assumes r: "ring_ok env s H (length H)" and env: "env_ok env" and L: "\<forall>e\<in>set (concat H). li_lsn e \<le> L"
  defines "i \<equiv> length H mod mem_tbl_size s"
  obtains (ready) s' where "(if tbl_state (mem_table s i) = STATE_INACTIVE then log_index_force_save_table env s i else Some (Inr s))
      = Some (Inr s')" "ring_ok env s' H (length H)" "saves s s'" "length H < saved_tables s' + mem_tbl_size s'"
    "tbl_state (mem_table s' i) = STATE_FLUSHED \<or> mem_table s' i = zero_mem_table"
  | (refused) "tbl_state (mem_table s i) = STATE_INACTIVE" "polar_logindex_mem_table_max_lsn (mem_table s i) \<le> L"
    "\<not> table_flushable env (asked s) (mem_table s i)"
    "log_index_force_save_table env s i = Some (Inr (s\<lparr>asked := Suc (asked s)\<rparr>))"
proof -
  let ?n = "mem_tbl_size s" and ?M = "saved_tables s" and ?m = "mem_table s i"
  note rd = ring_okD[OF r]
  have so: "slot_ok ?n H ?M (length H) i ?m" using rd(1,10) by (simp add: i_def)
  have full: "LOG_INDEX_MEM_TBL_TID ?m = Suc ?M \<and> ?M mod ?n = i \<and> ?M < length H" if "length H = ?M + ?n"
    using rd(11)[of ?M] rd(1) that by (simp add: i_def)
  have M: "k = ?M \<and> length H = ?M + ?n" if "k mod ?n = i" "k < length H" "?M \<le> k" for k
  proof -
    have "\<not> length H < k + ?n" using mod_slot_eq[of k ?n "length H"] that by (auto simp: i_def)
    then show ?thesis using that rd(7) by linarith
  qed
  show thesis
  proof (cases "tbl_state ?m = STATE_INACTIVE")
    case False
    have "length H \<noteq> ?M + ?n"
    proof
      assume "length H = ?M + ?n"
      with full so False show False by (auto simp: slot_ok_def state_of_def zero_mem_table_def zero_table_def split: if_splits)
    qed
    moreover have "tbl_state ?m = STATE_FLUSHED \<or> ?m = zero_mem_table"
      using so False by (auto simp: slot_ok_def state_of_def split: if_splits)
    ultimately show thesis using ready[of s] r rd(7) False by simp
  next
    case True
    obtain k where k: "k < length H" "k mod ?n = i" "?M \<le> k"
      using so True by (auto simp: slot_ok_def state_of_def split: if_splits)
    note kM = M[OF k(2,1,3)]
    have mid: "?M mod ?n = i" "?M < length H" "LOG_INDEX_MEM_TBL_TID ?m = Suc ?M" using full kM by simp_all
    show thesis
    proof (cases "table_flushable env (asked s) ?m")
      case fl: True
      obtain st' t' where w: "log_index_write_table (io_env.truncate env) (store s) (flush_active_table s) ?m =
          Some (Inr (True, st', ?m\<lparr>tbl_data := t', tbl_state := STATE_FLUSHED\<rparr>))"
        "ring_ok env (put_table (s\<lparr>store := st'\<rparr>) i (?m\<lparr>tbl_data := t', tbl_state := STATE_FLUSHED\<rparr>)) H (length H)"
        "saves s (put_table (s\<lparr>store := st'\<rparr>) i (?m\<lparr>tbl_data := t', tbl_state := STATE_FLUSHED\<rparr>))"
        "meta_max_idx_table_id (meta st') = Suc ?M"
        using save_table_ok[OF r env mid(2)] mid(1) by metis
      let ?s = "(put_table (s\<lparr>store := st'\<rparr>) i (?m\<lparr>tbl_data := t', tbl_state := STATE_FLUSHED\<rparr>))\<lparr>asked := Suc (asked s)\<rparr>"
      have "log_index_force_save_table env s i = Some (Inr ?s)"
        using w(1) rd(2,3) fl by (simp add: log_index_force_save_table_def log_index_table_saved_before_promote_def Let_def)
      then show thesis using ready[of ?s] w(2-4) True kM by simp
    next
      case fl: False
      have "max_tight (tbl_data ?m) (H ! ?M)" using ring_table(3)[OF r mid(2)] mid(1,3) by simp
      then have "polar_logindex_mem_table_max_lsn ?m \<le> L" by (rule max_tight_le[OF _ mid(2) L])
      then show thesis using refused True fl rd(2) by (simp add: log_index_force_save_table_def Let_def)
    qed
  qed
qed

lemma store_inv_cong:
  assumes "store_inv env st H" "\<forall>k<meta_max_idx_table_id (meta st). H' ! k = H ! k" "meta_max_idx_table_id (meta st) \<le> length H'"
  shows "store_inv env st H'"
proof -
  note mi = store_invD[OF assms(1)]
  let ?M = "meta_max_idx_table_id (meta st)"
  have eq: "H' ! (k - 1) = H ! (k - 1)" if "1 \<le> k" "k \<le> ?M" for k using assms(2) that by auto
  show ?thesis
  proof (rule store_invI)
    show "min_segment_ok (min_segment_info (meta st)) H' ?M" using mi(3) eq by (auto simp: min_segment_ok_def)
    show "cache_ok (table_cache st) H' ?M" using mi(7) eq by (fastforce simp: cache_ok_def Let_def)
  qed (use mi assms(2,3) in auto)
qed

text \<open>A turn of the waiting loop that finds the slot free or makes it so.\<close>

lemma wait_active_ready:
  assumes s1: "(if tbl_state (mem_table s i) = STATE_INACTIVE then log_index_force_save_table env s i else Some (Inr s))
      = Some (Inr s1)" "ring_ok env s1 H (length H)" "saves s s1" "length H < saved_tables s1 + mem_tbl_size s1"
    "tbl_state (mem_table s1 i) = STATE_FLUSHED \<or> mem_table s1 i = zero_mem_table"
    and ne: "\<forall>L\<in>set H. L \<noteq> []" and i_def: "i = length H mod mem_tbl_size s"
  obtains s' where "log_index_wait_active env others s i l = Some (Inr s')" "ring_ok env s' (H @ [[]]) (length H)"
    "keeps s s'" "active_table s' = active_table s" "saved_tables s' = saved_tables s1"
    "mem_table s' i = zero_mem_table\<lparr>tbl_data := zero_table\<lparr>idx_table_id := Suc (length H), tbl_min_lsn := UINT64_MAX,
       prefix_lsn := ucast (drop_bit 32 l)\<rparr>, free_head := 1, tbl_state := STATE_ACTIVE\<rparr>"
proof -
  note rd = ring_okD[OF s1(2)]
  have n: "mem_tbl_size s1 = mem_tbl_size s" using s1(3) by (simp add: saves_def keeps_def)
  let ?m = "zero_mem_table\<lparr>tbl_data := zero_table\<lparr>idx_table_id := Suc (length H), tbl_min_lsn := UINT64_MAX,
    prefix_lsn := ucast (drop_bit 32 l)\<rparr>, free_head := 1, tbl_state := STATE_ACTIVE\<rparr>"
  let ?s = "(put_table s1 i ?m)\<lparr>max_idx_table_id := Suc (length H)\<rparr>"
  have turn: "wait_active_turn env s i l = Some (Inr ?s)"
    using s1(1,5) rd(4)
    by (auto simp: wait_active_turn_def LOG_INDEX_MEM_TBL_NEW_ACTIVE_def zero_mem_table_def zero_table_def Let_def)
  have run: "log_index_wait_active env others s i l = Some (Inr ?s)"
    by (subst log_index_wait_active.simps)
      (simp add: turn LOG_INDEX_MEM_TBL_FULL_def LOG_INDEX_MEM_TBL_SEG_NUM_def)
  have new: "tbl_holds (tbl_data ?m) []"
  proof -
    have "empty_slots (tbl_data ?m)" by (simp add: empty_slots_def zero_table_def zero_mem_table_def)
    then show ?thesis using empty_wf empty_log by (auto simp: tbl_holds_def)
  qed
  have tight: "max_tight (tbl_data ?m) []" by (simp add: max_tight_def zero_table_def zero_mem_table_def)
  have i: "k mod mem_tbl_size s1 \<noteq> i" if "saved_tables s1 \<le> k" "k < length H" for k
    using mod_slot_eq[of k "mem_tbl_size s1" "length H"] that s1(4) n by (auto simp: i_def)
  have hist: "hist_ok (H @ [[]])" using rd(8) ne by (simp add: hist_ok_def no_prev_def page_log_def)
  have store: "store_inv (io_env.truncate env) (store s1) (H @ [[]])"
    using rd(5,6) by (intro store_inv_cong[OF rd(9)]) (auto simp: nth_append)
  have slots: "slot_ok (mem_tbl_size s1) (H @ [[]]) (saved_tables s1) (length H) j (mem_table ?s j)"
    if "j < mem_tbl_size s1" for j
  proof (cases "j = i")
    case True
    then show ?thesis using new tight rd(5) n by (auto simp: slot_ok_def state_of_def i_def intro!: exI[of _ "length H"])
  next
    case False
    then show ?thesis using rd(10)[OF that] by (fastforce simp: slot_ok_def nth_append)
  qed
  have tids: "LOG_INDEX_MEM_TBL_TID (mem_table ?s (k mod mem_tbl_size s1)) = Suc k"
    if "saved_tables s1 \<le> k" "k < Suc (length H)" for k
    using rd(11)[of k] i[of k] that n by (cases "k = length H") (auto simp: i_def)
  have "ring_ok env ?s (H @ [[]]) (length H)"
    using rd(1-3,5) s1(4) hist store slots tids by (simp add: ring_ok_def del: fun_upd_apply)
  then show thesis using that[OF run] s1(3) by (auto simp: saves_def keeps_def)
qed

text \<open>The waiting loop ends: the callback does not refuse for ever.\<close>

lemma wait_active_ok:
  assumes r: "ring_ok env s H (length H)" and env: "env_ok env" and ne: "\<forall>L\<in>set H. L \<noteq> []"
    and L: "\<forall>e\<in>set (concat H). li_lsn e \<le> L" and prog: "flush_progress env L" and oth: "others_ok env others"
  shows "\<exists>s'. log_index_wait_active env others s (length H mod mem_tbl_size s) l = Some (Inr s')
    \<and> ring_ok env s' (H @ [[]]) (length H) \<and> keeps s s' \<and> active_table s' = active_table s
    \<and> mem_table s' (length H mod mem_tbl_size s) = zero_mem_table\<lparr>tbl_data := zero_table\<lparr>idx_table_id := Suc (length H),
        tbl_min_lsn := UINT64_MAX, prefix_lsn := ucast (drop_bit 32 l)\<rparr>, free_head := 1, tbl_state := STATE_ACTIVE\<rparr>"
proof -
  obtain n where n: "\<And>k m. n \<le> k \<Longrightarrow> polar_logindex_mem_table_max_lsn m \<le> L \<Longrightarrow> table_flushable env k m"
    using prog unfolding flush_progress_def by blast
  show ?thesis using r
  proof (induction "n - asked s" arbitrary: s rule: less_induct)
    case less
    let ?i = "length H mod mem_tbl_size s"
    show ?case
    proof (rule free_slot[OF less.prems env L])
      fix s1 assume "(if tbl_state (mem_table s ?i) = STATE_INACTIVE then log_index_force_save_table env s ?i else Some (Inr s))
        = Some (Inr s1)" "ring_ok env s1 H (length H)" "saves s s1" "length H < saved_tables s1 + mem_tbl_size s1"
        "tbl_state (mem_table s1 ?i) = STATE_FLUSHED \<or> mem_table s1 ?i = zero_mem_table"
      from wait_active_ready[OF this ne refl] show ?case by metis
    next
      let ?s1 = "s\<lparr>asked := Suc (asked s)\<rparr>" and ?m = "mem_table s ?i"
      assume w: "tbl_state ?m = STATE_INACTIVE" "polar_logindex_mem_table_max_lsn ?m \<le> L"
        "\<not> table_flushable env (asked s) ?m" "log_index_force_save_table env s ?i = Some (Inr ?s1)"
      let ?s2 = "others ?s1"
      have "ring_ok env ?s1 H (length H)" using less.prems by simp
      then have s2: "ring_ok env ?s2 H (length H)" "saves ?s1 ?s2" "asked ?s1 \<le> asked ?s2"
        using oth w(3) unfolding others_ok_def by blast+
      have k2: "keeps s ?s2" "active_table ?s2 = active_table s" "mem_tbl_size ?s2 = mem_tbl_size s"
        using s2(2) by (simp_all add: saves_def keeps_def)
      have "asked s < n" using n[of "asked s" ?m] w(2,3) by (meson not_le)
      then have "n - asked ?s2 < n - asked s" using s2(3) by simp
      from less.hyps[OF this s2(1)] obtain s' where s': "log_index_wait_active env others ?s2 ?i l = Some (Inr s')"
        "ring_ok env s' (H @ [[]]) (length H)" "keeps ?s2 s'" "active_table s' = active_table ?s2"
        "mem_table s' ?i = zero_mem_table\<lparr>tbl_data := zero_table\<lparr>idx_table_id := Suc (length H),
          tbl_min_lsn := UINT64_MAX, prefix_lsn := ucast (drop_bit 32 l)\<rparr>, free_head := 1, tbl_state := STATE_ACTIVE\<rparr>"
        unfolding k2(3) by blast
      have "wait_active_turn env s ?i l = Some (Inr ?s1)" using w(1,4) by (simp add: wait_active_turn_def Let_def)
      then have "log_index_wait_active env others s ?i l = Some (Inr s')"
        using w(1) s'(1) by (subst log_index_wait_active.simps) simp
      then show ?case using s'(2-5) k2 keeps_trans by auto
    qed
  qed
qed

section \<open>A slot for the next entry\<close>

text \<open>An LSN that may come next for a page.\<close>

definition next_lsn :: "log_index_lsn_t list list \<Rightarrow> BufferTag \<Rightarrow> XLogRecPtr \<Rightarrow> bool" where
  "next_lsn H page l \<longleftrightarrow> 0 < l \<and> l < UINT64_MAX \<and> (\<forall>e\<in>set (concat H). li_lsn e \<le> l)
     \<and> (\<forall>e\<in>set (concat H). li_tag e = page \<longrightarrow> li_lsn e < l)"

text \<open>The active table has the segment \<open>dst\<close> set aside for an entry with the LSN \<open>l\<close>.\<close>

definition room :: "snap_env \<Rightarrow> log_index_snapshot_t \<Rightarrow> log_index_lsn_t list list \<Rightarrow> XLogRecPtr \<Rightarrow> log_seg_id_t \<Rightarrow> bool" where
  "room env s H l dst \<longleftrightarrow> H \<noteq> [] \<and> ring_ok env s H (length H - 1) \<and> active_table s = (length H - 1) mod mem_tbl_size s
     \<and> (let m = mem_table s (active_table s)
        in tbl_wf page_hash dst (tbl_data m) \<and> free_head m = Suc dst \<and> dst < LOG_INDEX_MEM_TBL_SEG_NUM
           \<and> LOG_INDEX_SAME_TABLE_LSN_PREFIX (tbl_data m) l)"

lemma ring_put:
  assumes r: "ring_ok env s H C" and k: "k < length H" "LOG_INDEX_MEM_TBL_TID (mem_table s (k mod mem_tbl_size s)) = Suc k"
    and m: "LOG_INDEX_MEM_TBL_TID m = Suc k" "tbl_state m = state_of (saved_tables s) C k" "tbl_holds (tbl_data m) (H ! k)"
      "saved_tables s \<le> k \<Longrightarrow> max_tight (tbl_data m) (H ! k)"
  shows "ring_ok env (put_table s (k mod mem_tbl_size s) m) H C"
proof -
  note rd = ring_okD[OF r]
  have "slot_ok (mem_tbl_size s) H (saved_tables s) C i (((mem_table s)(k mod mem_tbl_size s := m)) i)" if "i < mem_tbl_size s" for i
    using rd(10)[OF that] m k(1) by (auto simp: slot_ok_def state_of_def split: if_splits)
  moreover have "LOG_INDEX_MEM_TBL_TID (((mem_table s)(k mod mem_tbl_size s := m)) (j mod mem_tbl_size s)) = Suc j"
    if "saved_tables s \<le> j" "j < length H" for j
  proof (cases "j mod mem_tbl_size s = k mod mem_tbl_size s")
    case True
    have "j = k" using rd(11)[OF that, unfolded True] k(2) by (simp only: nat.inject)
    then show ?thesis using m(1) by simp
  next
    case False
    then show ?thesis using rd(11)[OF that] by simp
  qed
  ultimately show ?thesis using rd by (simp add: ring_ok_def del: fun_upd_apply)
qed

lemma snap_active:
  assumes inv: "snap_inv env s H" and H: "H \<noteq> []"
  defines "m \<equiv> mem_table s (active_table s)"
  shows "tbl_state m = STATE_ACTIVE" "tbl_holds (tbl_data m) (last H)" "LOG_INDEX_MEM_TBL_TID m = length H"
    "tbl_wf page_hash (free_head m) (tbl_data m)" "last H = [] \<Longrightarrow> LOG_INDEX_MEM_TBL_IS_NEW m"
    "last H \<noteq> [] \<Longrightarrow> \<not> LOG_INDEX_MEM_TBL_IS_NEW m" "saved_tables s \<le> length H - 1"
    "max_tight (tbl_data m) (last H)"
proof -
  have r: "ring_ok env s H (length H - 1)" and a: "active_table s = (length H - 1) mod mem_tbl_size s"
    and w: "tbl_wf page_hash (free_head m) (tbl_data m)" "last H = [] \<Longrightarrow> LOG_INDEX_MEM_TBL_IS_NEW m"
    using inv H by (auto simp: snap_inv_def m_def Let_def)
  note rd = ring_okD[OF r]
  have len: "length H - 1 < length H" using H by simp
  show M: "saved_tables s \<le> length H - 1" by (rule rd(5))
  have tid: "LOG_INDEX_MEM_TBL_TID (mem_table s ((length H - 1) mod mem_tbl_size s)) = Suc (length H - 1)"
    by (rule rd(11)[OF M len])
  show "tbl_state m = STATE_ACTIVE" "tbl_holds (tbl_data m) (last H)" "LOG_INDEX_MEM_TBL_TID m = length H"
    "max_tight (tbl_data m) (last H)"
    using ring_table[OF r len tid] tid M a H by (simp_all add: m_def state_of_def last_conv_nth)
  show "tbl_wf page_hash (free_head m) (tbl_data m)" "last H = [] \<Longrightarrow> LOG_INDEX_MEM_TBL_IS_NEW m" by (fact w)+
  assume "last H \<noteq> []"
  show "\<not> LOG_INDEX_MEM_TBL_IS_NEW m"
  proof
    assume "LOG_INDEX_MEM_TBL_IS_NEW m"
    then have wf: "tbl_wf page_hash 1 (tbl_data m)" using w(1) by (simp add: LOG_INDEX_MEM_TBL_IS_NEW_def)
    have "orders (tbl_data m) = []"
      using tbl_wfD(7)[OF wf, of "hd (orders (tbl_data m))"] by (cases "orders (tbl_data m)") auto
    then show False using \<open>tbl_holds (tbl_data m) (last H)\<close> \<open>last H \<noteq> []\<close> by (simp add: tbl_holds_def tbl_log_def)
  qed
qed

lemma prefix_same [simp]: "LOG_INDEX_SAME_TABLE_LSN_PREFIX (t\<lparr>prefix_lsn := ucast (drop_bit 32 l)\<rparr>) l"
proof -
  have "drop_bit 32 l = ucast (ucast (drop_bit 32 l :: XLogRecPtr) :: uint32)"
    by (rule bit_word_eqI) (auto simp: bit_simps dest: bit_imp_le_length)
  then show ?thesis by (simp add: LOG_INDEX_SAME_TABLE_LSN_PREFIX_def)
qed

lemma holds_empty:
  assumes "tbl_holds t []"
  shows "tbl_holds (t\<lparr>prefix_lsn := p\<rparr>) []"
  using assms same_contents(1)[of "t\<lparr>prefix_lsn := p\<rparr>" t] by (auto simp: tbl_holds_def tbl_log_def orders_def)

text \<open>A fresh active table gives its first segment at once.\<close>

lemma next_free_seg_fresh:
  assumes r: "ring_ok env s (H @ [[]]) (length H)" and a: "active_table s = length H mod mem_tbl_size s"
    and m: "mem_table s (active_table s) = zero_mem_table\<lparr>tbl_data := zero_table\<lparr>idx_table_id := Suc (length H),
      tbl_min_lsn := UINT64_MAX, prefix_lsn := ucast (drop_bit 32 l)\<rparr>, free_head := 1, tbl_state := STATE_ACTIVE\<rparr>"
      (is "_ = ?m")
  obtains s' where "next_free_seg_loop env others s l nx act = Some (Inr (1, act, s'))" "room env s' (H @ [[]]) l 1"
    "keeps s s'" "active_table s' = active_table s"
proof -
  let ?s = "put_table s (active_table s) (?m\<lparr>free_head := 2\<rparr>)"
  have pre: "LOG_INDEX_SAME_TABLE_LSN_PREFIX (tbl_data ?m) l"
    using prefix_same[of l "zero_table\<lparr>idx_table_id := Suc (length H), tbl_min_lsn := UINT64_MAX\<rparr>"] by simp
  have run: "next_free_seg_loop env others s l nx act = Some (Inr (1, act, ?s))"
    using pre by (subst next_free_seg_loop.simps)
      (simp add: m LOG_INDEX_MEM_TBL_FULL_def LOG_INDEX_MEM_TBL_SEG_NUM_def Let_def zero_mem_table_def zero_table_def
        numeral_2_eq_2)
  have len: "length H < length (H @ [[]])" by simp
  have tid: "LOG_INDEX_MEM_TBL_TID (mem_table s (length H mod mem_tbl_size s)) = Suc (length H)"
    using m a by simp
  note rt = ring_table[OF r len tid]
  have "ring_ok env ?s (H @ [[]]) (length H)"
    using ring_put[OF r len tid, of "?m\<lparr>free_head := 2\<rparr>"] rt m a by simp
  moreover have "empty_slots (tbl_data ?m)" by (simp add: empty_slots_def zero_table_def)
  then have "tbl_wf page_hash 1 (tbl_data ?m)" by (rule empty_wf)
  ultimately have "room env ?s (H @ [[]]) l 1"
    using pre a by (simp add: room_def LOG_INDEX_MEM_TBL_SEG_NUM_def numeral_2_eq_2)
  then show thesis using that[OF run] by (simp add: keeps_def)
qed

text \<open>A segment of the active table.\<close>

lemma room_same:
  assumes inv: "snap_inv env s H" and H: "H \<noteq> []"
  defines "m \<equiv> mem_table s (active_table s)"
  assumes t: "t = tbl_data m \<or> last H = [] \<and> t = (tbl_data m)\<lparr>prefix_lsn := p\<rparr>"
    and free: "free_head m < LOG_INDEX_MEM_TBL_SEG_NUM" and pre: "LOG_INDEX_SAME_TABLE_LSN_PREFIX t l"
  shows "room env (put_table s (active_table s) (m\<lparr>tbl_data := t, free_head := Suc (free_head m)\<rparr>)) H l (free_head m)"
proof -
  let ?k = "length H - 1" and ?m = "m\<lparr>tbl_data := t, free_head := Suc (free_head m)\<rparr>"
  have r: "ring_ok env s H ?k" and a: "active_table s = ?k mod mem_tbl_size s" using inv by (simp_all add: snap_inv_def)
  note ma = snap_active[OF inv H, folded m_def]
  have hold: "tbl_holds t (last H)" "tbl_wf page_hash (free_head m) t" "idx_table_id t = idx_table_id (tbl_data m)"
    "max_tight t (last H)"
    using t ma(2,4,8) holds_empty[of "tbl_data m" p] same_contents(1)[of "(tbl_data m)\<lparr>prefix_lsn := p\<rparr>" "tbl_data m"]
    by (auto simp: max_tight_def)
  have tid: "LOG_INDEX_MEM_TBL_TID (mem_table s (?k mod mem_tbl_size s)) = Suc ?k" using ma(3) H a by (simp add: m_def)
  have k: "?k < length H" using H by simp
  have "ring_ok env (put_table s (?k mod mem_tbl_size s) ?m) H ?k"
    using ring_put[OF r k tid, of ?m] ring_table(1)[OF r k tid] hold ma(1,3) H a by (simp add: m_def last_conv_nth)
  then show ?thesis using hold(2) free pre H a by (simp add: room_def)
qed

text \<open>Closing the active table.\<close>

lemma close_active:
  assumes inv: "snap_inv env s H" and H: "H \<noteq> []"
  defines "m \<equiv> mem_table s (active_table s)"
  shows "ring_ok env (put_table s (active_table s) (m\<lparr>tbl_state := STATE_INACTIVE\<rparr>)) H (length H)"
proof -
  let ?k = "length H - 1" and ?n = "mem_tbl_size s"
  let ?s = "put_table s (active_table s) (m\<lparr>tbl_state := STATE_INACTIVE\<rparr>)"
  have r: "ring_ok env s H ?k" and a: "active_table s = ?k mod ?n" using inv by (simp_all add: snap_inv_def)
  note ma = snap_active[OF inv H, folded m_def] and rd = ring_okD[OF r]
  have k: "?k < length H" using H by simp
  have "slot_ok ?n H (saved_tables s) (length H) i (mem_table ?s i)" if "i < ?n" for i
  proof (cases "i = active_table s")
    case True
    then show ?thesis using ma(2,3,7,8) H a k by (auto simp: slot_ok_def state_of_def last_conv_nth intro!: exI[of _ ?k])
  next
    case False
    then have "j \<noteq> ?k" if "j mod ?n = i" for j using that a by auto
    then show ?thesis using rd(10)[OF that] False by (fastforce simp: slot_ok_def state_of_def)
  qed
  moreover have "LOG_INDEX_MEM_TBL_TID (mem_table ?s j) = LOG_INDEX_MEM_TBL_TID (mem_table s j)" for j by (simp add: m_def)
  ultimately show ?thesis using rd by (simp add: ring_ok_def del: fun_upd_apply)
qed

lemma ring_active [simp]: "ring_ok env (s\<lparr>active_table := i\<rparr>) H C = ring_ok env s H C"
  by (simp add: ring_ok_def)

lemma next_free_seg_ok:
  assumes inv: "snap_inv env s H" and env: "env_ok env"
    and L: "\<forall>e\<in>set (concat H). li_lsn e \<le> L" and prog: "flush_progress env L" and oth: "others_ok env others"
  obtains dst a H' s' where "log_index_next_free_seg env others s l (active_table s) = Some (Inr (dst, a, s'))"
    "room env s' H' l dst" "a = active_table s'" "keeps s s'"
    "H' = H \<and> a = active_table s
        \<and> (last H \<noteq> [] \<longrightarrow> tbl_data (mem_table s' a) = tbl_data (mem_table s a))
      \<or> H' = H @ [[]] \<and> (H \<noteq> [] \<longrightarrow> a \<noteq> active_table s)"
proof -
  let ?a = "active_table s" and ?n = "mem_tbl_size s"
  let ?m = "mem_table s ?a"
  have r: "ring_ok env s H (length H - 1)" and a: "?a = (length H - 1) mod ?n" using inv by (simp_all add: snap_inv_def)
  note rd = ring_okD[OF r]
  consider (none) "H = []" | (new) "H \<noteq> []" "last H = []"
    | (full) "H \<noteq> []" "last H \<noteq> []" "LOG_INDEX_MEM_TBL_FULL ?m \<or> \<not> LOG_INDEX_SAME_TABLE_LSN_PREFIX (tbl_data ?m) l"
    | (free) "H \<noteq> []" "last H \<noteq> []" "\<not> LOG_INDEX_MEM_TBL_FULL ?m" "LOG_INDEX_SAME_TABLE_LSN_PREFIX (tbl_data ?m) l"
    by blast
  then show thesis
  proof cases
    case none
    have "slot_ok ?n H (saved_tables s) 0 0 ?m" using rd(1) rd(10)[of 0] none a by simp
    then have z: "?m = zero_mem_table" using none by (simp add: slot_ok_def split: if_splits)
    obtain s1 where s1: "log_index_wait_active env others s ?a l = Some (Inr s1)" "ring_ok env s1 (H @ [[]]) (length H)"
      "keeps s s1" "active_table s1 = ?a" "mem_table s1 ?a = zero_mem_table\<lparr>tbl_data := zero_table\<lparr>idx_table_id := Suc (length H),
         tbl_min_lsn := UINT64_MAX, prefix_lsn := ucast (drop_bit 32 l)\<rparr>, free_head := 1, tbl_state := STATE_ACTIVE\<rparr>"
      using wait_active_ok[OF _ env _ L prog oth, of s l] r none a by auto
    have a1: "active_table s1 = length H mod mem_tbl_size s1" using s1(3,4) a none by (simp add: keeps_def)
    obtain s2 where s2: "next_free_seg_loop env others s1 l None ?a = Some (Inr (1, ?a, s2))" "room env s2 (H @ [[]]) l 1"
      "keeps s1 s2" "active_table s2 = active_table s1"
      using next_free_seg_fresh[OF s1(2) a1, of l others None ?a] s1(4,5) by auto
    have "next_free_seg_loop env others s l None ?a = Some (Inr (1, ?a, s2))"
      using s1(1) s2(1) by (subst next_free_seg_loop.simps) (simp add: z zero_mem_table_def Let_def)
    then show thesis using that s1(3,4) s2 none keeps_trans by (simp add: log_index_next_free_seg_def)
  next
    case new
    note m = snap_active[OF inv new(1)]
    have nw: "LOG_INDEX_MEM_TBL_IS_NEW ?m" "free_head ?m = 1" using m(5)[OF new(2)] by (simp_all add: LOG_INDEX_MEM_TBL_IS_NEW_def)
    let ?s = "put_table s ?a (?m\<lparr>tbl_data := (tbl_data ?m)\<lparr>prefix_lsn := ucast (drop_bit 32 l)\<rparr>, free_head := Suc (free_head ?m)\<rparr>)"
    have "room env ?s H l (free_head ?m)"
      using room_same[OF inv new(1), of "(tbl_data ?m)\<lparr>prefix_lsn := ucast (drop_bit 32 l)\<rparr>" "ucast (drop_bit 32 l)" l] new(2) nw(2)
      by (simp add: LOG_INDEX_MEM_TBL_SEG_NUM_def)
    moreover have "next_free_seg_loop env others s l None ?a = Some (Inr (free_head ?m, ?a, ?s))"
      using m(1) nw by (subst next_free_seg_loop.simps) (simp add: Let_def)
    ultimately show thesis using that[of _ ?a ?s H] new(2) by (simp add: log_index_next_free_seg_def keeps_def)
  next
    case full
    note m = snap_active[OF inv full(1)]
    let ?s1 = "put_table s ?a (?m\<lparr>tbl_state := STATE_INACTIVE\<rparr>)"
    let ?i = "length H mod ?n"
    obtain h where h: "length H = Suc h" using full(1) by (cases H) auto
    have i: "LOOP_NEXT_VALUE ?a ?n = ?i" "?i \<noteq> ?a"
      using rd(1) a h mod_slot_eq[of h ?n "Suc h"] by (auto simp: LOOP_NEXT_VALUE_mod mod_Suc_eq)
    have ne: "\<forall>L\<in>set H. L \<noteq> []"
      using rd(8) full(1,2) by (metis Un_iff append_butlast_last_id hist_ok_def list.set(1,2) set_append singletonD)
    obtain s2 where s2: "log_index_wait_active env others ?s1 ?i l = Some (Inr s2)" "ring_ok env s2 (H @ [[]]) (length H)"
      "keeps ?s1 s2" "mem_table s2 ?i = zero_mem_table\<lparr>tbl_data := zero_table\<lparr>idx_table_id := Suc (length H),
         tbl_min_lsn := UINT64_MAX, prefix_lsn := ucast (drop_bit 32 l)\<rparr>, free_head := 1, tbl_state := STATE_ACTIVE\<rparr>"
      using wait_active_ok[OF close_active[OF inv full(1)] env ne L prog oth, of l] by auto
    let ?s3 = "s2\<lparr>active_table := ?i\<rparr>"
    obtain s4 where s4: "next_free_seg_loop env others ?s3 l (Some ?i) ?i = Some (Inr (1, ?i, s4))" "room env s4 (H @ [[]]) l 1"
      "keeps ?s3 s4" "active_table s4 = ?i"
      using next_free_seg_fresh[of env ?s3 H l others "Some ?i" ?i] s2 by (auto simp: keeps_def)
    have "next_free_seg_loop env others s l None ?a = Some (Inr (1, ?i, s4))"
      using m(1,6) full s2(1) s4(1) i(1) by (subst next_free_seg_loop.simps) (simp add: Let_def)
    moreover have "keeps s s4" using s2(3) s4(3) by (auto simp: keeps_def)
    ultimately show thesis using that s4 i(2) by (simp add: log_index_next_free_seg_def)
  next
    case free
    note m = snap_active[OF inv free(1)]
    let ?s = "put_table s ?a (?m\<lparr>tbl_data := tbl_data ?m, free_head := Suc (free_head ?m)\<rparr>)"
    have fh: "free_head ?m < LOG_INDEX_MEM_TBL_SEG_NUM" "free_head ?m \<noteq> 0"
      using tbl_wfD(1,2)[OF m(4)] free(3) by (simp_all add: LOG_INDEX_MEM_TBL_FULL_def)
    have "room env ?s H l (free_head ?m)" using room_same[OF inv free(1) _ fh(1) free(4)] by simp
    moreover have "next_free_seg_loop env others s l None ?a = Some (Inr (free_head ?m, ?a, ?s))"
      using m(1,6) free fh(2) by (subst next_free_seg_loop.simps) (simp add: Let_def)
    ultimately show thesis using that[of _ ?a ?s H] by (simp add: log_index_next_free_seg_def keeps_def)
  qed
qed

end
