(* ===== verification/Log_Add.thy ===== *)
theory Log_Add
  imports Log_Snapshot_Inv
begin

text \<open>
  Inserting an LSN into a logindex snapshot, on every path of \<open>log_index_insert_lsn\<close>: into the last
  segment of the page, into a new segment of the active table, or into a new table after the full
  one was closed and its slot in the ring was freed.
\<close>

section \<open>The history after an insertion\<close>

definition add_entry :: "log_index_lsn_t list list \<Rightarrow> log_index_lsn_t \<Rightarrow> log_index_lsn_t list list" where
  "add_entry H info = butlast H @ [spec_insert (last H) info]"

lemma concat_add:
  assumes "H \<noteq> []"
  obtains e where "concat (add_entry H info) = concat H @ [e]" "li_tag e = li_tag info" "li_lsn e = li_lsn info"
    "spec_insert (last H) info = last H @ [e]"
    "page_log (li_tag info) (last H) = [] \<Longrightarrow> li_prev_lsn e = li_prev_lsn info"
proof -
  have "concat H = concat (butlast H) @ last H"
    using append_butlast_last_id[OF assms] by (metis append_Nil2 concat.simps concat_append)
  then show thesis using that by (simp add: add_entry_def spec_insert_def)
qed

lemma hist_add:
  assumes H: "hist_ok H" "H \<noteq> []" and nx: "next_lsn H (li_tag info) (li_lsn info)" and prev: "li_prev_lsn info = InvalidXLogRecPtr"
  shows "hist_ok (add_entry H info)"
proof -
  obtain e where e: "concat (add_entry H info) = concat H @ [e]" "li_tag e = li_tag info" "li_lsn e = li_lsn info"
    "spec_insert (last H) info = last H @ [e]"
    "page_log (li_tag info) (last H) = [] \<Longrightarrow> li_prev_lsn e = li_prev_lsn info"
    using concat_add[OF H(2)] by metis
  have "no_prev (last H)" using H by (simp add: hist_ok_def)
  then have np: "no_prev (last H @ [e])"
    using e(2,5) prev by (auto simp: no_prev_def page_log_def hd_append)
  have "sorted (map li_lsn (concat H @ [e]))" using H(1) nx e(3) by (auto simp: hist_ok_def sorted_append next_lsn_def)
  moreover have "page_sorted (concat H @ [e])"
    using H(1) nx e(2,3) by (auto simp: hist_ok_def page_sorted_def page_log_def sorted_wrt_append next_lsn_def)
  moreover have "\<forall>L\<in>set (add_entry H info). no_prev L"
    using H np e(4) by (auto simp: add_entry_def hist_ok_def dest: in_set_butlastD)
  ultimately show ?thesis
    using H(1) nx e(1,3) unfolding hist_ok_def e(1) by (auto simp: add_entry_def next_lsn_def)
qed

section \<open>Putting the table back\<close>

lemma ring_replace_last:
  assumes r: "ring_ok env s H (length H - 1)" and H: "H \<noteq> []" "hist_ok (butlast H @ [L])"
  defines "a \<equiv> (length H - 1) mod mem_tbl_size s"
  assumes m: "LOG_INDEX_MEM_TBL_TID m = length H" "tbl_state m = STATE_ACTIVE" "tbl_holds (tbl_data m) L"
    "max_tight (tbl_data m) L"
  shows "ring_ok env (put_table s a m) (butlast H @ [L]) (length H - 1)"
proof -
  let ?k = "length H - 1" and ?n = "mem_tbl_size s" and ?H = "butlast H @ [L]"
  note rd = ring_okD[OF r]
  have k: "?k < length H" using H(1) by simp
  have len: "length ?H = length H" using H(1) by simp
  have nth: "?H ! j = H ! j" if "j < ?k" for j using that by (simp add: nth_append nth_butlast)
  have store: "store_inv (io_env.truncate env) (store s) ?H"
    using rd(5) k nth by (intro store_inv_cong[OF rd(9)]) auto
  have slots: "slot_ok ?n ?H (saved_tables s) ?k i (((mem_table s)(a := m)) i)" if "i < ?n" for i
  proof (cases "i = a")
    case True
    then show ?thesis using m rd(5) len k by (auto simp: slot_ok_def state_of_def a_def nth_append intro!: exI[of _ ?k])
  next
    case False
    then have "j < ?k" if "j < length H" "j mod ?n = i" for j using that a_def by (cases "j = ?k") auto
    then show ?thesis using rd(10)[OF that] False nth len by (fastforce simp: slot_ok_def)
  qed
  have tids: "LOG_INDEX_MEM_TBL_TID (((mem_table s)(a := m)) (j mod ?n)) = Suc j" if j: "saved_tables s \<le> j" "j < length H" for j
  proof (cases "j mod ?n = a")
    case True
    have "j = ?k" using rd(11)[OF j, unfolded True] rd(11)[OF rd(5) k, folded a_def] by (simp only: nat.inject)
    then show ?thesis using m(1) True k by simp
  next
    case False
    then show ?thesis using rd(11)[OF j] by simp
  qed
  show ?thesis using rd(1-7) H(2) store slots tids len by (simp add: ring_ok_def del: fun_upd_apply)
qed

lemma insert_finish:
  assumes r: "ring_ok env s H (length H - 1)" and H: "H \<noteq> []" and a: "active_table s = (length H - 1) mod mem_tbl_size s"
  defines "m \<equiv> mem_table s (active_table s)"
  assumes ins: "inserted page_hash (free_head m) (tbl_data m) info t'"
    and nx: "next_lsn H (li_tag info) (li_lsn info)" and prev: "li_prev_lsn info = InvalidXLogRecPtr"
  defines "s' \<equiv> update_lsn_bounds (put_table s (active_table s) (m\<lparr>tbl_data := t'\<rparr>)) (active_table s) (li_lsn info)"
  shows "snap_inv env s' (add_entry H info)" "keeps s s'"
proof -
  let ?k = "length H - 1" and ?l = "li_lsn info"
  have k: "?k < length H" using H by simp
  note rd = ring_okD[OF r]
  have tid: "LOG_INDEX_MEM_TBL_TID m = Suc ?k" using rd(11)[OF rd(5) k] a by (simp add: m_def)
  note rt = ring_table[OF r k, folded a, folded m_def, OF tid]
  let ?t = "t'\<lparr>tbl_max_lsn := max ?l (tbl_max_lsn t'), tbl_min_lsn := min ?l (tbl_min_lsn t')\<rparr>"
  let ?m = "m\<lparr>tbl_data := ?t\<rparr>"
  have i: "tbl_wf page_hash (free_head m) t'" "tbl_log t' = spec_insert (last H) info" "idx_table_id t' = Suc ?k"
    "tbl_min_lsn t' = tbl_min_lsn (tbl_data m)" "tbl_max_lsn t' = tbl_max_lsn (tbl_data m)"
    using ins rt(2) tid H by (auto simp: inserted_def tbl_holds_def last_conv_nth)
  have c: "tbl_wf page_hash (free_head m) ?t" "tbl_log ?t = spec_insert (last H) info"
    using i(1,2) same_contents[of ?t t'] by simp_all
  have hold: "tbl_holds ?t (spec_insert (last H) info)"
    using c rt(2) i(4,5) H by (auto simp: tbl_holds_def spec_insert_def last_conv_nth le_max_iff_disj min_le_iff_disj)
  have tight: "max_tight ?t (spec_insert (last H) info)"
    using rt(3)[OF rd(5)] i(5) H by (auto simp: max_tight_def spec_insert_def last_conv_nth)
  have s': "s' = (put_table s (active_table s) ?m)\<lparr>snap_max_lsn := tbl_max_lsn ?t\<rparr>"
    by (simp add: s'_def update_lsn_bounds_def Let_def)
  have "ring_ok env (put_table s (active_table s) ?m) (add_entry H info) ?k"
    using ring_replace_last[OF r H, of "spec_insert (last H) info" ?m] hist_add[OF rd(8) H nx prev] hold tight i(3) rt(1) rd(5) a H
    by (simp add: add_entry_def state_of_def)
  then have "ring_ok env s' (add_entry H info) (length (add_entry H info) - 1)"
    using H by (simp add: s' add_entry_def ring_ok_def)
  moreover have "active_table s' = (length (add_entry H info) - 1) mod mem_tbl_size s'" "mem_table s' (active_table s') = ?m"
    using a H by (simp_all add: s' add_entry_def)
  moreover have "last (add_entry H info) \<noteq> []" by (simp add: add_entry_def spec_insert_def)
  ultimately show "snap_inv env s' (add_entry H info)" using c(1) by (simp add: snap_inv_def Let_def)
  show "keeps s s'" by (simp add: s' keeps_def)
qed

section \<open>Insertion\<close>

lemma tbl_wf_unique:
  assumes "tbl_wf th n t" "tbl_wf th n' t"
  shows "n = n'"
proof -
  have "\<not> a < b" if "tbl_wf th a t" "tbl_wf th b t" for a b
  proof
    assume "a < b"
    with that have "seg_ok th t b a" "slot t a = Seg_zero" using tbl_wfD(1,3)[OF that(1)] tbl_wfD(4)[OF that(2)] by blast+
    then show False by (simp add: seg_ok.simps)
  qed
  then show ?thesis using assms by (metis nat_neq_iff)
qed

lemma find_head_log:
  assumes "tbl_wf th n t"
  shows "find_head t n page = 0 \<longleftrightarrow> page_log page (tbl_log t) = []"
  using page_log_empty[OF assms] page_log_last(1)[OF assms refl] by blast

lemma room_active:
  assumes "room env s H l dst"
  defines "m \<equiv> mem_table s (active_table s)"
  shows "H \<noteq> []" "tbl_wf page_hash dst (tbl_data m)" "LOG_INDEX_SAME_TABLE_LSN_PREFIX (tbl_data m) l"
    "tbl_log (tbl_data m) = last H"
proof -
  have H: "H \<noteq> []" and r: "ring_ok env s H (length H - 1)" and a: "active_table s = (length H - 1) mod mem_tbl_size s"
    and m: "tbl_wf page_hash dst (tbl_data m)" "LOG_INDEX_SAME_TABLE_LSN_PREFIX (tbl_data m) l"
    using assms(1) by (auto simp: room_def m_def Let_def)
  have k: "length H - 1 < length H" using H by simp
  have "LOG_INDEX_MEM_TBL_TID (mem_table s ((length H - 1) mod mem_tbl_size s)) = Suc (length H - 1)"
    by (rule ring_okD(11)[OF r ring_okD(5)[OF r] k])
  from ring_table(2)[OF r k this] show "tbl_log (tbl_data m) = last H"
    using H a by (simp add: tbl_holds_def m_def last_conv_nth)
qed (use assms(1) in \<open>auto simp: room_def m_def Let_def\<close>)

text \<open>The new entry goes to the segment that was set aside, as the first one of its page or not.\<close>

lemma insert_at_room:
  assumes rm: "room env s H (li_lsn info) dst" and nx: "next_lsn H (li_tag info) (li_lsn info)"
    and prev: "li_prev_lsn info = InvalidXLogRecPtr" and key: "key = LOG_INDEX_MEM_TBL_HASH_PAGE page_hash (li_tag info)"
  defines "m \<equiv> mem_table s (active_table s)"
  assumes new: "new \<longleftrightarrow> page_log (li_tag info) (tbl_log (tbl_data m)) = []"
    and hd: "\<not> new \<Longrightarrow> find_head (tbl_data m) dst (li_tag info) = h \<and> log_index_mem_seg_full m h = Inr True"
  obtains s' where "rbind (insert_at_dst m new h key dst info) (\<lambda>m.
      Inr (update_lsn_bounds (put_table s (active_table s) m) (active_table s) (li_lsn info))) = Inr s'"
    "snap_inv env s' (add_entry H info)" "keeps s s'"
proof -
  have r: "H \<noteq> []" "ring_ok env s H (length H - 1)" "active_table s = (length H - 1) mod mem_tbl_size s"
    and m: "tbl_wf page_hash dst (tbl_data m)" "free_head m = Suc dst" "dst < LOG_INDEX_MEM_TBL_SEG_NUM"
      "LOG_INDEX_SAME_TABLE_LSN_PREFIX (tbl_data m) (li_lsn info)"
    using rm by (auto simp: room_def m_def Let_def)
  obtain t' where t': "insert_at_dst m new h key dst info = Inr (m\<lparr>tbl_data := t'\<rparr>)"
    "inserted page_hash (Suc dst) (tbl_data m) info t'"
  proof (cases new)
    case True
    then have "find_head (tbl_data m) dst (li_tag info) = 0" using new find_head_log[OF m(1)] by simp
    then show thesis using insert_new_item_ok[OF m(1,3) _ m(4)] that True key by metis
  next
    case False
    then have "h \<noteq> 0" using new find_head_log[OF m(1)] hd by metis
    then show thesis using insert_new_seg_ok[OF m(1,3) _ _ _ m(4)] that False hd[OF False] by metis
  qed
  note fin = insert_finish[OF r(2,1,3), folded m_def, OF _ nx prev, of t', unfolded m(2), OF t'(2)]
  show thesis using that[OF _ fin] t'(1) by simp
qed

text \<open>The search for the page in the active table.\<close>

lemma find_active:
  fixes page l
  assumes inv: "snap_inv env s H"
  defines "m \<equiv> mem_table s (active_table s)"
  defines "known \<equiv> H \<noteq> [] \<and> LOG_INDEX_SAME_TABLE_LSN_PREFIX (tbl_data m) l \<and> page_log page (last H) \<noteq> []"
  obtains h where "(if tbl_state m = STATE_ACTIVE \<and> LOG_INDEX_SAME_TABLE_LSN_PREFIX (tbl_data m) l
      then log_index_mem_tbl_exists_page page (tbl_data m) (LOG_INDEX_MEM_TBL_HASH_PAGE page_hash page)
      else Some (Inr LOG_INDEX_TBL_INVALID_SEG)) = Some (Inr h)"
    "h \<noteq> 0 \<longleftrightarrow> known" "known \<Longrightarrow> find_head (tbl_data m) (free_head m) page = h"
proof (cases "H = []")
  case True
  then have "slot_ok (mem_tbl_size s) [] (saved_tables s) 0 0 m"
    using inv ring_okD(1,10)[of env s "[]" 0] by (auto simp: snap_inv_def m_def)
  then have "tbl_state m = STATE_FREE" by (simp add: slot_ok_def split: if_splits)
  then show thesis using that[of 0] True by (simp add: known_def)
next
  case False
  note ma = snap_active[OF inv False, folded m_def]
  have "tbl_log (tbl_data m) = last H" using ma(2) by (simp add: tbl_holds_def)
  then have fh: "0 < find_head (tbl_data m) (free_head m) page \<longleftrightarrow> page_log page (last H) \<noteq> []"
    using find_head_log[OF ma(4), of page] by auto
  show thesis
  proof (cases "LOG_INDEX_SAME_TABLE_LSN_PREFIX (tbl_data m) l")
    case True
    then show thesis using that exists_page_find[OF ma(4)] fh ma(1) False by (simp add: known_def)
  next
    case f: False
    then show thesis using that[of 0] by (simp add: known_def)
  qed
qed

lemma insert_lsn_ok:
  assumes inv: "snap_inv env s H" and env: "env_ok env" and nx: "next_lsn H (li_tag info) (li_lsn info)"
    and prev: "li_prev_lsn info = InvalidXLogRecPtr" and key: "key = LOG_INDEX_MEM_TBL_HASH_PAGE page_hash (li_tag info)"
    and prog: "flush_progress env (li_lsn info)" and oth: "others_ok env others"
  obtains s' H' where "log_index_insert_lsn env others s info key = Some (Inr s')" "snap_inv env s' (add_entry H' info)"
    "keeps s s'" "H' = H \<and> H \<noteq> [] \<or> H' = H @ [[]]"
proof -
  let ?a = "active_table s" and ?l = "li_lsn info" and ?page = "li_tag info"
  define m where "m = mem_table s ?a"
  obtain h where h: "(if tbl_state m = STATE_ACTIVE \<and> LOG_INDEX_SAME_TABLE_LSN_PREFIX (tbl_data m) ?l
      then log_index_mem_tbl_exists_page ?page (tbl_data m) key else Some (Inr LOG_INDEX_TBL_INVALID_SEG)) = Some (Inr h)"
    "h \<noteq> 0 \<longleftrightarrow> H \<noteq> [] \<and> LOG_INDEX_SAME_TABLE_LSN_PREFIX (tbl_data m) ?l \<and> page_log ?page (last H) \<noteq> []"
    "h \<noteq> 0 \<Longrightarrow> find_head (tbl_data m) (free_head m) ?page = h"
    using find_active[OF inv, folded m_def, of ?l ?page] key by metis
  have pl: "li_prev_lsn info < ?l" using nx prev by (simp add: next_lsn_def)
  define full where "full = (if h = 0 then Inr True else log_index_mem_seg_full m h)"
  have step: "log_index_insert_lsn env others s info key = (case full of
      Inl e \<Rightarrow> Some (Inl e)
    | Inr False \<Rightarrow> Some (rbind (insert_append m h info) (\<lambda>m. Inr (update_lsn_bounds (put_table s ?a m) ?a ?l)))
    | Inr True \<Rightarrow> (case log_index_next_free_seg env others s ?l ?a of
        None \<Rightarrow> None
      | Some (Inl e) \<Rightarrow> Some (Inl e)
      | Some (Inr (dst, active', s)) \<Rightarrow>
          if dst = LOG_INDEX_TBL_INVALID_SEG then Some (Inl PANIC)
          else Some (rbind (insert_at_dst (mem_table s active') (h = 0 \<or> active' \<noteq> ?a) h key dst info) (\<lambda>m.
            Inr (update_lsn_bounds (put_table s active' m) active' ?l)))))"
    unfolding log_index_insert_lsn_def Let_def m_def[symmetric] h(1) using pl by (simp add: full_def)
  have known: "tbl_wf page_hash (free_head m) (tbl_data m)" "tbl_log (tbl_data m) = last H" "H \<noteq> []" if "h \<noteq> 0"
    using snap_active(2,4)[OF inv, folded m_def] h(2) that by (auto simp: tbl_holds_def)
  have "\<exists>b. full = Inr b"
    using mem_seg_full_eq[OF known(1)] h(3) find_head_Some[of "tbl_data m" "free_head m" ?page] by (auto simp: full_def)
  then consider (append) "full = Inr False" | (insert) "full = Inr True" by (metis (full_types))
  then show thesis
  proof cases
    case append
    then have h0: "h \<noteq> 0" and nf: "log_index_mem_seg_full m h = Inr False" by (auto simp: full_def split: if_splits)
    have pre: "LOG_INDEX_SAME_TABLE_LSN_PREFIX (tbl_data m) ?l" using h(2) h0 by blast
    have "last (page_log ?page (last H)) \<in> set (page_log ?page (last H))" using h(2) h0 by simp
    then have gt: "li_lsn (last (page_log ?page (tbl_log (tbl_data m)))) < ?l"
      using nx known(2,3)[OF h0] by (auto simp: next_lsn_def page_log_def intro!: bexI[of _ "last H"])
    obtain t' where t': "insert_append m h info = Inr (m\<lparr>tbl_data := t'\<rparr>)" "inserted page_hash (free_head m) (tbl_data m) info t'"
      using insert_append_ok[OF known(1)[OF h0] h(3)[OF h0] h0 nf pre gt] by blast
    have "ring_ok env s H (length H - 1)" "?a = (length H - 1) mod mem_tbl_size s" using inv by (simp_all add: snap_inv_def)
    note fin = insert_finish[OF this(1) known(3)[OF h0] this(2), folded m_def, OF t'(2) nx prev]
    show thesis using that[OF _ fin(1,2)] step append t'(1) known(3)[OF h0] by simp
  next
    case insert
    obtain dst a H' s1 where n: "log_index_next_free_seg env others s ?l ?a = Some (Inr (dst, a, s1))"
      "room env s1 H' ?l dst" "a = active_table s1" "keeps s s1"
      and hc: "H' = H \<and> a = ?a \<and> (last H \<noteq> [] \<longrightarrow> tbl_data (mem_table s1 a) = tbl_data (mem_table s a))
        \<or> H' = H @ [[]] \<and> (H \<noteq> [] \<longrightarrow> a \<noteq> ?a)"
      by (rule next_free_seg_ok[OF inv env _ prog oth]) (use nx in \<open>simp add: next_lsn_def\<close>)
    define m1 where "m1 = mem_table s1 (active_table s1)"
    note rm = room_active[OF n(2), folded m1_def]
    have same: "tbl_data m1 = tbl_data m \<and> a = ?a \<and> H' = H" if "last H' \<noteq> []"
      using hc that n(3) by (auto simp: m1_def m_def)
    have h_iff: "h \<noteq> 0 \<and> a = ?a \<longleftrightarrow> page_log ?page (last H') \<noteq> []"
    proof (cases "last H' = []")
      case True
      then show ?thesis using hc h(2) by (auto simp: page_log_def)
    next
      case False
      then show ?thesis using same[OF False] h(2) rm(1,3) by auto
    qed
    have hdc: "find_head (tbl_data m1) dst ?page = h \<and> log_index_mem_seg_full m1 h = Inr True" if nn: "\<not> (h = 0 \<or> a \<noteq> ?a)"
    proof -
      have "last H' \<noteq> []" using h_iff nn by (auto simp: page_log_def)
      note sm = same[OF this]
      have h0: "h \<noteq> 0" using nn by simp
      have "dst = free_head m" using tbl_wf_unique[of page_hash _ "tbl_data m"] rm(2) known(1)[OF h0] sm by metis
      moreover have "log_index_mem_seg_full m1 h = log_index_mem_seg_full m h"
        unfolding log_index_mem_seg_full_def sm[THEN conjunct1] ..
      ultimately show ?thesis using h(3)[OF h0] sm insert h0 by (simp add: full_def)
    qed
    have newc: "(h = 0 \<or> a \<noteq> ?a) \<longleftrightarrow> page_log ?page (tbl_log (tbl_data m1)) = []" using h_iff rm(4) by auto
    have nx1: "next_lsn H' ?page ?l" using nx hc by (auto simp: next_lsn_def)
    obtain s' where s': "rbind (insert_at_dst m1 (h = 0 \<or> a \<noteq> ?a) h key dst info) (\<lambda>m.
        Inr (update_lsn_bounds (put_table s1 (active_table s1) m) (active_table s1) ?l)) = Inr s'"
      "snap_inv env s' (add_entry H' info)" "keeps s1 s'"
      by (rule insert_at_room[OF n(2) nx1 prev key, folded m1_def, OF newc hdc])
    have "dst \<noteq> LOG_INDEX_TBL_INVALID_SEG" using tbl_wfD(1)[OF rm(2)] by simp
    then have "log_index_insert_lsn env others s info key = Some (Inr s')"
      unfolding step insert n(1) sum.case bool.case option.case prod.case n(3) m1_def[symmetric]
      using s'(1)[unfolded n(3)] by simp
    then show thesis using that[OF _ s'(2)] keeps_trans[OF n(4) s'(3)] hc rm(1) by blast
  qed
qed

section \<open>Results\<close>

text \<open>What a snapshot records, as its users see it: pages and LSNs in the order of insertion.\<close>

definition lsn_log :: "log_index_lsn_t list list \<Rightarrow> (BufferTag \<times> XLogRecPtr) list" where
  "lsn_log H = map (\<lambda>e. (li_tag e, li_lsn e)) (concat H)"

lemma snap_inv_adding [simp]: "snap_inv env (s\<lparr>state_adding := b\<rparr>) H = snap_inv env s H"
proof -
  have "ring_ok env (s\<lparr>state_adding := b\<rparr>) H C = ring_ok env s H C" for C by (simp add: ring_ok_def)
  then show ?thesis by (simp add: snap_inv_def)
qed

lemma lsn_log_add: "H \<noteq> [] \<Longrightarrow> lsn_log (add_entry H info) = lsn_log H @ [(li_tag info, li_lsn info)]"
  by (rule concat_add[of H info]) (simp_all add: lsn_log_def)

lemma add_lsn_ok:
  assumes "snap_inv env s H" "env_ok env" "next_lsn H page l"
    and "state_adding s \<or> start_lsn (meta (store s)) \<le> l \<and> meta_max_lsn (meta (store s)) < l"
    and "flush_progress env l" "others_ok env others"
  shows "\<exists>s' H'. polar_logindex_add_lsn env others s page InvalidXLogRecPtr l = Some (Inr s')
    \<and> snap_inv env s' H' \<and> lsn_log H' = lsn_log H @ [(page, l)] \<and> keeps (s\<lparr>state_adding := True\<rparr>) s'
    \<and> (\<forall>j. j < saved_tables s \<longrightarrow> H' ! j = H ! j) \<and> length H' \<le> Suc (length H)"
proof -
  let ?info = "\<lparr>li_tag = page, li_lsn = l, li_prev_lsn = InvalidXLogRecPtr\<rparr>"
  have prog: "flush_progress env (li_lsn ?info)" using assms(5) by simp
  have inv: "snap_inv env (s\<lparr>state_adding := True\<rparr>) H" using assms(1) by simp
  have nx: "next_lsn H (li_tag ?info) (li_lsn ?info)" and pv: "li_prev_lsn ?info = InvalidXLogRecPtr"
    and key: "LOG_INDEX_MEM_TBL_HASH_PAGE page_hash page = LOG_INDEX_MEM_TBL_HASH_PAGE page_hash (li_tag ?info)"
    using assms(3) by simp_all
  obtain s' H' where i: "log_index_insert_lsn env others (s\<lparr>state_adding := True\<rparr>) ?info
      (LOG_INDEX_MEM_TBL_HASH_PAGE page_hash page) = Some (Inr s')" "snap_inv env s' (add_entry H' ?info)"
    "keeps (s\<lparr>state_adding := True\<rparr>) s'" "H' = H \<and> H \<noteq> [] \<or> H' = H @ [[]]"
    by (rule insert_lsn_ok[OF inv assms(2) nx pv key prog assms(6)])
  have "polar_logindex_add_lsn env others s page InvalidXLogRecPtr l = Some (Inr s')"
  proof (cases "state_adding s")
    case True
    then have eq: "s\<lparr>state_adding := True\<rparr> = s" by (cases s) simp
    show ?thesis using i(1)[unfolded eq] assms(3) True by (simp add: polar_logindex_add_lsn_def next_lsn_def Let_def)
  next
    case False
    then have "\<not> l < start_lsn (meta (store s))" "\<not> l < meta_max_lsn (meta (store s))" "meta_max_lsn (meta (store s)) \<noteq> l"
      using assms(4) by auto
    then show ?thesis using i(1) assms(3) False by (simp add: polar_logindex_add_lsn_def next_lsn_def Let_def)
  qed
  moreover have "lsn_log (add_entry H' ?info) = lsn_log H @ [(page, l)]"
  proof -
    have "H' \<noteq> []" "concat H' = concat H" using i(4) by auto
    then show ?thesis using lsn_log_add[of H' ?info] by (simp add: lsn_log_def)
  qed
  moreover have "add_entry H' ?info ! j = H ! j" if "j < saved_tables s" for j
    using i(4) that assms(1) by (auto simp: snap_inv_def add_entry_def nth_append nth_butlast dest!: ring_okD(5))
  moreover have "length (add_entry H' ?info) \<le> Suc (length H)" using i(4) by (auto simp: add_entry_def)
  ultimately show ?thesis using i(2,3) by blast
qed

text \<open>C10. Adding an LSN to a snapshot refines appending to a log. From a state of the primary that
  satisfies the invariant for a history, \<open>polar_logindex_add_lsn\<close> of an LSN that is next for its page
  returns without an error, whether the active table has room, is full or has another LSN prefix, and
  whether the next slot of the ring is free, saved or has to be saved first. The callback of the
  snapshot may refuse to have this table saved any number of times, and the process waits as long as
  it does; the call returns because from some question on the callback accepts the tables whose LSNs
  are at most the new one. While the process waits the others may save tables. The operating system
  reports no failure. The new state satisfies the invariant for a history whose log is the old one
  with the page and the LSN at its end.\<close>

theorem add_lsn_refines:
  assumes "snap_inv env s H" "env_ok env" "next_lsn H page l"
    and "state_adding s \<or> start_lsn (meta (store s)) \<le> l \<and> meta_max_lsn (meta (store s)) < l"
    and "flush_progress env l" "others_ok env others"
  shows "\<exists>s' H'. polar_logindex_add_lsn env others s page InvalidXLogRecPtr l = Some (Inr s')
    \<and> snap_inv env s' H' \<and> lsn_log H' = lsn_log H @ [(page, l)]"
  using add_lsn_ok[OF assms] by blast

end
