(* ===== verification/Log_Flush.thy ===== *)
theory Log_Flush
  imports Log_Add
begin

text \<open>
  Saving full tables in the background, and the start of a snapshot on an empty directory. The loop
  of \<open>log_index_flush_table\<close> ends, since each turn that goes on has saved a table or was refused by the
  callback of the snapshot, which does not refuse for ever.
\<close>

section \<open>Flushing\<close>

lemma snap_saves:
  assumes inv: "snap_inv env s H" and r: "ring_ok env s' H (length H - 1)" and sv: "saves s s'"
  shows "snap_inv env s' H"
proof -
  have s': "active_table s' = active_table s" "mem_tbl_size s' = mem_tbl_size s" using sv by (simp_all add: saves_def keeps_def)
  have "mem_table s' (active_table s) = mem_table s (active_table s)" if "H \<noteq> []"
    using snap_active(1)[OF inv that] sv by (simp add: saves_def)
  then show ?thesis using inv r s' by (auto simp: snap_inv_def Let_def)
qed

text \<open>Whether there are closed tables that are not saved.\<close>

lemma behind_eq:
  assumes inv: "snap_inv env s H"
  shows "LOG_INDEX_MEM_TBL_TID (mem_table s (active_table s)) > saved_tables s + 1 \<longleftrightarrow> saved_tables s < length H - 1"
proof (cases "H = []")
  case True
  then have "slot_ok (mem_tbl_size s) [] (saved_tables s) 0 0 (mem_table s (active_table s))"
    using inv ring_okD(1,10)[of env s "[]" 0] by (auto simp: snap_inv_def)
  then show ?thesis using True by (simp add: slot_ok_def zero_mem_table_def zero_table_def split: if_splits)
next
  case False
  then show ?thesis using snap_active(3)[OF inv False] by auto
qed

text \<open>One turn saves the next closed table if the callback accepts it.\<close>

lemma flush_one_ok:
  assumes r: "ring_ok env s H C" and env: "env_ok env"
  defines "m \<equiv> mem_table s (saved_tables s mod mem_tbl_size s)"
  defines "acc \<equiv> saved_tables s < C \<and> table_flushable env (asked s) m"
  obtains s' where "flush_one env s False (saved_tables s mod mem_tbl_size s) n =
      Some (Inr (Some (s', if acc then Suc n else n)))"
    "ring_ok env s' H C" "saves s s'" "saved_tables s' = (if acc then Suc (saved_tables s) else saved_tables s)"
    "asked s' = (if saved_tables s < C then Suc (asked s) else asked s)"
    "saved_tables s < C \<longrightarrow> max_tight (tbl_data m) (H ! saved_tables s)"
proof -
  let ?mid = "saved_tables s mod mem_tbl_size s" and ?M = "saved_tables s"
  note rd = ring_okD[OF r]
  show thesis
  proof (cases "?M < C")
    case True
    have len: "?M < length H" using True rd(6) by simp
    note mt = ring_table[OF r len rd(11)[OF le_refl len], folded m_def]
    have st: "tbl_state m = STATE_INACTIVE" and tight: "max_tight (tbl_data m) (H ! ?M)"
      using mt(1,3) True by (simp_all add: state_of_def)
    show thesis
    proof (cases "table_flushable env (asked s) m")
      case fl: True
      obtain st' t' where w: "log_index_write_table (io_env.truncate env) (store s) (flush_active_table s) m =
          Some (Inr (True, st', m\<lparr>tbl_data := t', tbl_state := STATE_FLUSHED\<rparr>))"
        "ring_ok env (put_table (s\<lparr>store := st'\<rparr>) ?mid (m\<lparr>tbl_data := t', tbl_state := STATE_FLUSHED\<rparr>)) H C"
        "saves s (put_table (s\<lparr>store := st'\<rparr>) ?mid (m\<lparr>tbl_data := t', tbl_state := STATE_FLUSHED\<rparr>))"
        "meta_max_idx_table_id (meta st') = Suc ?M"
        unfolding m_def by (rule save_table_ok[OF r env True])
      let ?s = "(put_table (s\<lparr>store := st'\<rparr>) ?mid (m\<lparr>tbl_data := t', tbl_state := STATE_FLUSHED\<rparr>))\<lparr>asked := Suc (asked s)\<rparr>"
      have "flush_one env s False ?mid n = Some (Inr (Some (?s, Suc n)))"
        using w(1) st fl rd(3) by (simp add: flush_one_def log_index_table_saved_before_promote_def m_def[symmetric] Let_def)
      then show thesis using that[of ?s] True fl w(2-4) tight by (simp add: acc_def)
    next
      case fl: False
      then have "flush_one env s False ?mid n = Some (Inr (Some (s\<lparr>asked := Suc (asked s)\<rparr>, n)))"
        using st by (simp add: flush_one_def m_def[symmetric] Let_def)
      then show thesis using that True fl r tight by (simp add: acc_def)
    qed
  next
    case False
    have "tbl_state m \<noteq> STATE_INACTIVE"
    proof
      assume i: "tbl_state m = STATE_INACTIVE"
      have "slot_ok (mem_tbl_size s) H ?M C ?mid m" using rd(1,10) by (simp add: m_def)
      then show False using i False by (auto simp: slot_ok_def state_of_def split: if_splits)
    qed
    then have "flush_one env s False ?mid n = Some (Inr (Some (s, n)))" by (simp add: flush_one_def m_def[symmetric] Let_def)
    then show thesis using that False r by (simp add: acc_def)
  qed
qed

text \<open>What the background process does in one turn is allowed while another process waits.\<close>

definition bg_turn :: "snap_env \<Rightarrow> log_index_snapshot_t \<Rightarrow> log_index_snapshot_t" where
  "bg_turn env s = (case flush_one env s False (saved_tables s mod mem_tbl_size s) 0 of
     Some (Inr (Some (s', _))) \<Rightarrow> s' | _ \<Rightarrow> s)"

lemma bg_turn_ok:
  assumes env: "env_ok env"
  shows "others_ok env (bg_turn env)"
proof -
  have "ring_ok env (bg_turn env s) H C \<and> saves s (bg_turn env s) \<and> asked s \<le> asked (bg_turn env s)"
    if r: "ring_ok env s H C" for s H C
    by (rule flush_one_ok[OF r env, of 0]) (simp add: bg_turn_def)
  then show ?thesis unfolding others_ok_def by blast
qed

lemma flush_table_loop_ok:
  assumes env: "env_ok env" and L: "\<forall>e\<in>set (concat H). li_lsn e \<le> L" and prog: "flush_progress env L"
  shows "snap_inv env s H \<Longrightarrow> \<exists>s'. flush_table_loop env s c False (saved_tables s mod mem_tbl_size s) n =
      Some (Inr (\<not> saved_tables s' < length H - 1, s'))
    \<and> snap_inv env s' H \<and> saves s s'
    \<and> (saved_tables s < length H - 1 \<and> XLogRecPtrIsInvalid c \<and> n < polar_logindex_table_batch_size env
         \<longrightarrow> saved_tables s < saved_tables s')"
proof -
  obtain q where q: "\<And>k m. q \<le> k \<Longrightarrow> polar_logindex_mem_table_max_lsn m \<le> L \<Longrightarrow> table_flushable env k m"
    using prog unfolding flush_progress_def by blast
  show "snap_inv env s H \<Longrightarrow> ?thesis"
  proof (induction "(length H - saved_tables s) + (q - asked s)" arbitrary: s n rule: less_induct)
    case less
    let ?m = "mem_table s (saved_tables s mod mem_tbl_size s)"
    let ?acc = "saved_tables s < length H - 1 \<and> table_flushable env (asked s) ?m"
    let ?n1 = "if ?acc then Suc n else n"
    have r: "ring_ok env s H (length H - 1)" using less.prems by (simp add: snap_inv_def)
    obtain s1 where s1: "flush_one env s False (saved_tables s mod mem_tbl_size s) n = Some (Inr (Some (s1, ?n1)))"
      "ring_ok env s1 H (length H - 1)" "saves s s1" "saved_tables s1 = (if ?acc then Suc (saved_tables s) else saved_tables s)"
      "asked s1 = (if saved_tables s < length H - 1 then Suc (asked s) else asked s)"
      and tight: "saved_tables s < length H - 1 \<longrightarrow> max_tight (tbl_data ?m) (H ! saved_tables s)"
      by (rule flush_one_ok[OF r env, of n])
    note inv1 = snap_saves[OF less.prems s1(2,3)]
    define go where "go = (saved_tables s1 < length H - 1 \<and>
      (if XLogRecPtrIsInvalid c then ?n1 < polar_logindex_table_batch_size env
       else c > meta_max_lsn (meta (store s1))
         \<and> \<not> (c \<ge> tbl_min_lsn (tbl_data (mem_table s1 (active_table s1))) \<and> c \<le> tbl_max_lsn (tbl_data (mem_table s1 (active_table s1))))))"
    have step: "flush_table_loop env s c False (saved_tables s mod mem_tbl_size s) n =
        (if go then flush_table_loop env s1 c False (saved_tables s1 mod mem_tbl_size s1) ?n1
         else Some (Inr (\<not> saved_tables s1 < length H - 1, s1)))"
      using behind_eq[OF inv1] by (subst flush_table_loop.simps) (simp only: s1(1) go_def Let_def option.case sum.case prod.case)
    show ?case
    proof (cases go)
      case True
      then have lt: "saved_tables s < length H - 1" using s1(4) by (auto simp: go_def split: if_splits)
      have "asked s < q" if "\<not> ?acc"
      proof -
        have "polar_logindex_mem_table_max_lsn ?m \<le> L" by (rule max_tight_le[OF tight[rule_format, OF lt] _ L]) (use lt in simp)
        then show ?thesis using q[of "asked s" ?m] that lt by (meson not_le)
      qed
      then have "(length H - saved_tables s1) + (q - asked s1) < (length H - saved_tables s) + (q - asked s)"
        using s1(4,5) lt by (cases ?acc) auto
      from less.hyps[OF this inv1, of ?n1] obtain s' where s': "flush_table_loop env s1 c False (saved_tables s1 mod mem_tbl_size s1) ?n1 =
          Some (Inr (\<not> saved_tables s' < length H - 1, s'))" "snap_inv env s' H" "saves s1 s'"
        "saved_tables s1 < length H - 1 \<and> XLogRecPtrIsInvalid c \<and> ?n1 < polar_logindex_table_batch_size env
         \<longrightarrow> saved_tables s1 < saved_tables s'" by blast
      have "saved_tables s < saved_tables s'" if "XLogRecPtrIsInvalid c"
        using s'(4) that True s1(4) by (auto simp: go_def split: if_splits)
      then show ?thesis using step True s'(1,2) saves_trans[OF s1(3) s'(3)] by auto
    next
      case False
      then have "saved_tables s < saved_tables s1"
        if "saved_tables s < length H - 1 \<and> XLogRecPtrIsInvalid c \<and> n < polar_logindex_table_batch_size env"
        using that s1(4) by (auto simp: go_def split: if_splits)
      then show ?thesis using step False inv1 s1(3) by auto
    qed
  qed
qed

lemma bg_write_returns:
  assumes "snap_inv env s H" "env_ok env" "state_adding s" "\<forall>e\<in>set (concat H). li_lsn e \<le> L" "flush_progress env L"
  shows "\<exists>done s'. polar_logindex_bg_write env s = Some (Inr (done, s')) \<and> snap_inv env s' H \<and> saves s s'
    \<and> (saved_tables s < length H - 1 \<and> 0 < polar_logindex_table_batch_size env \<longrightarrow> saved_tables s < saved_tables s')
    \<and> (done \<longleftrightarrow> \<not> saved_tables s' < length H - 1)"
proof -
  have "state_writable s" using assms(1) unfolding snap_inv_def by (blast dest: ring_okD(2))
  then show ?thesis
    using flush_table_loop_ok[OF assms(2,4,5,1), of InvalidXLogRecPtr 0] assms(3)
    by (auto simp: polar_logindex_bg_write_def log_index_flush_table_def)
qed

text \<open>C12. Flushing the logindex of the primary ends without an error: \<open>polar_logindex_bg_write\<close> of a
  snapshot that satisfies the invariant returns, the history of the snapshot is the same and the
  invariant still holds. The active table and the position of the ring do not change. The callback of
  the snapshot may refuse tables any number of times, and the loop asks again; it ends because from
  some question on the callback accepts the tables with LSNs up to \<open>L\<close>, and no LSN in the history is
  beyond \<open>L\<close>. The operating system reports no failure. If there are closed tables that are not saved
  and the batch size is not 0, at least one of them is saved, and the result tells whether all
  closed tables are saved.\<close>

theorem bg_write_ok:
  assumes "snap_inv env s H" "env_ok env" "state_adding s" "\<forall>e\<in>set (concat H). li_lsn e \<le> L" "flush_progress env L"
  shows "\<exists>done s'. polar_logindex_bg_write env s = Some (Inr (done, s')) \<and> snap_inv env s' H \<and> saves s s'
    \<and> (saved_tables s < length H - 1 \<and> 0 < polar_logindex_table_batch_size env \<longrightarrow> saved_tables s < saved_tables s')
    \<and> (done \<longleftrightarrow> \<not> saved_tables s' < length H - 1)"
  using bg_write_returns[OF assms] .

end
