(* ===== verification/Log_Read.thy ===== *)
theory Log_Read
  imports Log_Flush
begin

text \<open>
  Reading a saved table through \<open>log_index_read_table\<close>: from its slot in memory, from the segment this
  process read last, or from its segment file; the result is what was saved, whichever of the
  conditional locks are granted.
\<close>

lemma store_inv_cache:
  assumes "store_inv env st H" "cache_ok c H (meta_max_idx_table_id (meta st))"
  shows "store_inv env (st\<lparr>table_cache := c\<rparr>) H"
proof -
  note mi = store_invD[OF assms(1)]
  have "stored env (st\<lparr>table_cache := c\<rparr>) k es = stored env st k es" for k es
    by (simp add: stored_def log_index_get_tbl_bloom_def)
  then show ?thesis by (intro store_invI) (use mi assms(2) in auto)
qed

text \<open>A saved table takes the place of another one in memory.\<close>

lemma ring_put_saved:
  assumes r: "ring_ok env s H C" and k: "k < saved_tables s"
    and m: "tbl_state m = STATE_FLUSHED" "LOG_INDEX_MEM_TBL_TID m = Suc k" "tbl_holds (tbl_data m) (H ! k)"
    and old: "tbl_state (mem_table s (k mod mem_tbl_size s)) = STATE_FLUSHED"
  shows "ring_ok env (put_table s (k mod mem_tbl_size s) m) H C"
proof -
  let ?mid = "k mod mem_tbl_size s"
  note rd = ring_okD[OF r]
  have "slot_ok (mem_tbl_size s) H (saved_tables s) C i (((mem_table s)(?mid := m)) i)" if "i < mem_tbl_size s" for i
  proof (cases "i = ?mid")
    case True
    have "k < length H" using k rd(5,6) by linarith
    then show ?thesis using m k True by (auto simp: slot_ok_def state_of_def intro!: exI[of _ k])
  next
    case False
    then show ?thesis using rd(10)[OF that] by simp
  qed
  moreover have "LOG_INDEX_MEM_TBL_TID (((mem_table s)(?mid := m)) (j mod mem_tbl_size s)) = Suc j"
    if j: "saved_tables s \<le> j" "j < length H" for j
  proof -
    have "tbl_state (mem_table s (j mod mem_tbl_size s)) \<noteq> STATE_FLUSHED"
      using ring_table(1)[OF r j(2) rd(11)[OF j]] j(1) by (simp add: state_of_def)
    then have "j mod mem_tbl_size s \<noteq> ?mid" using old by auto
    then show ?thesis using rd(11)[OF j] by simp
  qed
  ultimately show ?thesis using rd by (simp add: ring_ok_def del: fun_upd_apply)
qed

lemma cache_okD:
  assumes "cache_ok c H M" "cache_valid c" "cache_min_idx_table_id c \<le> Suc k" "Suc k \<le> cache_max_idx_table_id c"
  shows "idx_table_id (cache_data c ! (Suc k - cache_min_idx_table_id c)) = Suc k"
    "tbl_holds (cache_data c ! (Suc k - cache_min_idx_table_id c)) (H ! k)"
proof -
  have "\<forall>k. cache_min_idx_table_id c \<le> k \<and> k \<le> cache_max_idx_table_id c \<longrightarrow>
      idx_table_id (cache_data c ! (k - cache_min_idx_table_id c)) = k
      \<and> tbl_holds (cache_data c ! (k - cache_min_idx_table_id c)) (H ! (k - 1))"
    using assms(1,2) by (simp add: cache_ok_def Let_def)
  from this[rule_format, of "Suc k"]
  show "idx_table_id (cache_data c ! (Suc k - cache_min_idx_table_id c)) = Suc k"
    "tbl_holds (cache_data c ! (Suc k - cache_min_idx_table_id c)) (H ! k)"
    using assms(3,4) by simp_all
qed

lemma read_cached:
  assumes inv: "store_inv env st H" and io: "io_ok env"
    and k: "seg_min_idx_table_id (min_segment_info (meta st)) \<le> Suc k" "k < meta_max_idx_table_id (meta st)"
  defines "c \<equiv> table_cache st"
  obtains c' where "(if \<not> cache_valid c \<or> Suc k < cache_min_idx_table_id c \<or> Suc k > cache_max_idx_table_id c
      then (case log_index_read_seg_file env st (LOG_INDEX_FILE_TABLE_SEGMENT_NO (Suc k)) of
              Some (Inr cache) \<Rightarrow> Inr cache
            | Some (Inl e) \<Rightarrow> Inl (log_index_report_io_error e)
            | None \<Rightarrow> Inl FATAL)
      else Inr c) = Inr c'" "cache_ok c' H (meta_max_idx_table_id (meta st))"
    "cache_min_idx_table_id c' \<le> Suc k" "Suc k \<le> cache_max_idx_table_id c'"
    "idx_table_id (cache_data c' ! (Suc k - cache_min_idx_table_id c')) = Suc k"
    "tbl_holds (cache_data c' ! (Suc k - cache_min_idx_table_id c')) (H ! k)"
proof -
  let ?M = "meta_max_idx_table_id (meta st)"
  obtain c' where c': "(if \<not> cache_valid c \<or> Suc k < cache_min_idx_table_id c \<or> Suc k > cache_max_idx_table_id c
      then (case log_index_read_seg_file env st (LOG_INDEX_FILE_TABLE_SEGMENT_NO (Suc k)) of
              Some (Inr cache) \<Rightarrow> Inr cache
            | Some (Inl e) \<Rightarrow> Inl (log_index_report_io_error e)
            | None \<Rightarrow> Inl FATAL)
      else Inr c) = Inr c'" "cache_ok c' H ?M" "cache_valid c'"
    "cache_min_idx_table_id c' \<le> Suc k" "Suc k \<le> cache_max_idx_table_id c'"
  proof (cases "\<not> cache_valid c \<or> Suc k < cache_min_idx_table_id c \<or> Suc k > cache_max_idx_table_id c")
    case True
    obtain c' where "log_index_read_seg_file env st (k div 64) = Some (Inr c')" "cache_ok c' H ?M" "cache_valid c'"
      "cache_min_idx_table_id c' \<le> Suc k" "Suc k \<le> cache_max_idx_table_id c'"
      by (rule read_seg_file_ok[OF inv io k])
    then show thesis using that True by (simp add: table_place)
  next
    case False
    then show thesis using that store_invD(7)[OF inv] by (simp add: c_def)
  qed
  show thesis by (rule that[OF c'(1,2,4,5) cache_okD[OF c'(2-5)]])
qed

lemma read_table_ok:
  assumes inv: "snap_inv env s H" and env: "env_ok env" and k: "first_kept s \<le> Suc k" "k < saved_tables s"
  obtains b t s' where "log_index_read_table (io_env.truncate env) s (Suc k) sh ex = Inr (b, t, s')"
    "tbl_holds t (H ! k)" "snap_inv env s' H" "saves s s'" "meta (store s') = meta (store s)"
    "bloom_pages (store s') = bloom_pages (store s)"
proof -
  let ?io = "io_env.truncate env" and ?mid = "k mod mem_tbl_size s"
  let ?m = "mem_table s ?mid"
  have r: "ring_ok env s H (length H - 1)" using inv by (simp add: snap_inv_def)
  note rd = ring_okD[OF r]
  have io: "io_ok ?io" using env by (simp add: env_ok_def)
  have kl: "k < length H" using k(2) rd(5,6) by simp
  have slot: "tid_slot s (Suc k) = ?mid" by (simp add: tid_slot_def tid_pred_def)
  show thesis
  proof (cases "sh \<and> tbl_state ?m = STATE_FLUSHED \<and> Suc k = LOG_INDEX_MEM_TBL_TID ?m")
    case True
    have "log_index_read_table ?io s (Suc k) sh ex = Inr (True, tbl_data ?m, s)"
      unfolding log_index_read_table_def Let_def slot if_P[OF True] ..
    moreover have "tbl_holds (tbl_data ?m) (H ! k)" by (rule ring_table(2)[OF r kl]) (use True in simp)
    ultimately show thesis by (rule that) (use inv in simp_all)
  next
    case False
    obtain c where c: "(if \<not> cache_valid (table_cache (store s)) \<or> Suc k < cache_min_idx_table_id (table_cache (store s))
          \<or> Suc k > cache_max_idx_table_id (table_cache (store s))
        then (case log_index_read_seg_file ?io (store s) (LOG_INDEX_FILE_TABLE_SEGMENT_NO (Suc k)) of
                Some (Inr cache) \<Rightarrow> Inr cache
              | Some (Inl e) \<Rightarrow> Inl (log_index_report_io_error e)
              | None \<Rightarrow> Inl FATAL)
        else Inr (table_cache (store s))) = Inr c" "cache_ok c H (saved_tables s)"
      "cache_min_idx_table_id c \<le> Suc k" "Suc k \<le> cache_max_idx_table_id c"
      "idx_table_id (cache_data c ! (Suc k - cache_min_idx_table_id c)) = Suc k"
      "tbl_holds (cache_data c ! (Suc k - cache_min_idx_table_id c)) (H ! k)"
      by (rule read_cached[OF rd(9) io k])
    let ?t = "cache_data c ! (Suc k - cache_min_idx_table_id c)"
    let ?s1 = "s\<lparr>store := (store s)\<lparr>table_cache := c\<rparr>\<rparr>"
    define s2 where "s2 = (if ex \<and> tbl_state ?m = STATE_FLUSHED \<and> Suc k \<noteq> LOG_INDEX_MEM_TBL_TID ?m
      then put_table ?s1 ?mid (?m\<lparr>tbl_data := ?t\<rparr>) else ?s1)"
    have run: "log_index_read_table ?io s (Suc k) sh ex = Inr (False, ?t, s2)"
      unfolding log_index_read_table_def Let_def slot c(1) if_not_P[OF False] using c(3,4) by (simp add: s2_def)
    have r1: "ring_ok env ?s1 H (length H - 1)"
      using rd store_inv_cache[OF rd(9) c(2)] by (simp add: ring_ok_def)
    have r2: "ring_ok env s2 H (length H - 1)"
      using r1 ring_put_saved[OF r1, of k "?m\<lparr>tbl_data := ?t\<rparr>"] k(2) c(5,6) by (auto simp: s2_def)
    have sv: "saves s s2" by (auto simp: s2_def saves_def keeps_def)
    show thesis using that[OF run c(6) snap_saves[OF inv r2 sv] sv] by (simp add: s2_def)
  qed
qed

end
