(* ===== verification/Log_Page_Search.thy ===== *)
theory Log_Page_Search
  imports Log_Page_Iter Log_Read
begin

text \<open>
  A page iterator over all tables of a snapshot: first the ones in memory, then the ones on storage,
  from the newest to the oldest. What it returns are exactly the entries of the page in the range.
\<close>

section \<open>The state of a search\<close>

text \<open>
  The tables from the number \<open>k\<close> on were searched; \<open>T\<close> is what the iterator has to return in the end.
\<close>

definition older :: "BufferTag \<Rightarrow> log_index_lsn_t list list \<Rightarrow> nat \<Rightarrow> log_index_lsn_t list" where
  "older page H k = page_log page (concat (take k H))"

definition searching ::
    "log_index_lsn_t list list \<Rightarrow> BufferTag \<Rightarrow> XLogRecPtr \<Rightarrow> XLogRecPtr \<Rightarrow> (XLogRecPtr \<times> XLogRecPtr) list
      \<Rightarrow> nat \<Rightarrow> log_index_page_iter_data_t \<Rightarrow> bool" where
  "searching H page mn mx T k iter \<longleftrightarrow> search_inv mn mx (older page H k) iter \<and> it_tag iter = page
     \<and> it_key iter = LOG_INDEX_MEM_TBL_HASH_PAGE page_hash page
     \<and> pairs (filter (in_range mn mx) (older page H k)) @ collected iter = T"

lemma older_Suc: "k < length H \<Longrightarrow> older page H (Suc k) = older page H k @ page_log page (H ! k)"
  by (simp add: older_def page_log_def take_Suc_conv_app_nth)

lemma older_in: "e \<in> set (older page H k) \<Longrightarrow> k \<le> length H \<Longrightarrow> \<exists>j<k. e \<in> set (H ! j)"
  by (auto simp: older_def page_log_def in_set_conv_nth[of _ "take k H"]) blast

lemma search_inv_mono: "search_inv mn mx (R @ P) iter \<Longrightarrow> search_inv mn mx R iter"
  by (auto simp: search_inv_def)

lemma searching_finish:
  assumes "searching H page mn mx T k iter" "\<forall>e\<in>set (older page H k). li_lsn e < mn"
  shows "collected iter = T" "j \<le> k \<Longrightarrow> searching H page mn mx T j (iter\<lparr>it_state := ITERATE_STATE_FINISHED\<rparr>)"
proof -
  have "filter (in_range mn mx) (older page H k) = []"
    using assms(2) by (auto simp: filter_empty_conv in_range_def not_le)
  then show c: "collected iter = T" using assms(1) by (simp add: searching_def pairs_def)
  assume "j \<le> k"
  then have sub: "set (older page H j) \<subseteq> set (older page H k)"
    by (auto simp: older_def page_log_def dest: set_take_subset_set_take[THEN subsetD, rotated])
  then have "filter (in_range mn mx) (older page H j) = []"
    using assms(2) by (auto simp: filter_empty_conv in_range_def not_le dest!: subsetD)
  then show "searching H page mn mx T j (iter\<lparr>it_state := ITERATE_STATE_FINISHED\<rparr>)"
    using assms sub c by (auto simp: searching_def search_inv_def pairs_def collected_def)
qed

text \<open>A table without entries of the page in the range.\<close>

lemma searching_skip:
  assumes "searching H page mn mx T (Suc k) iter" "k < length H"
    and "\<forall>e\<in>set (page_log page (H ! k)). \<not> in_range mn mx e"
  shows "searching H page mn mx T k iter"
proof -
  have "filter (in_range mn mx) (page_log page (H ! k)) = []" using assms(3) by (simp add: filter_empty_conv)
  then show ?thesis
    using assms(1) search_inv_mono unfolding searching_def older_Suc[OF assms(2)] by (auto simp: pairs_def)
qed

lemma searching_push:
  assumes s: "searching H page mn mx T (Suc k) iter" and H: "hist_ok H" "k < length H"
    and t: "tbl_holds t (H ! k)" and st: "it_state iter = ITERATE_STATE_FORWARD"
  obtains iter' where "log_index_push_tbl_lsn iter t = Some (Inr iter')" "searching H page mn mx T k iter'"
    "same_search iter' iter"
proof -
  let ?P = "page_log page (H ! k)"
  obtain n where wf: "tbl_wf page_hash n t" and lg: "tbl_log t = H ! k" using t by (auto simp: tbl_holds_def)
  have it: "it_tag iter = page" "it_key iter = LOG_INDEX_MEM_TBL_HASH_PAGE page_hash page"
    and inv: "search_inv mn mx (older page H k @ ?P) iter"
    and T: "pairs (filter (in_range mn mx) (older page H k @ ?P)) @ collected iter = T"
    using s unfolding searching_def older_Suc[OF H(2)] by auto
  have "sorted_wrt (<) (map li_lsn (page_log page (concat H)))" using H(1) by (simp add: hist_ok_def page_sorted_def)
  then have srt: "sorted_wrt (<) (map li_lsn (older page H k @ ?P))"
    using concat_split[OF H(2)] by (simp add: older_def page_log_def sorted_wrt_append)
  have lim: "\<forall>e\<in>set ?P. li_lsn e < - 1"
    using H by (auto simp: hist_ok_def page_log_def)
  obtain iter' where "log_index_push_tbl_lsn iter t = Some (Inr iter')" "search_inv mn mx (older page H k) iter'"
    "collected iter' = pairs (filter (in_range mn mx) ?P) @ collected iter" "same_search iter' iter"
    using push_tbl_lsn_spec[OF wf, of ?P iter mn mx "older page H k"] hist_table(2)[OF H] it inv st srt lim lg by auto
  then show thesis using that it T by (auto simp: searching_def same_search_def pairs_def)
qed

text \<open>A table whose largest LSN is below the range ends the search.\<close>

lemma older_below:
  assumes H: "hist_ok H" "Suc k < length H" and m: "\<forall>e\<in>set (H ! k). li_lsn e \<le> b" and b: "b < mn"
  shows "\<forall>e\<in>set (older page H (Suc k)). li_lsn e < mn"
proof
  fix e assume "e \<in> set (older page H (Suc k))"
  then obtain j where j: "j < Suc k" "e \<in> set (H ! j)" using older_in H(2) by (metis less_imp_le)
  obtain f where f: "f \<in> set (H ! k)" using hist_table(3)[OF H(1) _ H(2)] H(2) by (cases "H ! k") auto
  have "li_lsn e \<le> b"
    using j m hist_le[OF H(1), of j k e f] f H(2) by (cases "j = k") (auto intro: order_trans)
  then show "li_lsn e < mn" using b by simp
qed

section \<open>The tables in memory\<close>

lemma tid_slot_Suc [simp]: "tid_slot s (Suc k) = k mod mem_tbl_size s"
  by (simp add: tid_slot_def tid_pred_def)

lemma prev_slot:
  assumes "0 < n"
  shows "LOOP_PREV_VALUE (Suc j mod n) n = j mod n"
proof (cases "Suc j mod n = 0")
  case True
  then show ?thesis using assms by (simp add: LOOP_PREV_VALUE_def mod_Suc split: if_splits)
next
  case False
  then show ?thesis using assms by (simp add: LOOP_PREV_VALUE_def mod_Suc split: if_splits)
qed

lemma mem_table_turn:
  assumes inv: "snap_inv env s H" and k: "k < length H"
    and tid: "LOG_INDEX_MEM_TBL_TID (mem_table s (k mod mem_tbl_size s)) = Suc k"
    and sr: "searching H page mn mx T (Suc k) iter" and st: "it_state iter = ITERATE_STATE_FORWARD"
  defines "m \<equiv> mem_table s (k mod mem_tbl_size s)"
  obtains iter' where "(case log_index_table_in_range iter m of (ok, iter) \<Rightarrow>
      if ok then log_index_push_tbl_lsn iter (tbl_data m) else Some (Inr iter)) = Some (Inr iter')"
    "searching H page mn mx T k iter'" "same_search iter' iter"
proof -
  have r: "ring_ok env s H (length H - 1)" using inv by (simp add: snap_inv_def)
  note H = ring_okD(8)[OF r] and rt = ring_table[OF r k tid, folded m_def]
  have it: "it_min_lsn iter = mn" "it_max_lsn iter = mx" using sr by (simp_all add: searching_def search_inv_def)
  have bounds: "\<forall>e\<in>set (H ! k). tbl_min_lsn (tbl_data m) \<le> li_lsn e \<and> li_lsn e \<le> tbl_max_lsn (tbl_data m)"
    using rt(2) by (simp add: tbl_holds_def)
  have "log_index_table_in_range iter m = (True, iter)
    \<or> log_index_table_in_range iter m = (False, iter) \<and> tbl_min_lsn (tbl_data m) > mx
    \<or> log_index_table_in_range iter m = (False, iter\<lparr>it_state := ITERATE_STATE_FINISHED\<rparr>)
        \<and> tbl_max_lsn (tbl_data m) < mn \<and> tbl_state m \<noteq> STATE_ACTIVE"
    by (simp add: log_index_table_in_range_def it)
  then consider (push) "log_index_table_in_range iter m = (True, iter)"
    | (above) "log_index_table_in_range iter m = (False, iter)" "tbl_min_lsn (tbl_data m) > mx"
    | (below) "log_index_table_in_range iter m = (False, iter\<lparr>it_state := ITERATE_STATE_FINISHED\<rparr>)"
        "tbl_max_lsn (tbl_data m) < mn" "tbl_state m \<noteq> STATE_ACTIVE"
    by blast
  then show thesis
  proof cases
    case push
    then show thesis using searching_push[OF sr H k rt(2) st] that by auto
  next
    case above
    have "\<forall>e\<in>set (page_log page (H ! k)). \<not> in_range mn mx e"
      using bounds above(2) by (auto simp: page_log_def in_range_def not_le intro: less_le_trans)
    from searching_skip[OF sr k this] show thesis using that above(1) by simp
  next
    case below
    have "Suc k < length H" using rt(1) below(3) k ring_okD(5)[OF r] by (auto simp: state_of_def split: if_splits)
    from searching_finish(2)[OF sr older_below[OF H this _ below(2)], of k] bounds
    show thesis using that below(1) by (simp add: same_search_def)
  qed
qed

lemma push_mem_loop_ok:
  assumes inv: "snap_inv env s H"
  shows "k \<le> length H \<Longrightarrow> searching H page mn mx T k iter \<Longrightarrow> it_state iter = ITERATE_STATE_FORWARD \<Longrightarrow>
    mid = tid_slot s k \<or> k = 0 \<Longrightarrow>
    \<exists>k' iter'. push_mem_loop s iter mid k = Some (Inr (k', iter')) \<and> searching H page mn mx T k' iter'
      \<and> k' \<le> length H \<and> same_search iter' iter \<and> (it_state iter' = ITERATE_STATE_FORWARD \<longrightarrow> k' \<le> saved_tables s)"
proof (induction k arbitrary: iter mid)
  case 0
  then show ?case by auto
next
  case (Suc k)
  have r: "ring_ok env s H (length H - 1)" using inv by (simp add: snap_inv_def)
  note rd = ring_okD[OF r]
  let ?m = "mem_table s (k mod mem_tbl_size s)"
  have mid: "mid = k mod mem_tbl_size s" using Suc.prems(4) by simp
  have k: "k < length H" using Suc.prems(1) by simp
  show ?case
  proof (cases "Suc k = LOG_INDEX_MEM_TBL_TID ?m \<and> tbl_state ?m \<noteq> STATE_FREE")
    case True
    then have tid: "LOG_INDEX_MEM_TBL_TID ?m = Suc k" by simp
    obtain iter1 where i1: "(case log_index_table_in_range iter ?m of (ok, iter) \<Rightarrow>
        if ok then log_index_push_tbl_lsn iter (tbl_data ?m) else Some (Inr iter)) = Some (Inr iter1)"
      "searching H page mn mx T k iter1" "same_search iter1 iter"
      by (rule mem_table_turn[OF inv k tid Suc.prems(2,3)])
    have step: "push_mem_loop s iter mid (Suc k) = (if it_state iter1 = ITERATE_STATE_FORWARD
        then push_mem_loop s iter1 (LOOP_PREV_VALUE mid (mem_tbl_size s)) k else Some (Inr (k, iter1)))"
      unfolding push_mem_loop.simps Let_def mid if_P[OF True] using i1(1) by (simp split: prod.splits if_splits)
    have "LOOP_PREV_VALUE mid (mem_tbl_size s) = tid_slot s k \<or> k = 0"
      using rd(1) by (cases k) (auto simp: mid prev_slot)
    then show ?thesis
      using step Suc.IH[OF less_imp_le[OF k] i1(2)] i1(2,3) k same_search_trans by fastforce
  next
    case False
    have "Suc k \<le> saved_tables s"
    proof (rule ccontr)
      assume "\<not> Suc k \<le> saved_tables s"
      then have M: "saved_tables s \<le> k" by simp
      have "tbl_state ?m \<noteq> STATE_FREE"
        using ring_table(1)[OF r k rd(11)[OF M k]] by (simp add: state_of_def)
      then show False using False rd(11)[OF M k] by simp
    qed
    moreover have "push_mem_loop s iter mid (Suc k) = Some (Inr (Suc k, iter))"
      unfolding push_mem_loop.simps Let_def mid if_not_P[OF False] ..
    ultimately show ?thesis using Suc.prems(1,2) by simp
  qed
qed

section \<open>The tables on storage\<close>

lemma push_file_one_ok:
  assumes inv: "snap_inv env s H" and env: "env_ok env" and k: "first_kept s \<le> Suc k" "k < saved_tables s"
    and sr: "searching H page mn mx T (Suc k) iter" and st: "it_state iter = ITERATE_STATE_FORWARD"
  obtains s' iter' where "push_file_one (io_env.truncate env) flags s iter (Suc k) = Some (Inr (s', iter'))"
    "snap_inv env s' H" "saves s s'" "meta (store s') = meta (store s)" "searching H page mn mx T k iter'"
proof -
  let ?io = "io_env.truncate env" and ?m = "mem_table s (k mod mem_tbl_size s)"
  let ?b = "log_index_get_tbl_bloom (store s) (Suc k)"
  obtain tl sh ex where fl: "flags = (tl, sh, ex)" by (metis prod_cases3)
  have r: "ring_ok env s H (length H - 1)" using inv by (simp add: snap_inv_def)
  note rd = ring_okD[OF r]
  have kl: "k < length H" "Suc k < length H" using k(2) rd(5,6) by linarith+
  have it: "it_min_lsn iter = mn" "it_tag iter = page" using sr by (simp_all add: searching_def search_inv_def)
  show thesis
  proof (cases "tl \<and> tbl_state ?m = STATE_FLUSHED \<and> Suc k = LOG_INDEX_MEM_TBL_TID ?m")
    case True
    have "tbl_holds (tbl_data ?m) (H ! k)" by (rule ring_table(2)[OF r kl(1)]) (use True in simp)
    then obtain iter' where "log_index_push_tbl_lsn iter (tbl_data ?m) = Some (Inr iter')" "searching H page mn mx T k iter'"
      using searching_push[OF sr rd(8) kl(1) _ st] by metis
    moreover from this(1) have "push_file_one ?io flags s iter (Suc k) = Some (Inr (s, iter'))"
      unfolding push_file_one_def Let_def fl prod.case tid_slot_Suc if_P[OF True] by simp
    ultimately show thesis using that inv by simp
  next
    case False
    have bl: "bloom_covers ?io ?b (Suc k) (H ! k)" using store_invD(5)[OF rd(9) k] by (simp add: stored_def)
    note step = push_file_one_def[of ?io flags s iter "Suc k", unfolded Let_def fl prod.case tid_slot_Suc if_not_P[OF False]]
    show thesis
    proof (cases "bloom_max_lsn ?b < mn")
      case True
      have "push_file_one ?io flags s iter (Suc k) = Some (Inr (s, iter\<lparr>it_state := ITERATE_STATE_FINISHED\<rparr>))"
        using bl True by (simp add: step fl log_index_check_bloom_not_exists_def bloom_covers_def it Let_def)
      moreover have "searching H page mn mx T k (iter\<lparr>it_state := ITERATE_STATE_FINISHED\<rparr>)"
        using searching_finish(2)[OF sr older_below[OF rd(8) kl(2) _ True], of k] bl by (simp add: bloom_covers_def)
      ultimately show thesis using that inv by simp
    next
      case nf: False
      define lacks where "lacks = bloom_lacks_element True
        (polar_bloom_init_struct (rint_log ?io) (bloom_bytes ?b) LOG_INDEX_BLOOM_ELEMS_NUM 0) (tag_bytes page)"
      have ck: "log_index_check_bloom_not_exists ?io s iter (Suc k) = Inr (lacks, iter)"
        using bl nf by (simp add: log_index_check_bloom_not_exists_def bloom_covers_def it lacks_def Let_def)
      show thesis
      proof (cases lacks)
        case True
        then have "\<forall>e\<in>set (page_log page (H ! k)). \<not> in_range mn mx e"
          using bl by (auto simp: bloom_covers_def lacks_def page_log_def)
        from searching_skip[OF sr kl(1) this] show thesis using that inv True ck by (simp add: step fl)
      next
        case nl: False
        obtain b t s' where rt: "log_index_read_table ?io s (Suc k) sh ex = Inr (b, t, s')"
          "tbl_holds t (H ! k)" "snap_inv env s' H" "saves s s'" "meta (store s') = meta (store s)"
          by (rule read_table_ok[OF inv env k])
        obtain iter' where "log_index_push_tbl_lsn iter t = Some (Inr iter')" "searching H page mn mx T k iter'"
          using searching_push[OF sr rd(8) kl(1) rt(2) st] by metis
        then show thesis using that rt nl ck st by (simp add: step fl)
      qed
    qed
  qed
qed

text \<open>The tables that are gone from storage have no LSN in the range.\<close>

lemma push_file_loop_ok:
  assumes env: "env_ok env"
  shows "snap_inv env s H \<Longrightarrow> k \<le> saved_tables s \<Longrightarrow> searching H page mn mx T k iter \<Longrightarrow>
    it_state iter = ITERATE_STATE_FORWARD \<or> it_state iter = ITERATE_STATE_FINISHED \<Longrightarrow>
    (\<And>j e. Suc j < first_kept s \<Longrightarrow> e \<in> set (H ! j) \<Longrightarrow> li_lsn e < mn) \<Longrightarrow>
    \<exists>s' iter'. push_file_loop (io_env.truncate env) lk (first_kept s) s iter k = Some (Inr (s', iter'))
      \<and> snap_inv env s' H \<and> saves s s' \<and> collected iter' = T \<and> it_tag iter' = page
      \<and> (\<forall>ts\<in>set (lsn_stack iter'). filling (stack_items ts))"
proof (induction k arbitrary: s iter)
  case 0
  have "collected iter = T" using searching_finish(1)[OF 0(3)] by (simp add: older_def page_log_def)
  then show ?case using 0(1,3) by (auto simp: searching_def search_inv_def)
next
  case (Suc k)
  have len: "Suc k \<le> length H"
    using Suc.prems(1,2) by (auto simp: snap_inv_def dest!: ring_okD(5))
  show ?case
  proof (cases "first_kept s \<le> Suc k \<and> it_state iter = ITERATE_STATE_FORWARD")
    case True
    obtain s1 iter1 where s1: "push_file_one (io_env.truncate env) (lk (Suc k)) s iter (Suc k) = Some (Inr (s1, iter1))"
      "snap_inv env s1 H" "saves s s1" "meta (store s1) = meta (store s)" "searching H page mn mx T k iter1"
      using push_file_one_ok[OF Suc.prems(1) env _ _ Suc.prems(3)] True Suc.prems(2) by (metis Suc_le_lessD)
    have "it_state iter1 = ITERATE_STATE_FORWARD \<or> it_state iter1 = ITERATE_STATE_FINISHED"
      using s1(5) by (auto simp: searching_def search_inv_def)
    then have "\<exists>s' iter'. push_file_loop (io_env.truncate env) lk (first_kept s1) s1 iter1 k = Some (Inr (s', iter'))
      \<and> snap_inv env s' H \<and> saves s1 s' \<and> collected iter' = T \<and> it_tag iter' = page
      \<and> (\<forall>ts\<in>set (lsn_stack iter'). filling (stack_items ts))"
      using Suc.prems(2,5) s1(4) by (intro Suc.IH[OF s1(2) _ s1(5)]) auto
    then show ?thesis using s1(1,4) saves_trans[OF s1(3)] True by auto
  next
    case False
    have "\<forall>e\<in>set (older page H (Suc k)). li_lsn e < mn"
    proof (cases "it_state iter = ITERATE_STATE_FINISHED")
      case True
      then show ?thesis using Suc.prems(3) by (auto simp: searching_def search_inv_def)
    next
      case f: False
      then have lt: "Suc k < first_kept s" using False Suc.prems(4) by auto
      show ?thesis
      proof
        fix e assume "e \<in> set (older page H (Suc k))"
        then obtain j where "j < Suc k" "e \<in> set (H ! j)" using older_in[OF _ len] by blast
        then show "li_lsn e < mn" using Suc.prems(5)[of j e] lt by simp
      qed
    qed
    from searching_finish(1)[OF Suc.prems(3) this]
    show ?thesis using False Suc.prems(1,3) by (auto simp: searching_def search_inv_def)
  qed
qed

lemma create_page_iterator_ok:
  assumes inv: "snap_inv env s H" and env: "env_ok env" and rng: "mn < mx"
    and old: "\<And>j e. Suc j < first_kept s \<Longrightarrow> e \<in> set (H ! j) \<Longrightarrow> li_lsn e < mn"
  obtains s' iter where "polar_logindex_create_page_iterator (io_env.truncate env) lk s page mn mx False = Some (Inr (s', iter))"
    "snap_inv env s' H" "saves s s'" "collected iter = pairs (filter (in_range mn mx) (page_log page (concat H)))"
    "it_tag iter = page" "\<forall>ts\<in>set (lsn_stack iter). filling (stack_items ts)"
proof -
  let ?T = "pairs (filter (in_range mn mx) (page_log page (concat H)))"
  let ?iter = "\<lparr>it_tag = page, it_min_lsn = mn, it_max_lsn = mx, iter_prev_lsn = InvalidXLogRecPtr, iter_max_lsn = mx,
    it_max_idx_table_id = length H, lsn_stack = [], it_key = LOG_INDEX_MEM_TBL_HASH_PAGE page_hash page,
    it_state = ITERATE_STATE_FORWARD\<rparr>"
  have A: "max_idx_table_id s = length H" using inv by (auto simp: snap_inv_def dest: ring_okD(4))
  have "searching H page mn mx ?T (length H) ?iter"
    using rng by (simp add: searching_def search_inv_def older_def collected_def)
  then obtain k iter1 where m: "push_mem_loop s ?iter (tid_slot s (length H)) (length H) = Some (Inr (k, iter1))"
    "searching H page mn mx ?T k iter1" "it_state iter1 = ITERATE_STATE_FORWARD \<Longrightarrow> k \<le> saved_tables s"
    using push_mem_loop_ok[OF inv le_refl, of page mn mx ?T ?iter "tid_slot s (length H)"] by auto
  have st: "it_state iter1 = ITERATE_STATE_FORWARD \<or> it_state iter1 = ITERATE_STATE_FINISHED"
    using m(2) by (auto simp: searching_def search_inv_def)
  show thesis
  proof (cases "it_state iter1 = ITERATE_STATE_FORWARD \<and> k \<noteq> 0")
    case True
    obtain s' iter' where f: "push_file_loop (io_env.truncate env) lk (first_kept s) s iter1 k = Some (Inr (s', iter'))"
      "snap_inv env s' H" "saves s s'" "collected iter' = ?T" "it_tag iter' = page"
      "\<forall>ts\<in>set (lsn_stack iter'). filling (stack_items ts)"
      using push_file_loop_ok[OF env inv m(3) m(2) st, of lk] True old by blast
    have "log_index_check_hollow_table (io_env.truncate env) s iter1 k = Inr (s, meta (store s), iter1)"
      using m(3) True by (simp add: log_index_check_hollow_table_def Let_def)
    then have "polar_logindex_create_page_iterator (io_env.truncate env) lk s page mn mx False =
        Some (Inr (s', iter'\<lparr>it_state := ITERATE_STATE_FINISHED\<rparr>))"
      using rng m(1) True f(1) A
      by (simp add: polar_logindex_create_page_iterator_def log_index_push_mem_tbl_lsn_def log_index_push_file_tbl_lsn_def Let_def)
    then show thesis by (rule that) (use f in \<open>simp_all add: collected_def\<close>)
  next
    case False
    have "\<forall>e\<in>set (older page H k). li_lsn e < mn"
      using False st m(2) by (auto simp: searching_def search_inv_def older_def page_log_def)
    note c = searching_finish(1)[OF m(2) this]
    have "polar_logindex_create_page_iterator (io_env.truncate env) lk s page mn mx False =
        Some (Inr (s, if k = 0 then iter1\<lparr>it_state := ITERATE_STATE_FINISHED\<rparr> else iter1))"
      using rng m(1) False st A
      by (auto simp: polar_logindex_create_page_iterator_def log_index_push_mem_tbl_lsn_def Let_def)
    then show thesis by (rule that) (use c inv m(2) in \<open>auto simp: collected_def searching_def search_inv_def\<close>)
  qed
qed

section \<open>Results\<close>

text \<open>Calling the iterator until it has no more entry.\<close>

fun drain :: "nat \<Rightarrow> log_index_page_iter_data_t \<Rightarrow> log_index_lsn_t list" where
  "drain 0 iter = []"
| "drain (Suc n) iter =
    (case polar_logindex_page_iterator_next iter of
       (None, iter) \<Rightarrow> []
     | (Some e, iter) \<Rightarrow> e # drain n iter)"

definition stack_ok :: "log_index_page_stack_lsn_t \<Rightarrow> bool" where
  "stack_ok stack \<longleftrightarrow> (\<forall>ts\<in>set stack. \<forall>it\<in>set (stack_items ts). item_ok it)"

definition stack_contents :: "log_index_page_stack_lsn_t \<Rightarrow> (XLogRecPtr \<times> XLogRecPtr) list" where
  "stack_contents stack = concat (map (\<lambda>ts. contents (stack_items ts)) stack)"

lemma pop_stack:
  assumes "stack_ok stack"
  shows "stack_contents stack = [] \<Longrightarrow> page_iterator_pop stack = (None, [])"
    "stack_contents stack = e # es \<Longrightarrow>
      \<exists>stack'. page_iterator_pop stack = (Some e, stack') \<and> stack_ok stack' \<and> stack_contents stack' = es"
proof -
  have "(stack_contents stack = [] \<longrightarrow> page_iterator_pop stack = (None, []))
    \<and> (stack_contents stack = e # es \<longrightarrow>
        (\<exists>stack'. page_iterator_pop stack = (Some e, stack') \<and> stack_ok stack' \<and> stack_contents stack' = es))"
    using assms
  proof (induction stack)
    case (Cons ts stack)
    show ?case
    proof (cases "stack_items ts = []")
      case True
      then have "page_iterator_pop (ts # stack) = page_iterator_pop stack" "stack_contents (ts # stack) = stack_contents stack"
        by (simp_all add: stack_contents_def contents_def log_index_tbl_stack_pop_lsn_def)
      then show ?thesis using Cons by (simp add: stack_ok_def)
    next
      case False
      obtain items' where "log_index_tbl_stack_pop_lsn (stack_items ts) = Some (hd (contents (stack_items ts)), items')"
        "contents (stack_items ts) = hd (contents (stack_items ts)) # contents items'" "\<forall>it\<in>set items'. item_ok it"
        by (rule pop_contents[OF _ False]) (use Cons.prems in \<open>simp add: stack_ok_def\<close>)
      then show ?thesis
        using Cons.prems by (cases "contents (stack_items ts)") (auto simp: stack_ok_def stack_contents_def)
    qed
  qed (simp add: stack_contents_def)
  then show "stack_contents stack = [] \<Longrightarrow> page_iterator_pop stack = (None, [])"
    "stack_contents stack = e # es \<Longrightarrow>
      \<exists>stack'. page_iterator_pop stack = (Some e, stack') \<and> stack_ok stack' \<and> stack_contents stack' = es"
    by blast+
qed

lemma drain_collected:
  "stack_ok (lsn_stack iter) \<Longrightarrow> length (collected iter) < n \<Longrightarrow>
    drain n iter = map (\<lambda>(p, l). \<lparr>li_tag = it_tag iter, li_lsn = l, li_prev_lsn = p\<rparr>) (collected iter)"
proof (induction n arbitrary: iter)
  case (Suc n)
  have cs: "collected iter = stack_contents (lsn_stack iter)" by (simp add: collected_def stack_contents_def)
  show ?case
  proof (cases "collected iter")
    case Nil
    then show ?thesis using pop_stack(1)[OF Suc.prems(1)] cs by (simp add: polar_logindex_page_iterator_next_def)
  next
    case (Cons e es)
    obtain stack' where st: "page_iterator_pop (lsn_stack iter) = (Some e, stack')" "stack_ok stack'"
      "stack_contents stack' = es"
      using pop_stack(2)[OF Suc.prems(1)] Cons cs by auto
    have "drain n (iter\<lparr>lsn_stack := stack'\<rparr>) =
        map (\<lambda>(p, l). \<lparr>li_tag = it_tag iter, li_lsn = l, li_prev_lsn = p\<rparr>) es"
      using Suc.IH[of "iter\<lparr>lsn_stack := stack'\<rparr>"] Suc.prems(2) st(2,3) Cons
      by (simp add: collected_def stack_contents_def)
    then show ?thesis
      using Cons st(1) by (cases e) (simp add: polar_logindex_page_iterator_next_def)
  qed
qed simp

lemma page_iterator_drains:
  assumes inv: "snap_inv env s H" and env: "env_ok env" and rng: "mn < mx"
    and old: "\<And>j e. Suc j < first_kept s \<Longrightarrow> e \<in> set (H ! j) \<Longrightarrow> li_lsn e < mn"
  obtains s' iter where "polar_logindex_create_page_iterator (io_env.truncate env) lk s page mn mx False = Some (Inr (s', iter))"
    "snap_inv env s' H" "saves s s'"
    "\<forall>n. length (concat H) < n \<longrightarrow> drain n iter =
       filter (\<lambda>e. li_tag e = page \<and> mn \<le> li_lsn e \<and> li_lsn e \<le> mx) (concat H)"
proof -
  let ?es = "filter (in_range mn mx) (page_log page (concat H))"
  obtain s' iter where c: "polar_logindex_create_page_iterator (io_env.truncate env) lk s page mn mx False = Some (Inr (s', iter))"
    "snap_inv env s' H" "saves s s'" "collected iter = pairs ?es"
    "it_tag iter = page" "\<forall>ts\<in>set (lsn_stack iter). filling (stack_items ts)"
    by (rule create_page_iterator_ok[OF inv env rng old])
  have ok: "stack_ok (lsn_stack iter)" using c(6) by (auto simp: stack_ok_def filling_def)
  have "map (\<lambda>(p, l). \<lparr>li_tag = page, li_lsn = l, li_prev_lsn = p\<rparr>) (pairs ?es) = ?es"
    unfolding pairs_def map_map by (rule map_idI) (auto simp: page_log_def)
  moreover have "?es = filter (\<lambda>e. li_tag e = page \<and> mn \<le> li_lsn e \<and> li_lsn e \<le> mx) (concat H)"
    by (auto simp: page_log_def in_range_def intro!: filter_cong)
  moreover have "length (pairs ?es) \<le> length (concat H)"
    unfolding pairs_def page_log_def length_map by (meson length_filter_le order_trans)
  ultimately show thesis using that[OF c(1-3)] drain_collected[OF ok] c(4,5) by simp
qed

end
