(* ===== verification/Log_Run.thy ===== *)
theory Log_Run
  imports Log_Page_Search
begin

text \<open>
  The logindex of a primary as a whole: a snapshot is started on an empty directory, LSNs are added,
  full tables are flushed in the background and old segments are truncated in any order, and a page
  iterator then returns exactly the LSNs of its page.
\<close>

section \<open>The start\<close>

lemma hist_ok_Nil [simp]: "hist_ok []"
  by (simp add: hist_ok_def page_sorted_def page_log_def)

lemma start_ok:
  assumes env: "env_ok env" and fresh: "meta_file (store s) = None" "\<not> state_initialized s" "2 \<le> mem_tbl_size s"
      "\<not> cache_valid (table_cache (store s))"
    and l: "checkpoint_lsn \<noteq> InvalidXLogRecPtr" "l0 \<noteq> InvalidXLogRecPtr"
  obtains s1 st where "polar_logindex_snapshot_init env others s checkpoint_lsn same_tli False fa = Some (Inr (checkpoint_lsn, s1))"
    "polar_logindex_set_start_lsn (io_env.truncate env) (store s1) l0 = Inr st" "snap_inv env (s1\<lparr>store := st\<rparr>) []"
    "state_adding s1 = state_adding s" "start_lsn (meta st) = l0" "meta_max_lsn (meta st) = 0"
    "seg_min_idx_table_id (min_segment_info (meta st)) = 0"
proof -
  let ?io = "io_env.truncate env"
  let ?st1 = "(store s)\<lparr>meta_file := None, tbl_files := (\<lambda>_. None), meta := zero_meta\<rparr>"
  let ?s1 = "s\<lparr>state_writable := True, store := ?st1, promoted_info := zero_promoted_info, max_idx_table_id := 0,
    active_table := 0, snap_max_lsn := 0, mem_table := (\<lambda>_. zero_mem_table), state_initialized := True, flush_active_table := fa\<rparr>"
  have run: "polar_logindex_snapshot_init env others s checkpoint_lsn same_tli False fa = Some (Inr (checkpoint_lsn, ?s1))"
    using fresh(1,2) l(1)
    by (simp add: polar_logindex_snapshot_init_def polar_logindex_snapshot_base_init_def log_index_get_meta_def
        polar_logindex_snapshot_remove_data_def polar_load_logindex_snapshot_from_storage_def zero_meta_def Let_def)
  have io: "io_ok ?io" using env by (simp add: env_ok_def)
  let ?mt = "zero_meta\<lparr>start_lsn := l0, magic := LOG_INDEX_MAGIC, version := LOG_INDEX_VERSION, meta_crc := 0\<rparr>"
  let ?mt1 = "?mt\<lparr>meta_crc := crc_meta ?io ?mt\<rparr>"
  let ?st = "?st1\<lparr>meta := ?mt1, meta_file := Some ?mt1\<rparr>"
  have set: "polar_logindex_set_start_lsn ?io (store ?s1) l0 = Inr ?st"
    using l(2) io by (simp add: polar_logindex_set_start_lsn_def POLAR_ASSERT_PANIC_def polar_log_index_write_meta_def
        io_ok_def zero_meta_def Let_def)
  have "store_inv ?io ?st []"
    by (rule store_invI) (use fresh(4) in \<open>simp_all add: zero_meta_def min_segment_ok_def cache_ok_def\<close>)
  then have "snap_inv env (?s1\<lparr>store := ?st\<rparr>) []"
    using fresh(3) by (simp add: snap_inv_def ring_ok_def slot_ok_def zero_meta_def zero_promoted_info_def zero_mem_table_def)
  then show thesis using that[OF run set] by (simp add: zero_meta_def)
qed

section \<open>Truncation of a snapshot\<close>

lemma truncate_empty:
  assumes "store_inv io st H" "meta_max_idx_table_id (meta st) = 0"
  shows "polar_logindex_truncate io st l = Some (Inr st)"
proof -
  have "seg_max_lsn (min_segment_info (meta st)) = 0"
    using store_invD(3)[OF assms(1)] assms(2) by (simp add: min_segment_ok_def)
  then have "truncate_loop io st l 0 0 = Some (Inr (st, 0, 0))"
    by (subst truncate_loop.simps) (simp add: Let_def)
  then show ?thesis
    by (simp add: polar_logindex_truncate_def log_index_truncate_def log_index_truncate_bloom_def)
qed

lemma snap_truncate_ok:
  assumes inv: "snap_inv env s H" and env: "env_ok env"
  obtains st where "polar_logindex_truncate (io_env.truncate env) (store s) l = Some (Inr st)" "snap_inv env (s\<lparr>store := st\<rparr>) H"
    "truncated (io_env.truncate env) H l (store s) st" "H = [] \<longrightarrow> st = store s"
proof -
  let ?io = "io_env.truncate env"
  have r: "ring_ok env s H (length H - 1)" using inv by (simp add: snap_inv_def)
  note rd = ring_okD[OF r]
  have io: "io_ok ?io" using env by (simp add: env_ok_def)
  obtain st where st: "polar_logindex_truncate ?io (store s) l = Some (Inr st)" "truncated ?io H l (store s) st"
    "H = [] \<Longrightarrow> st = store s"
  proof (cases "H = []")
    case True
    then have M: "saved_tables s = 0" using rd(5) by simp
    show thesis by (rule that[OF truncate_empty[OF rd(9) M] truncated_refl[OF rd(9)] refl])
  next
    case False
    then have "saved_tables s < length H" using rd(5) by (cases H) auto
    then show thesis using truncate_returns[OF rd(9) io rd(8)] that False by metis
  qed
  have "ring_ok env (s\<lparr>store := st\<rparr>) H (length H - 1)" using rd st(2) by (simp add: ring_ok_def truncated_def)
  then have "snap_inv env (s\<lparr>store := st\<rparr>) H" using inv by (auto simp: snap_inv_def Let_def)
  then show thesis using that st by blast
qed

section \<open>Runs\<close>

text \<open>The operations of the primary on its logindex, in any order.\<close>

datatype log_op = Op_add BufferTag XLogRecPtr | Op_bg_write | Op_truncate XLogRecPtr

fun run_op :: "snap_env \<Rightarrow> (log_index_snapshot_t \<Rightarrow> log_index_snapshot_t) \<Rightarrow> log_op \<Rightarrow> log_index_snapshot_t
    \<Rightarrow> log_index_snapshot_t result option" where
  "run_op env others (Op_add page l) s = polar_logindex_add_lsn env others s page InvalidXLogRecPtr l"
| "run_op env others Op_bg_write s =
     (case polar_logindex_bg_write env s of
        None \<Rightarrow> None | Some (Inl e) \<Rightarrow> Some (Inl e) | Some (Inr (_, s)) \<Rightarrow> Some (Inr s))"
| "run_op env others (Op_truncate l) s =
     (case polar_logindex_truncate (io_env.truncate env) (store s) l of
        None \<Rightarrow> None | Some (Inl e) \<Rightarrow> Some (Inl e) | Some (Inr st) \<Rightarrow> Some (Inr (s\<lparr>store := st\<rparr>)))"

fun run_ops :: "snap_env \<Rightarrow> (log_index_snapshot_t \<Rightarrow> log_index_snapshot_t) \<Rightarrow> log_op list \<Rightarrow> log_index_snapshot_t
    \<Rightarrow> log_index_snapshot_t result option" where
  "run_ops env others [] s = Some (Inr s)"
| "run_ops env others (x # xs) s =
     (case run_op env others x s of
        None \<Rightarrow> None | Some (Inl e) \<Rightarrow> Some (Inl e) | Some (Inr s) \<Rightarrow> run_ops env others xs s)"

fun added :: "log_op list \<Rightarrow> (BufferTag \<times> XLogRecPtr) list" where
  "added [] = []"
| "added (Op_add page l # xs) = (page, l) # added xs"
| "added (_ # xs) = added xs"

text \<open>No truncation goes beyond \<open>mn\<close>.\<close>

definition truncates_to :: "XLogRecPtr \<Rightarrow> log_op list \<Rightarrow> bool" where
  "truncates_to mn ops \<longleftrightarrow> (\<forall>l. Op_truncate l \<in> set ops \<longrightarrow> l \<le> mn)"

text \<open>The order in which records are replayed: the LSNs do not decrease, a page has no LSN twice,
  and none is before the first LSN of the log.\<close>

definition replay_order :: "XLogRecPtr \<Rightarrow> (BufferTag \<times> XLogRecPtr) list \<Rightarrow> bool" where
  "replay_order l0 ps \<longleftrightarrow> sorted_wrt (\<lambda>x y. snd x \<le> snd y \<and> (fst x = fst y \<longrightarrow> snd x < snd y)) ps
     \<and> list_all (\<lambda>x. l0 \<le> snd x \<and> 0 < snd x \<and> snd x < UINT64_MAX) ps"

definition run_inv :: "snap_env \<Rightarrow> XLogRecPtr \<Rightarrow> XLogRecPtr \<Rightarrow> log_index_snapshot_t \<Rightarrow> log_index_lsn_t list list \<Rightarrow> bool" where
  "run_inv env l0 mn s H \<longleftrightarrow> snap_inv env s H
     \<and> (\<forall>j e. Suc j < first_kept s \<longrightarrow> e \<in> set (H ! j) \<longrightarrow> li_lsn e < mn)
     \<and> (state_adding s \<or> H = [] \<and> start_lsn (meta (store s)) = l0 \<and> meta_max_lsn (meta (store s)) = 0)"

lemma replay_next:
  assumes "replay_order l0 (lsn_log H @ (page, l) # ps)"
  shows "next_lsn H page l" "l0 \<le> l"
  using assms by (auto simp: replay_order_def next_lsn_def lsn_log_def sorted_wrt_append)

lemma first_kept_saved:
  assumes "snap_inv env s H" "Suc j < first_kept s"
  shows "j < saved_tables s"
  using store_invD(3)[OF ring_okD(9)] assms unfolding snap_inv_def
  by (fastforce simp: min_segment_ok_def split: if_splits)

lemma keeps_dropped:
  assumes "keeps s s'" "Suc j < first_kept s'"
  shows "Suc j < first_kept s"
  using assms by (auto simp: keeps_def)

lemma run_op_ok:
  assumes inv: "run_inv env l0 mn s H" and env: "env_ok env" and prog: "flush_progress env L" "others_ok env others"
    and ops: "replay_order l0 (lsn_log H @ added (x # xs))" "truncates_to mn [x]"
      "\<forall>x\<in>set (lsn_log H @ added (x # xs)). snd x \<le> L"
  obtains s' H' where "run_op env others x s = Some (Inr s')" "run_inv env l0 mn s' H'"
    "lsn_log H' @ added xs = lsn_log H @ added (x # xs)"
proof -
  have snap: "snap_inv env s H" and old: "\<And>j e. Suc j < first_kept s \<Longrightarrow> e \<in> set (H ! j) \<Longrightarrow> li_lsn e < mn"
    and start: "state_adding s \<or> H = [] \<and> start_lsn (meta (store s)) = l0 \<and> meta_max_lsn (meta (store s)) = 0"
    using inv by (auto simp: run_inv_def)
  show thesis
  proof (cases x)
    case (Op_add page l)
    have nx: "next_lsn H page l" "l0 \<le> l" using replay_next[of l0 H page l "added xs"] ops(1) Op_add by simp_all
    have "state_adding s \<or> start_lsn (meta (store s)) \<le> l \<and> meta_max_lsn (meta (store s)) < l"
      using start nx by (auto simp: next_lsn_def)
    moreover have "flush_progress env l" using ops(3) Op_add by (intro flush_progress_le[OF prog(1)]) simp
    ultimately obtain s' H' where
      a: "polar_logindex_add_lsn env others s page InvalidXLogRecPtr l = Some (Inr s')" "snap_inv env s' H'"
      "lsn_log H' = lsn_log H @ [(page, l)]" and k: "keeps (s\<lparr>state_adding := True\<rparr>) s'"
      and same: "\<forall>j. j < saved_tables s \<longrightarrow> H' ! j = H ! j" using add_lsn_ok[OF snap env nx(1) _ _ prog(2)] by blast
    have "li_lsn e < mn" if "Suc j < first_kept s'" "e \<in> set (H' ! j)" for j e
    proof -
      have "Suc j < first_kept s" using keeps_dropped[OF k that(1)] by simp
      then show ?thesis using old[of j e] same first_kept_saved[OF snap] that(2) by simp
    qed
    moreover have "state_adding s'" using k by (simp add: keeps_def)
    ultimately show thesis using that[of s' H'] a Op_add by (simp add: run_inv_def)
  next
    case Op_bg_write
    show thesis
    proof (cases "state_adding s")
      case True
      have "\<forall>e\<in>set (concat H). li_lsn e \<le> L" using ops(3) by (simp add: lsn_log_def ball_Un)
      from bg_write_returns[OF snap env True this prog(1)] obtain d s' where
        b: "polar_logindex_bg_write env s = Some (Inr (d, s'))" "snap_inv env s' H" and k: "saves s s'" by blast
      have "keeps s s'" using k by (simp add: saves_def)
      then have "run_inv env l0 mn s' H" using b(2) old True keeps_dropped by (auto simp: run_inv_def keeps_def)
      then show thesis using that[of s' H] b(1) Op_bg_write by simp
    next
      case False
      then show thesis using that[of s H] inv Op_bg_write by (simp add: polar_logindex_bg_write_def)
    qed
  next
    case (Op_truncate l)
    have l: "l \<le> mn" using ops(2) Op_truncate by (simp add: truncates_to_def)
    obtain st where t: "polar_logindex_truncate (io_env.truncate env) (store s) l = Some (Inr st)"
      "snap_inv env (s\<lparr>store := st\<rparr>) H" "truncated (io_env.truncate env) H l (store s) st" "H = [] \<longrightarrow> st = store s"
      by (rule snap_truncate_ok[OF snap env, of l])
    have "li_lsn e < mn" if "Suc j < first_kept (s\<lparr>store := st\<rparr>)" "e \<in> set (H ! j)" for j e
    proof (cases "Suc j < first_kept s")
      case True
      then show ?thesis using old that(2) by blast
    next
      case False
      then have "li_lsn e < l" using t(3) that by (auto simp: truncated_def not_less)
      then show ?thesis using l by (rule order.strict_trans2)
    qed
    moreover have "state_adding s \<or> H = [] \<and> start_lsn (meta st) = l0 \<and> meta_max_lsn (meta st) = 0"
      using start t(4) by auto
    ultimately have "run_inv env l0 mn (s\<lparr>store := st\<rparr>) H" using t(2) by (simp add: run_inv_def)
    then show thesis using that[of "s\<lparr>store := st\<rparr>" H] t(1) Op_truncate by simp
  qed
qed

lemma run_ops_ok:
  assumes env: "env_ok env" and prog: "flush_progress env L" "others_ok env others"
  shows "run_inv env l0 mn s H \<Longrightarrow> replay_order l0 (lsn_log H @ added ops) \<Longrightarrow> truncates_to mn ops \<Longrightarrow>
    \<forall>x\<in>set (lsn_log H @ added ops). snd x \<le> L \<Longrightarrow>
    \<exists>s' H'. run_ops env others ops s = Some (Inr s') \<and> run_inv env l0 mn s' H' \<and> lsn_log H' = lsn_log H @ added ops"
proof (induction ops arbitrary: s H)
  case (Cons x xs)
  have t: "truncates_to mn [x]" "truncates_to mn xs" using Cons.prems(3) by (auto simp: truncates_to_def)
  obtain s1 H1 where r: "run_op env others x s = Some (Inr s1)" "run_inv env l0 mn s1 H1"
    "lsn_log H1 @ added xs = lsn_log H @ added (x # xs)"
    by (rule run_op_ok[OF Cons.prems(1) env prog Cons.prems(2) t(1) Cons.prems(4)])
  then show ?case using Cons.IH[OF r(2) _ t(2)] Cons.prems(2,4) by simp
qed auto

section \<open>Results\<close>

lemma run_start:
  assumes "env_ok env" "meta_file (store s) = None" "\<not> state_initialized s" "\<not> state_adding s" "2 \<le> mem_tbl_size s"
      "\<not> cache_valid (table_cache (store s))" "checkpoint_lsn \<noteq> InvalidXLogRecPtr" "l0 \<noteq> InvalidXLogRecPtr"
    and "replay_order l0 (added ops)" "truncates_to mn ops"
    and "\<forall>x\<in>set (added ops). snd x \<le> L" "flush_progress env L" "others_ok env others"
  obtains s1 st s2 H where
    "polar_logindex_snapshot_init env others s checkpoint_lsn same_tli False fa = Some (Inr (checkpoint_lsn, s1))"
    "polar_logindex_set_start_lsn (io_env.truncate env) (store s1) l0 = Inr st"
    "run_ops env others ops (s1\<lparr>store := st\<rparr>) = Some (Inr s2)" "run_inv env l0 mn s2 H" "lsn_log H = added ops"
proof -
  obtain s1 st where i: "polar_logindex_snapshot_init env others s checkpoint_lsn same_tli False fa = Some (Inr (checkpoint_lsn, s1))"
    "polar_logindex_set_start_lsn (io_env.truncate env) (store s1) l0 = Inr st" "snap_inv env (s1\<lparr>store := st\<rparr>) []"
    "state_adding s1 = state_adding s" "start_lsn (meta st) = l0" "meta_max_lsn (meta st) = 0"
    "seg_min_idx_table_id (min_segment_info (meta st)) = 0"
    by (rule start_ok[OF assms(1,2,3,5,6,7,8)])
  have "run_inv env l0 mn (s1\<lparr>store := st\<rparr>) []" using i(3,5,6,7) by (simp add: run_inv_def)
  from run_ops_ok[OF assms(1,12,13) this _ assms(10)] assms(9,11) show thesis
    using that[OF i(1,2)] by (auto simp: lsn_log_def)
qed

text \<open>C1. The logindex of a primary is exact. Start a snapshot on an empty directory, set its start
  LSN and run any sequence of operations on it: LSNs added in replay order, background writes that
  flush tables, and truncations up to an LSN that is not beyond \<open>mn\<close>. The operating system reports no
  failure. The callback that decides whether a table may be saved can refuse any number of times; from
  some question on it accepts the tables with LSNs up to \<open>L\<close>, and no LSN beyond \<open>L\<close> is added. If it
  refuses at all, the other processes only save tables while one waits for it. No operation reports an
  error or waits for ever, and an iterator created afterwards for a page and the range from \<open>mn\<close> to \<open>mx\<close>
  returns exactly the LSNs added for this page in the range, each once and in the order in which they
  were added, wherever the tables with them are now: active, closed or saved to the segment files.\<close>

theorem logindex_exact:
  assumes "env_ok env" "meta_file (store s) = None" "\<not> state_initialized s" "\<not> state_adding s" "2 \<le> mem_tbl_size s"
      "\<not> cache_valid (table_cache (store s))" "checkpoint_lsn \<noteq> InvalidXLogRecPtr" "l0 \<noteq> InvalidXLogRecPtr"
    and "replay_order l0 (added ops)" "truncates_to mn ops" "mn < mx"
    and "\<forall>x\<in>set (added ops). snd x \<le> L" "flush_progress env L" "others_ok env others"
  shows "\<exists>s1 st s2 s3 iter.
    polar_logindex_snapshot_init env others s checkpoint_lsn same_tli False fa = Some (Inr (checkpoint_lsn, s1))
    \<and> polar_logindex_set_start_lsn (io_env.truncate env) (store s1) l0 = Inr st
    \<and> run_ops env others ops (s1\<lparr>store := st\<rparr>) = Some (Inr s2)
    \<and> polar_logindex_create_page_iterator (io_env.truncate env) lk s2 page mn mx False = Some (Inr (s3, iter))
    \<and> (\<forall>n. length (added ops) < n \<longrightarrow>
         map (\<lambda>e. (li_tag e, li_lsn e)) (drain n iter) = filter (\<lambda>(p, l). p = page \<and> mn \<le> l \<and> l \<le> mx) (added ops))"
proof -
  obtain s1 st s2 H where r:
    "polar_logindex_snapshot_init env others s checkpoint_lsn same_tli False fa = Some (Inr (checkpoint_lsn, s1))"
    "polar_logindex_set_start_lsn (io_env.truncate env) (store s1) l0 = Inr st"
    "run_ops env others ops (s1\<lparr>store := st\<rparr>) = Some (Inr s2)" "run_inv env l0 mn s2 H" "lsn_log H = added ops"
    by (rule run_start[OF assms(1-10,12-14)])
  have inv: "snap_inv env s2 H" and old: "\<And>j e. Suc j < first_kept s2 \<Longrightarrow> e \<in> set (H ! j) \<Longrightarrow> li_lsn e < mn"
    using r(4) by (auto simp: run_inv_def)
  obtain s3 iter where c: "polar_logindex_create_page_iterator (io_env.truncate env) lk s2 page mn mx False = Some (Inr (s3, iter))"
    "snap_inv env s3 H" "saves s2 s3" "\<forall>n. length (concat H) < n \<longrightarrow> drain n iter =
       filter (\<lambda>e. li_tag e = page \<and> mn \<le> li_lsn e \<and> li_lsn e \<le> mx) (concat H)"
    by (rule page_iterator_drains[OF inv assms(1,11) old])
  have "length (added ops) = length (concat H)" using r(5) by (metis length_map lsn_log_def)
  moreover have "map (\<lambda>e. (li_tag e, li_lsn e)) (filter (\<lambda>e. li_tag e = page \<and> mn \<le> li_lsn e \<and> li_lsn e \<le> mx) (concat H))
      = filter (\<lambda>(p, l). p = page \<and> mn \<le> l \<and> l \<le> mx) (added ops)"
    unfolding r(5)[symmetric] lsn_log_def by (simp add: filter_map o_def)
  ultimately show ?thesis using r(1,2,3) c(1,4) by (intro exI conjI) auto
qed

section \<open>A sample\<close>

text \<open>An environment without failures, in which the position of the WAL is too small the first three
  times it is read, and a snapshot in fresh shared memory on an empty directory.\<close>

definition sample_pos :: "nat \<Rightarrow> XLogRecPtr" where
  "sample_pos n = (if n < 3 then 0 else 0x700000000)"

definition sample_env :: snap_env where
  "sample_env = \<lparr>crc_tbl = (\<lambda>_. 1), crc_meta = (\<lambda>_. 1), crc_bloom = (\<lambda>_. 1), rint_log = (\<lambda>_ _. 3), fails = (\<lambda>_. False),
     rename_fails = False, polar_is_standby = False, polar_max_logindex_files = 4, segment_cache = Some (\<lambda>_ f. f),
     table_flushable = polar_logindex_redo_table_flushable sample_pos, polar_logindex_table_batch_size = 2\<rparr>"

definition sample_store :: log_store where
  "sample_store = \<lparr>meta_file = None, tbl_files = (\<lambda>_. None), bloom_pages = (\<lambda>_ _. zero_bloom), meta = zero_meta,
     max_allocated_seg_no = 0,
     table_cache = \<lparr>cache_valid = False, cache_min_idx_table_id = 0, cache_max_idx_table_id = 0, cache_data = []\<rparr>\<rparr>"

definition sample_snapshot :: log_index_snapshot_t where
  "sample_snapshot = \<lparr>mem_tbl_size = 2, mem_table = (\<lambda>_. zero_mem_table), active_table = 0, snap_max_lsn = 0,
     max_parsed_lsn = 0, max_idx_table_id = 0, state_initialized = False, state_adding = False, state_writable = False,
     flush_active_table = False, promoted_info = zero_promoted_info, store = sample_store, last_flush_max_lsn = 0,
     last_max_table_id = 0, asked = 0\<rparr>"

definition sample_page :: "uint32 \<Rightarrow> BufferTag" where
  "sample_page b = \<lparr>rnode = \<lparr>spcNode = 1663, dbNode = 13000, relNode = 16384\<rparr>, forkNum = 0, blockNum = b\<rparr>"

definition sample_ops :: "log_op list" where
  "sample_ops = [Op_truncate 8, Op_bg_write, Op_add (sample_page 0) 16, Op_add (sample_page 1) 16, Op_bg_write,
     Op_add (sample_page 0) 24, Op_truncate 12, Op_add (sample_page 0) 0x500000000, Op_bg_write,
     Op_add (sample_page 0) 0x600000000]"

lemma sample_ok: "env_ok sample_env" "replay_order 8 (added sample_ops)" "truncates_to 12 sample_ops"
  "sample_page 0 \<noteq> sample_page 1" "\<forall>x\<in>set (added sample_ops). snd x \<le> 0x600000000"
  by (simp_all add: env_ok_def io_ok_def sample_env_def io_env.defs sample_ops_def replay_order_def truncates_to_def sample_page_def)

lemma sample_progress: "L < 0x700000000 \<Longrightarrow> flush_progress sample_env L"
  by (rule redo_flush_progress[of _ sample_pos 3]) (simp_all add: sample_env_def sample_pos_def)

lemma sample_run:
  obtains s H where "snap_inv sample_env s H" "state_adding s" "H \<noteq> []"
    "lsn_log H = [(sample_page 0, 16), (sample_page 1, 16)]"
proof -
  let ?ops = "[Op_add (sample_page 0) 16, Op_add (sample_page 1) 16]"
  obtain s1 st s2 H where "run_inv sample_env 8 12 s2 H" "lsn_log H = added ?ops"
    by (rule run_start[where env = sample_env and s = sample_snapshot and checkpoint_lsn = 8 and ops = ?ops and L = 16
          and ?l0.0 = 8 and mn = 12 and others = "bg_turn sample_env" and same_tli = "\<lambda>_. True" and fa = False])
      (use sample_ok bg_turn_ok sample_progress in
        \<open>simp_all add: sample_snapshot_def sample_store_def replay_order_def truncates_to_def sample_page_def\<close>)
  then show thesis using that[of s2 H] by (cases "H = []") (auto simp: run_inv_def lsn_log_def)
qed

text \<open>A state with a closed table that is not saved, before a new active table.\<close>

lemma sample_closed:
  obtains s H where "snap_inv sample_env s H" "state_adding s" "length H = 2" "saved_tables s = 0"
    "lsn_log H = [(sample_page 0, 16)]"
proof -
  let ?env = sample_env
  obtain s0 st where i: "snap_inv ?env (s0\<lparr>store := st\<rparr>) []" "start_lsn (meta st) = 8" "meta_max_lsn (meta st) = 0"
    by (rule start_ok[OF sample_ok(1), where s = sample_snapshot and checkpoint_lsn = 8 and ?l0.0 = 8
          and others = "bg_turn sample_env" and same_tli = "\<lambda>_. True" and fa = False])
      (simp_all add: sample_snapshot_def sample_store_def)
  have pr: "flush_progress ?env 16" by (rule sample_progress) simp
  obtain s H where s: "snap_inv ?env s H" "lsn_log H = [(sample_page 0, 16)]" "state_adding s" "length H \<le> 1"
    using add_lsn_ok[OF i(1) sample_ok(1) _ _ pr bg_turn_ok[OF sample_ok(1)], of "sample_page 0"] i(2,3)
    by (auto simp: next_lsn_def lsn_log_def keeps_def)
  have H: "length H = 1" "H \<noteq> []" using s(2,4) by (cases H; simp add: lsn_log_def)+
  have ne: "\<forall>L\<in>set H. L \<noteq> []" using H(1) s(2) by (auto simp: length_Suc_conv lsn_log_def)
  define m where "m = mem_table s (active_table s)"
  let ?s1 = "put_table s (active_table s) (m\<lparr>tbl_state := STATE_INACTIVE\<rparr>)"
  have r1: "ring_ok ?env ?s1 H (length H)" unfolding m_def by (rule close_active[OF s(1) H(2)])
  note rd = ring_okD[OF r1]
  have M: "saved_tables s = 0" using s(1) H(1) by (auto simp: snap_inv_def dest!: ring_okD(5))
  have one: "1 mod mem_tbl_size s = 1" using rd(1) by simp
  have "slot_ok (mem_tbl_size s) H 0 1 1 (mem_table ?s1 1)" using rd(1) rd(10)[of 1] M H(1) by simp
  then have z: "mem_table ?s1 1 = zero_mem_table" using H(1) by (simp add: slot_ok_def split: if_splits)
  have z': "tbl_state zero_mem_table = STATE_FREE" by (simp add: zero_mem_table_def)
  obtain s2 where s2: "ring_ok ?env s2 (H @ [[]]) (length H)" "keeps ?s1 s2" "saved_tables s2 = saved_tables ?s1"
    "mem_table s2 1 = zero_mem_table\<lparr>tbl_data := zero_table\<lparr>idx_table_id := Suc (length H), tbl_min_lsn := UINT64_MAX,
       prefix_lsn := ucast (drop_bit 32 (24 :: XLogRecPtr))\<rparr>, free_head := 1, tbl_state := STATE_ACTIVE\<rparr>"
    by (rule wait_active_ready[of ?s1 1 ?env ?s1 H "bg_turn ?env" 24])
      (use r1 z z' ne M H(1) rd(1) one in \<open>simp_all del: fun_upd_apply\<close>)
  have sz: "mem_tbl_size s2 = mem_tbl_size s" using s2(2) by (simp add: keeps_def)
  have "tbl_wf page_hash 1 (tbl_data (mem_table s2 1))"
    unfolding s2(4) by (rule empty_wf) (simp add: empty_slots_def zero_table_def)
  then have "snap_inv ?env (s2\<lparr>active_table := 1\<rparr>) (H @ [[]])"
    using s2(1,4) H(1) one sz
    by (simp add: snap_inv_def LOG_INDEX_MEM_TBL_IS_NEW_def zero_mem_table_def zero_table_def drop_bit_eq_div)
  moreover have "state_adding s2" using s2(2) s(3) by (simp add: keeps_def)
  ultimately show thesis using that[of "s2\<lparr>active_table := 1\<rparr>" "H @ [[]]"] H(1) s(2) s2(3) M by (simp add: lsn_log_def)
qed

theorem logindex_exact_witness:
  "\<exists>s1 st s2 s3 iter.
    polar_logindex_snapshot_init sample_env (bg_turn sample_env) sample_snapshot 8 (\<lambda>_. True) False False = Some (Inr (8, s1))
    \<and> polar_logindex_set_start_lsn (io_env.truncate sample_env) (store s1) 8 = Inr st
    \<and> run_ops sample_env (bg_turn sample_env) sample_ops (s1\<lparr>store := st\<rparr>) = Some (Inr s2)
    \<and> polar_logindex_create_page_iterator (io_env.truncate sample_env) (\<lambda>_. (True, True, True)) s2 (sample_page 0) 16 0x500000000 False
        = Some (Inr (s3, iter))
    \<and> map (\<lambda>e. (li_tag e, li_lsn e)) (drain 10 iter)
        = [(sample_page 0, 16), (sample_page 0, 24), (sample_page 0, 0x500000000)]"
proof -
  have "truncates_to 16 sample_ops" by (simp add: truncates_to_def sample_ops_def)
  with logindex_exact[of sample_env sample_snapshot 8 8 sample_ops 16 "0x500000000" "0x600000000" "bg_turn sample_env"
      "\<lambda>_. True" False "\<lambda>_. (True, True, True)" "sample_page 0"] sample_ok(1,2,5) sample_progress[of "0x600000000"]
    bg_turn_ok[OF sample_ok(1)]
  obtain s1 st s2 s3 iter where r:
    "polar_logindex_snapshot_init sample_env (bg_turn sample_env) sample_snapshot 8 (\<lambda>_. True) False False = Some (Inr (8, s1))"
    "polar_logindex_set_start_lsn (io_env.truncate sample_env) (store s1) 8 = Inr st"
    "run_ops sample_env (bg_turn sample_env) sample_ops (s1\<lparr>store := st\<rparr>) = Some (Inr s2)"
    "polar_logindex_create_page_iterator (io_env.truncate sample_env) (\<lambda>_. (True, True, True)) s2 (sample_page 0) 16 0x500000000 False
       = Some (Inr (s3, iter))"
    "\<forall>n. length (added sample_ops) < n \<longrightarrow> map (\<lambda>e. (li_tag e, li_lsn e)) (drain n iter)
       = filter (\<lambda>(p, l). p = sample_page 0 \<and> 16 \<le> l \<and> l \<le> 0x500000000) (added sample_ops)"
    by (auto simp: sample_snapshot_def sample_store_def)
  have "map (\<lambda>e. (li_tag e, li_lsn e)) (drain 10 iter)
      = [(sample_page 0, 16), (sample_page 0, 24), (sample_page 0, 0x500000000)]"
    using r(5)[rule_format, of 10] sample_ok(4) by (simp add: sample_ops_def)
  with r(1-4) show ?thesis by (intro exI conjI)
qed

theorem add_lsn_refines_witness:
  "\<exists>s H s' H'. snap_inv sample_env s H \<and> lsn_log H = [(sample_page 0, 16), (sample_page 1, 16)]
    \<and> polar_logindex_add_lsn sample_env (bg_turn sample_env) s (sample_page 1) InvalidXLogRecPtr 24 = Some (Inr s')
    \<and> snap_inv sample_env s' H' \<and> lsn_log H' = [(sample_page 0, 16), (sample_page 1, 16), (sample_page 1, 24)]"
proof -
  obtain s H where s: "snap_inv sample_env s H" "state_adding s" "H \<noteq> []"
    "lsn_log H = [(sample_page 0, 16), (sample_page 1, 16)]" by (rule sample_run)
  have "li_lsn e = 16" if "e \<in> set (concat H)" for e
  proof -
    have "(li_tag e, li_lsn e) \<in> set (lsn_log H)" using that by (auto simp: lsn_log_def)
    then show ?thesis using s(4) by auto
  qed
  then have nx: "next_lsn H (sample_page 1) 24" by (auto simp: next_lsn_def)
  have "flush_progress sample_env 24" by (rule sample_progress) simp
  from add_lsn_refines[OF s(1) sample_ok(1) nx disjI1[OF s(2)] this bg_turn_ok[OF sample_ok(1)]] s(1,4) show ?thesis by auto
qed

theorem bg_write_ok_witness:
  "\<exists>s H s'. snap_inv sample_env s H \<and> length H = 2 \<and> saved_tables s = 0 \<and> lsn_log H = [(sample_page 0, 16)]
    \<and> polar_logindex_bg_write sample_env s = Some (Inr (True, s')) \<and> snap_inv sample_env s' H \<and> saves s s' \<and> saved_tables s' = 1"
proof -
  obtain s H where s: "snap_inv sample_env s H" "state_adding s" "length H = 2" "saved_tables s = 0"
    "lsn_log H = [(sample_page 0, 16)]" by (rule sample_closed)
  have b: "\<forall>e\<in>set (concat H). li_lsn e \<le> 16"
  proof
    fix e assume "e \<in> set (concat H)"
    then have "(li_tag e, li_lsn e) \<in> set (lsn_log H)" by (auto simp: lsn_log_def)
    then show "li_lsn e \<le> 16" using s(5) by auto
  qed
  have "flush_progress sample_env 16" by (rule sample_progress) simp
  from bg_write_ok[OF s(1) sample_ok(1) s(2) b this] obtain d s' where
    w: "polar_logindex_bg_write sample_env s = Some (Inr (d, s'))" "snap_inv sample_env s' H" "saves s s'"
      "0 < saved_tables s'" "d \<longleftrightarrow> \<not> saved_tables s' < 1"
    using s(3,4) by (auto simp: sample_env_def)
  have "saved_tables s' \<le> 1" using w(2) s(3) by (auto simp: snap_inv_def dest!: ring_okD(5))
  then have "saved_tables s' = 1" "d" using w(4,5) by auto
  then show ?thesis using s w(1-3) by auto
qed

theorem truncate_safe_witness:
  "\<exists>st H st'. store_inv (io_env.truncate sample_env) st H \<and> lsn_log H = [(sample_page 0, 16), (sample_page 1, 16)]
    \<and> polar_logindex_truncate (io_env.truncate sample_env) st 24 = Some (Inr st')
    \<and> store_inv (io_env.truncate sample_env) st' H"
proof -
  obtain s H where s: "snap_inv sample_env s H" "state_adding s" "H \<noteq> []"
    "lsn_log H = [(sample_page 0, 16), (sample_page 1, 16)]" by (rule sample_run)
  then have r: "ring_ok sample_env s H (length H - 1)" by (simp add: snap_inv_def)
  have "saved_tables s < length H" using ring_okD(5)[OF r] s(3) by (cases H) auto
  moreover have "io_ok (io_env.truncate sample_env)" using sample_ok(1) by (simp add: env_ok_def)
  ultimately have "\<exists>st'. polar_logindex_truncate (io_env.truncate sample_env) (store s) 24 = Some (Inr st')
      \<and> store_inv (io_env.truncate sample_env) st' H"
    using truncate_safe[OF ring_okD(9)[OF r] _ ring_okD(8)[OF r], of 24] by blast
  then show ?thesis using ring_okD(9)[OF r] s(4) by blast
qed

end
