(* ===== verification/Log_Saved.thy ===== *)
theory Log_Saved
  imports Log_Run
begin

text \<open>
  What can be relied on for a single table: a table that was written can be read back and its filter
  covers it, a write that reports success has reached the files whatever else fails, and the order
  array and the hash chains of a table describe its contents.
\<close>

section \<open>Writing in any environment\<close>

lemma report_io_error: "log_index_report_io_error e = FATAL"
  by (cases e) simp_all

lemma same_log: "tbl_log (t\<lparr>tbl_min_lsn := a, tbl_max_lsn := b, tbl_crc := c\<rparr>) = tbl_log t"
  by (rule same_contents) simp_all

lemma open_table_result:
  assumes "log_index_open_table_file env st tid False = Inr st'"
  shows "\<not> fails env LOG_INDEX_OPEN_FAILED" "meta st' = meta st \<and> meta_file st' = meta_file st"
  using assms by (auto simp: log_index_open_table_file_def Let_def split: if_splits option.splits)

lemma save_table_result:
  assumes "log_index_save_table env st t bloom = (t', Inr st')"
  shows "\<not> fails env LOG_INDEX_WRITE_FAILED" "\<not> fails env LOG_INDEX_FSYNC_FAILED" "meta st' = meta st \<and> meta_file st' = meta_file st"
    "\<exists>f. tbl_files st' (LOG_INDEX_FILE_TABLE_SEGMENT_NO (idx_table_id t)) = Some f
       \<and> LOG_INDEX_FILE_TABLE_SEGMENT_OFFSET (idx_table_id t) < length f
       \<and> f ! LOG_INDEX_FILE_TABLE_SEGMENT_OFFSET (idx_table_id t) = t'"
    "idx_table_id t' = idx_table_id t" "tbl_log t' = tbl_log t" "tbl_crc t' = crc_tbl env (t'\<lparr>tbl_crc := 0\<rparr>)"
  using assms by (auto simp: log_index_save_table_def Let_def file_write_nth same_log split: if_splits option.splits)

lemma write_data_result:
  assumes "log_index_write_table_data env st fa m = Some (Inr (m', Inr st'))"
  obtains t where "\<not> fails env LOG_INDEX_OPEN_FAILED" "\<not> fails env LOG_INDEX_WRITE_FAILED" "\<not> fails env LOG_INDEX_FSYNC_FAILED"
    "meta st' = meta st \<and> meta_file st' = meta_file st" "idx_table_id t = idx_table_id (tbl_data m)" "tbl_log t = tbl_log (tbl_data m)"
    "tbl_crc t = crc_tbl env (t\<lparr>tbl_crc := 0\<rparr>)"
    "\<exists>f. tbl_files st' (LOG_INDEX_FILE_TABLE_SEGMENT_NO (idx_table_id (tbl_data m))) = Some f
       \<and> LOG_INDEX_FILE_TABLE_SEGMENT_OFFSET (idx_table_id (tbl_data m)) < length f
       \<and> f ! LOG_INDEX_FILE_TABLE_SEGMENT_OFFSET (idx_table_id (tbl_data m)) = t"
proof -
  let ?tid = "idx_table_id (tbl_data m)"
  obtain st1 bloom t where o: "log_index_open_table_file env st ?tid False = Inr st1"
    and s: "log_index_save_table env (log_index_save_bloom st1 ?tid bloom) (tbl_data m) bloom = (t, Inr st')"
    using assms by (auto simp: log_index_write_table_data_def Let_def split: sum.splits option.splits prod.splits)
  have "meta (log_index_save_bloom st1 ?tid bloom) = meta st \<and> meta_file (log_index_save_bloom st1 ?tid bloom) = meta_file st"
    using open_table_result(2)[OF o] by (simp add: log_index_save_bloom_def Let_def)
  then show thesis using that[OF open_table_result(1)[OF o] save_table_result(1,2)[OF s] _ save_table_result(5-7)[OF s] save_table_result(4)[OF s]]
    save_table_result(3)[OF s] by simp
qed

section \<open>Results\<close>

text \<open>C24. A table counts as saved only when it is on storage. If writing the next table reports success,
  in any environment and for any state of the files, then neither opening nor writing nor syncing the
  file failed, the table is at its place in its segment file with a valid checksum, and if it is a
  closed table then the meta file names it as the last one; saving the active table leaves the meta file
  and its copy in memory as they are. Hence, if one of these operations fails then the function does not
  return to its caller.\<close>

theorem write_table_durable:
  assumes tid: "idx_table_id (tbl_data m) = meta_max_idx_table_id (meta st) + 1"
  shows "(\<forall>b st' m'. log_index_write_table env st fa m = Some (Inr (b, st', m')) \<longrightarrow> b
      \<and> \<not> fails env LOG_INDEX_OPEN_FAILED \<and> \<not> fails env LOG_INDEX_WRITE_FAILED \<and> \<not> fails env LOG_INDEX_FSYNC_FAILED
      \<and> (\<exists>f t. tbl_files st' (LOG_INDEX_FILE_TABLE_SEGMENT_NO (idx_table_id (tbl_data m))) = Some f
           \<and> LOG_INDEX_FILE_TABLE_SEGMENT_OFFSET (idx_table_id (tbl_data m)) < length f
           \<and> f ! LOG_INDEX_FILE_TABLE_SEGMENT_OFFSET (idx_table_id (tbl_data m)) = t
           \<and> idx_table_id t = idx_table_id (tbl_data m) \<and> tbl_log t = tbl_log (tbl_data m)
           \<and> tbl_crc t = crc_tbl env (t\<lparr>tbl_crc := 0\<rparr>))
      \<and> (tbl_state m \<noteq> STATE_ACTIVE \<longrightarrow> meta_file st' = Some (meta st')
           \<and> meta_max_idx_table_id (meta st') = idx_table_id (tbl_data m))
      \<and> (tbl_state m = STATE_ACTIVE \<longrightarrow> meta_file st' = meta_file st \<and> meta st' = meta st))"
proof (intro allI impI)
  fix b st' m' assume w: "log_index_write_table env st fa m = Some (Inr (b, st', m'))"
  obtain m1 st1 where d: "log_index_write_table_data env st fa m = Some (Inr (m1, Inr st1))"
    using w tid by (auto simp: log_index_write_table_def Let_def split: option.splits sum.splits)
  let ?tid = "idx_table_id (tbl_data m)"
  obtain t where t: "\<not> fails env LOG_INDEX_OPEN_FAILED" "\<not> fails env LOG_INDEX_WRITE_FAILED" "\<not> fails env LOG_INDEX_FSYNC_FAILED"
    "meta st1 = meta st \<and> meta_file st1 = meta_file st" "idx_table_id t = ?tid" "tbl_log t = tbl_log (tbl_data m)" "tbl_crc t = crc_tbl env (t\<lparr>tbl_crc := 0\<rparr>)"
    "\<exists>f. tbl_files st1 (LOG_INDEX_FILE_TABLE_SEGMENT_NO ?tid) = Some f \<and> LOG_INDEX_FILE_TABLE_SEGMENT_OFFSET ?tid < length f
       \<and> f ! LOG_INDEX_FILE_TABLE_SEGMENT_OFFSET ?tid = t"
    by (rule write_data_result[OF d])
  have mx: "meta_max_idx_table_id (meta_add_table (meta st1) ?tid l) = ?tid" for l
    using tid t(4) by (simp add: meta_add_table_def Let_def)
  have r: "b \<and> tbl_files st' = tbl_files st1
      \<and> (tbl_state m \<noteq> STATE_ACTIVE \<longrightarrow> meta_file st' = Some (meta st') \<and> meta_max_idx_table_id (meta st') = ?tid)
      \<and> (tbl_state m = STATE_ACTIVE \<longrightarrow> meta_file st' = meta_file st \<and> meta st' = meta st)"
  proof (cases "tbl_state m = STATE_ACTIVE")
    case True
    then show ?thesis using w d tid t(4) by (simp add: log_index_write_table_def)
  next
    case False
    then show ?thesis using w d tid t(1-3) mx
      by (auto simp: log_index_write_table_def polar_log_index_write_meta_def Let_def split: if_splits)
  qed
  show "b \<and> \<not> fails env LOG_INDEX_OPEN_FAILED \<and> \<not> fails env LOG_INDEX_WRITE_FAILED \<and> \<not> fails env LOG_INDEX_FSYNC_FAILED
      \<and> (\<exists>f t. tbl_files st' (LOG_INDEX_FILE_TABLE_SEGMENT_NO ?tid) = Some f
           \<and> LOG_INDEX_FILE_TABLE_SEGMENT_OFFSET ?tid < length f \<and> f ! LOG_INDEX_FILE_TABLE_SEGMENT_OFFSET ?tid = t
           \<and> idx_table_id t = ?tid \<and> tbl_log t = tbl_log (tbl_data m) \<and> tbl_crc t = crc_tbl env (t\<lparr>tbl_crc := 0\<rparr>))
      \<and> (tbl_state m \<noteq> STATE_ACTIVE \<longrightarrow> meta_file st' = Some (meta st') \<and> meta_max_idx_table_id (meta st') = ?tid)
      \<and> (tbl_state m = STATE_ACTIVE \<longrightarrow> meta_file st' = meta_file st \<and> meta st' = meta st)"
    using t(1-3,5-8) r by (intro conjI) auto
qed

text \<open>C23. A saved table can be read back. When the next closed table of a history is written and the
  operating system reports no failure, the write succeeds, the invariant of the files holds again, and
  reading the table from its segment file gives a table with the same id and the same contents. Its
  filter on storage denies none of its pages and its bounds contain all its LSNs.\<close>

theorem saved_table_roundtrip:
  assumes "store_inv env st H" "io_ok env" "tbl_state m = STATE_INACTIVE"
    "meta_max_idx_table_id (meta st) < length H" "idx_table_id (tbl_data m) = Suc (meta_max_idx_table_id (meta st))"
    "tbl_holds (tbl_data m) (H ! meta_max_idx_table_id (meta st))" "page_sorted (H ! meta_max_idx_table_id (meta st))"
  shows "\<exists>st' m' t. log_index_write_table env st fa m = Some (Inr (True, st', m')) \<and> store_inv env st' H
    \<and> log_index_read_table_data env st' (idx_table_id (tbl_data m)) = Inr t
    \<and> idx_table_id t = idx_table_id (tbl_data m) \<and> tbl_log t = tbl_log (tbl_data m)
    \<and> bloom_covers env (log_index_get_tbl_bloom st' (idx_table_id (tbl_data m))) (idx_table_id (tbl_data m)) (tbl_log t)"
proof -
  let ?M = "meta_max_idx_table_id (meta st)"
  obtain st' t' where w: "log_index_write_table env st fa m = Some (Inr (True, st', m\<lparr>tbl_data := t', tbl_state := STATE_FLUSHED\<rparr>))"
    "store_inv env st' H" "meta_max_idx_table_id (meta st') = Suc ?M" "idx_table_id t' = Suc ?M" "tbl_holds t' (H ! ?M)"
    "seg_min_idx_table_id (min_segment_info (meta st')) =
      (if ?M = 0 then 1 else seg_min_idx_table_id (min_segment_info (meta st)))"
    by (rule write_table_ok[OF assms])
  have "seg_min_idx_table_id (min_segment_info (meta st')) \<le> Suc ?M"
    using store_invD(3)[OF w(2)] w(3) by (auto simp: min_segment_ok_def)
  then have s: "stored env st' (Suc ?M) (H ! ?M)" using store_invD(5)[OF w(2)] w(3) by simp
  obtain t where t: "log_index_read_table_data env st' (Suc ?M) = Inr t" "idx_table_id t = Suc ?M" "tbl_holds t (H ! ?M)"
    by (rule read_table_data_ok[OF s assms(2)])
  have "tbl_log t = H ! ?M" "tbl_log (tbl_data m) = H ! ?M" using t(3) assms(6) by (simp_all add: tbl_holds_def)
  moreover have "bloom_covers env (log_index_get_tbl_bloom st' (Suc ?M)) (Suc ?M) (H ! ?M)" using s by (simp add: stored_def)
  ultimately show ?thesis using w(1,2) t(1,2) assms(5) by auto
qed

text \<open>C25. The order array of a table enumerates its contents. For a well-formed table, reading the
  entries in the order of insertion gives exactly the log of the table, each entry with its page, its
  full 64 bit LSN and the previous LSN of the page, and behind the last one the invalid LSN. A page is
  found through its hash slot exactly if the log has an entry for it.\<close>

theorem table_lookup:
  assumes "tbl_wf hash n t"
  shows "(\<forall>k. log_index_get_order_lsn t k =
      Inr (if k < length (tbl_log t) then (li_lsn (tbl_log t ! k), Some (tbl_log t ! k)) else (InvalidXLogRecPtr, None)))
    \<and> (\<exists>item. log_index_tbl_find page t (LOG_INDEX_MEM_TBL_HASH_PAGE hash page) = Some (Inr item)
         \<and> (item = None \<longleftrightarrow> page \<notin> li_tag ` set (tbl_log t)))"
proof (intro conjI allI)
  show "log_index_get_order_lsn t k =
      Inr (if k < length (tbl_log t) then (li_lsn (tbl_log t ! k), Some (tbl_log t ! k)) else (InvalidXLogRecPtr, None))" for k
    using get_order_lsn_eq[OF assms, of k] get_order_lsn_end[of t k] by (simp add: length_tbl_log not_less)
  have "find_head t n page = 0 \<longleftrightarrow> page \<notin> li_tag ` set (tbl_log t)"
    using find_head_log[OF assms, of page] by (auto simp: page_log_def filter_empty_conv)
  then show "\<exists>item. log_index_tbl_find page t (LOG_INDEX_MEM_TBL_HASH_PAGE hash page) = Some (Inr item)
         \<and> (item = None \<longleftrightarrow> page \<notin> li_tag ` set (tbl_log t))"
    using tbl_find_eq[OF assms, of page] by auto
qed

section \<open>Samples\<close>

text \<open>The first table that is not saved of a sample snapshot, as a closed table.\<close>

lemma sample_table:
  obtains s H m where "ring_ok sample_env s H (length H - 1)" "saved_tables s < length H" "tbl_state m = STATE_INACTIVE"
    "LOG_INDEX_MEM_TBL_TID m = Suc (saved_tables s)" "tbl_holds (tbl_data m) (H ! saved_tables s)" "page_sorted (H ! saved_tables s)"
proof -
  obtain s H where s: "snap_inv sample_env s H" "H \<noteq> []" by (rule sample_run)
  then have r: "ring_ok sample_env s H (length H - 1)" by (simp add: snap_inv_def)
  have M: "saved_tables s < length H" using ring_okD(5)[OF r] s(2) by (cases H) auto
  let ?m = "mem_table s (saved_tables s mod mem_tbl_size s)"
  have t: "LOG_INDEX_MEM_TBL_TID ?m = Suc (saved_tables s)" using ring_okD(11)[OF r le_refl M] .
  show thesis using that[OF r M, of "?m\<lparr>tbl_state := STATE_INACTIVE\<rparr>"] t ring_table(2)[OF r M t]
      hist_table(1)[OF ring_okD(8)[OF r] M] by simp
qed

lemma sample_io: "io_ok (io_env.truncate sample_env)"
  using sample_ok(1) by (simp add: env_ok_def)

theorem saved_table_roundtrip_witness:
  "\<exists>st m st' m' t. log_index_write_table (io_env.truncate sample_env) st False m = Some (Inr (True, st', m'))
    \<and> log_index_read_table_data (io_env.truncate sample_env) st' (idx_table_id (tbl_data m)) = Inr t
    \<and> tbl_log t = tbl_log (tbl_data m)"
proof -
  obtain s H m where m: "ring_ok sample_env s H (length H - 1)" "saved_tables s < length H" "tbl_state m = STATE_INACTIVE"
    "LOG_INDEX_MEM_TBL_TID m = Suc (saved_tables s)" "tbl_holds (tbl_data m) (H ! saved_tables s)" "page_sorted (H ! saved_tables s)"
    by (rule sample_table)
  from saved_table_roundtrip[OF ring_okD(9)[OF m(1)] sample_io m(3,2,4,5,6), of False] show ?thesis by blast
qed

theorem write_table_durable_witness:
  "\<exists>st m st' m'. log_index_write_table (io_env.truncate sample_env) st False m = Some (Inr (True, st', m'))
    \<and> meta_max_idx_table_id (meta st') = idx_table_id (tbl_data m) \<and> meta_file st' = Some (meta st')"
proof -
  obtain s H m where m: "ring_ok sample_env s H (length H - 1)" "saved_tables s < length H" "tbl_state m = STATE_INACTIVE"
    "LOG_INDEX_MEM_TBL_TID m = Suc (saved_tables s)" "tbl_holds (tbl_data m) (H ! saved_tables s)" "page_sorted (H ! saved_tables s)"
    by (rule sample_table)
  obtain st' t' where w: "log_index_write_table (io_env.truncate sample_env) (store s) False m
      = Some (Inr (True, st', m\<lparr>tbl_data := t', tbl_state := STATE_FLUSHED\<rparr>))"
    by (rule write_table_ok[OF ring_okD(9)[OF m(1)] sample_io m(3,2,4,5,6), of False])
  have "idx_table_id (tbl_data m) = saved_tables s + 1" using m(4) by simp
  from write_table_durable[OF this, of "io_env.truncate sample_env" False, rule_format, OF w] m(3) w show ?thesis by auto
qed

lemma sample_wf_table:
  obtains t where "tbl_wf page_hash 2 t" "tbl_log t = [\<lparr>li_tag = sample_page 0, li_lsn = 16, li_prev_lsn = 0\<rparr>]"
proof -
  let ?info = "\<lparr>li_tag = sample_page 0, li_lsn = 16, li_prev_lsn = 0\<rparr>"
  have e: "empty_slots zero_table" by (simp add: empty_slots_def zero_table_def)
  have wf: "tbl_wf page_hash 1 (tbl_data zero_mem_table)" using empty_wf[OF e] by (simp add: zero_mem_table_def)
  have log: "tbl_log (tbl_data zero_mem_table) = []" using empty_log[OF e] by (simp add: zero_mem_table_def)
  have f: "find_head (tbl_data zero_mem_table) 1 (li_tag ?info) = 0"
    using find_head_log[OF wf, of "li_tag ?info"] log by (simp add: page_log_def)
  have "(1::nat) < LOG_INDEX_MEM_TBL_SEG_NUM" by (simp add: LOG_INDEX_MEM_TBL_SEG_NUM_def)
  moreover have "LOG_INDEX_SAME_TABLE_LSN_PREFIX (tbl_data zero_mem_table) (li_lsn ?info)"
    by (simp add: LOG_INDEX_SAME_TABLE_LSN_PREFIX_def zero_mem_table_def zero_table_def drop_bit_eq_div)
  ultimately obtain t where "inserted page_hash (Suc 1) (tbl_data zero_mem_table) ?info t"
    using insert_new_item_ok[OF wf _ f, of 0] by blast
  then show thesis using that[of t] log by (simp add: inserted_def spec_insert_def page_log_def numeral_2_eq_2)
qed

theorem table_lookup_witness:
  "\<exists>t item. log_index_get_order_lsn t 0 = Inr (16, Some \<lparr>li_tag = sample_page 0, li_lsn = 16, li_prev_lsn = 0\<rparr>)
    \<and> log_index_get_order_lsn t 1 = Inr (0, None)
    \<and> log_index_tbl_find (sample_page 0) t (LOG_INDEX_MEM_TBL_HASH_PAGE page_hash (sample_page 0)) = Some (Inr (Some item))"
proof -
  obtain t where t: "tbl_wf page_hash 2 t" "tbl_log t = [\<lparr>li_tag = sample_page 0, li_lsn = 16, li_prev_lsn = 0\<rparr>]"
    by (rule sample_wf_table)
  show ?thesis using table_lookup[OF t(1), of "sample_page 0"] t(2) by (intro exI[of _ t]) auto
qed

end
