(* ===== verification/Spec2Isabelle.thy ===== *)
theory Spec2Isabelle
  imports Polar_Queue Mini_Trans_Steps Checkpoint_Ring Rel_Size_Run Log_Saved
begin

text \<open>
  Verification of the shared storage layer of PolarDB for PostgreSQL
  (\<open>src/polardb/src/backend/access/logindex\<close>).

  In PolarDB one primary writes pages and WAL to storage that replicas share. A replica, and the primary
  during recovery, replays a page only when it is read, and therefore has to know for each page which WAL
  records change it. The \<^emph>\<open>logindex\<close> is this index: for each page the list of the LSNs of its records. The
  primary sends the metadata of its WAL to the replicas through a \<^emph>\<open>queue\<close> in a ring buffer; every process
  that replays locks the pages of a record in a \<^emph>\<open>mini transaction\<close> while it adds the LSN of the record
  to the logindex.

  \<^bold>\<open>Conventions.\<close> \<open>Polar_Prelude\<close> has the machine integers, the levels of error reports as values of a
  sum type (\<open>'a result\<close>), the page identity and the circular index macros. A loop that might not end is a
  \<open>partial_function (option)\<close>, for which \<open>None\<close> means that it does not return; the results show \<open>Some\<close>. There
  is no fuel in the model of the code; \<open>drain\<close> calls the iterator a given number of times, and the results
  hold for every number above the length of the log. LSNs, hashes, bitmaps, packet lengths and reference
  counts are words of their width. Checksums, failures of the operating system, the logarithm of the floating
  point library, callbacks and configuration are fields of an environment; what other processes do while the
  code sleeps is a parameter.

  \<^bold>\<open>Ring buffer\<close> (\<open>polar_ringbuf.c\<close>, \<open>polar_ringbuf.h\<close>, \<open>polar_bitpos.h\<close>). \<open>Polar_Bitpos\<close> has the occupancy
  bitmaps, with the two variants of the search for the least bit. \<open>Polar_Ringbuf\<close> is the model: \<open>polar_ringbuf_data_t\<close> with
  its bytes, slots and references, one definition per function. \<open>Polar_Ring_Queue\<close> abstracts it to a log of
  packets with one cursor per reference; \<open>Polar_Ring_Steps\<close> treats references and eviction, and
  \<open>Polar_Ring_Log\<close> has the step relation of all operations with its reachable states and the results: a
  published packet is delivered exactly, nothing unpublished is recycled, stale references stay invalid,
  freeing up and trimming end. \<open>Packet_Log\<close> states the interface of the queue as a locale and interprets it
  on the ring buffer. \<open>Polar_Queue\<close> has the streaming functions of \<open>polar_queue_manager.c\<close>, proved in terms of
  that interface: what the primary pops and a replica pushes is the same packets in the same order.

  \<^bold>\<open>Mini transactions\<close> (\<open>polar_mini_transaction.c\<close>). \<open>Mini_Trans\<close> is the table with coalesced chains and
  its invariant: it is a map from pages to locks. \<open>Mini_Trans_Steps\<close> runs it with several processes; the
  reference counts make it safe to clear the table without a lock.

  \<^bold>\<open>Checkpoint stash\<close> (\<open>polar_checkpoint_ringbuf.c\<close>). \<open>Checkpoint_Ring\<close> shows that it is a bounded queue from
  which a checkpoint comes out only when the replay has reached its redo position.

  \<^bold>\<open>Relation size cache\<close> (\<open>polar_rel_size_cache.c\<close>). \<open>Rel_Size\<close> is the log of truncated relations and of created
  and dropped databases, in a ring of tables with older tables in files, and the search in it, related to the
  history of all tables. \<open>Rel_Size_Run\<close> shows that after any sequence of records and truncations the cache tells
  exactly whether a page is gone and from which LSN it is replayed, as long as there are fewer than \<open>2\<^sup>32\<close>
  operations, since table ids are passed as 32-bit numbers, and table files can be written. The PANIC branch
  of \<open>polar_check_rel_block_valid_only\<close> is modelled; the results are about \<open>polar_check_rel_block_valid_and_lsn\<close>.

  \<^bold>\<open>Hashing and filters\<close> (\<open>hashfn.c\<close>, \<open>bloomfilter.c\<close>). \<open>Hash_Fn\<close> shows that the aligned and the
  unaligned code compute the same hash and that mixing loses no information. \<open>Bloom_Filter\<close> shows that a
  filter never denies an element and stays within its memory; the locale \<open>approx_set\<close> is the interface the
  logindex uses.

  \<^bold>\<open>Logindex\<close> (\<open>polar_logindex.c\<close>, \<open>polar_logindex_internal.h\<close>, \<open>polar_logindex_iterator.c\<close>).
  \<^item> \<open>Log_Table\<close> models one table: item heads and segments in one array, page chains, hash chains and the
    order array. \<open>Log_Table_Inv\<close> has its invariant and contents, \<open>Log_Table_Insert\<close> the three ways to insert.
  \<^item> \<open>Log_Store\<close> models the files: meta file, segment files of 64 tables, filter pages, truncation.
    \<open>Log_Bloom\<close> and \<open>Log_Store_Inv\<close> have the invariant of the files and show that a table written can be read
    back with a filter that covers its pages; \<open>Log_Truncate\<close> that truncation drops only old tables.
  \<^item> \<open>Log_Snapshot\<close> models the ring of tables in shared memory, insertion, flushing, loading and
    promotion. \<open>Log_Snapshot_Inv\<close> relates a snapshot to its history, the list of the contents of all tables
    ever used. \<open>Log_Add\<close>, \<open>Log_Flush\<close> and \<open>Log_Read\<close> show that the operations keep this relation and how they
    change the history.
  \<^item> \<open>Log_Iter\<close> models the page iterator and the LSN iterator. \<open>Log_Page_Iter\<close> and \<open>Log_Page_Search\<close> show that
    a page iterator collects the LSNs of its page from memory and files.
  \<^item> \<open>Log_Run\<close> composes them: from an empty directory, after any sequence of additions, background
    writes and truncations, an iterator returns exactly the LSNs added for its page in its range.
    \<open>Log_Saved\<close> states what holds for a single table: it can be read back, a successful write is durable in
    any environment, and the order array and the hash chains describe its contents.

  The results on the logindex are about the primary with one process that inserts. They assume that the
  operating system reports no failure (\<open>io_ok\<close>, \<open>env_ok\<close>) and that LSNs come in the order of replay; the model
  itself has the error branches.

  \<^bold>\<open>Not modelled.\<close> Loading a snapshot from existing files, the background write of a replica, promotion
  and the LSN iterator are modelled as the code has them, but no result is stated about them. The records
  the queue builds from WAL (the first half of \<open>polar_queue_manager.c\<close>) depend on the global state of the
  WAL insertion code. The redo of the resource managers (\<open>polar_*_idx.c\<close>), \<open>polar_fullpage.c\<close>,
  \<open>polar_logindex_redo.c\<close> and \<open>polar_logindex_bg_worker.c\<close> act on buffers and processes of the server and use the
  logindex through the modelled operations. Shared memory allocation, locks held for a whole function,
  statistics output and log messages have no effect on the modelled state. The server itself and its extensions,
  pgvector among them, are outside this development.
\<close>

end
